(* ===== verification/Prelude.thy ===== *)
theory Prelude
  imports Main "HOL-Library.Word" "HOL-Library.Signed_Division"
begin

text \<open>
  The shared vocabulary of the kvsd development: bytes and the named control characters,
  the range of the C++ type \<^verbatim>\<open>int64_t\<close>, the constants of \<^verbatim>\<open><cstdint>\<close>, the C library
  function \<^verbatim>\<open>memchr\<close>, and the generic facts on lists that several components use.

  A C++ \<^verbatim>\<open>char\<close> is a HOL \<^typ>\<open>char\<close> (a byte). The sources compare characters only with
  ASCII constants and only by range tests of the form \<^verbatim>\<open>lo <= c && c <= hi\<close>; those give
  the same answer whether \<^verbatim>\<open>char\<close> is signed or not, because a byte of 128 or more is
  outside every such range under either reading. \<^verbatim>\<open>size_t\<close> is \<^typ>\<open>nat\<close>: every size is
  the size of an object in memory. \<^verbatim>\<open>int64_t\<close> is \<^typ>\<open>int\<close>, and that every computed value
  lies in its range is proved rather than assumed, since signed overflow has no meaning
  in C++; \<^verbatim>\<open>uint64_t\<close> is \<^typ>\<open>64 word\<close>, where arithmetic wraps.
\<close>

named_theorems int64_simps "unfolding of the 64-bit range and its constants"

type_synonym byte = char
type_synonym bytes = "char list"
type_synonym u64 = "64 word"

subsection \<open>The range of int64_t\<close>

abbreviation INT64_MAX :: int where
  "INT64_MAX \<equiv> 9223372036854775807"

abbreviation INT64_MIN :: int where
  "INT64_MIN \<equiv> - 9223372036854775808"

abbreviation UINT64_MAX :: u64 where
  "UINT64_MAX \<equiv> 18446744073709551615"

definition in_int64 :: "int \<Rightarrow> bool" where
  "in_int64 n \<longleftrightarrow> INT64_MIN \<le> n \<and> n \<le> INT64_MAX"

declare in_int64_def [int64_simps]

text \<open>C++ integer division truncates towards zero; \<open>sdiv\<close> of the library does the same.\<close>

lemma sdiv_pos_eq: "0 \<le> a \<Longrightarrow> 0 < b \<Longrightarrow> (a::int) sdiv b = a div b"
  by (simp add: signed_divide_int_def sgn_if)

lemma sdiv_neg_eq: "a \<le> 0 \<Longrightarrow> 0 < b \<Longrightarrow> (a::int) sdiv b = - ((- a) div b)"
  by (simp add: signed_divide_int_def sgn_if)

subsection \<open>Bytes\<close>

abbreviation CR :: byte where "CR \<equiv> CHR 0x0D"
abbreviation LF :: byte where "LF \<equiv> CHR 0x0A"
abbreviation DQUOTE :: byte where "DQUOTE \<equiv> CHR 0x22"
abbreviation SQUOTE :: byte where "SQUOTE \<equiv> CHR 0x27"
abbreviation BACKSLASH :: byte where "BACKSLASH \<equiv> CHR 0x5C"
abbreviation NUL :: byte where "NUL \<equiv> CHR 0x00"

abbreviation CRLF :: bytes where "CRLF \<equiv> [CR, LF]"

definition byte_val :: "byte \<Rightarrow> nat" where
  "byte_val c = of_char c"

lemma byte_val_bound [simp]: "byte_val c < 256"
  by (simp add: byte_val_def)

lemma byte_val_char_of [simp]: "n < 256 \<Longrightarrow> byte_val (char_of n) = n"
  by (simp add: byte_val_def)

lemma char_of_byte_val [simp]: "char_of (byte_val c) = c"
  by (simp add: byte_val_def)

lemma byte_val_inject: "byte_val c = byte_val d \<longleftrightarrow> c = d"
  by (simp add: byte_val_def)

definition is_digit :: "byte \<Rightarrow> bool" where
  "is_digit c \<longleftrightarrow> 48 \<le> byte_val c \<and> byte_val c \<le> 57"

text \<open>The byte of a decimal digit, \<^verbatim>\<open>'0' + d\<close>.\<close>

definition digit :: "nat \<Rightarrow> byte" where
  "digit d = char_of (48 + d)"

lemma byte_val_digit [simp]: "d < 10 \<Longrightarrow> byte_val (digit d) = 48 + d"
  by (simp add: digit_def)

lemma is_digit_digit [simp]: "d < 10 \<Longrightarrow> is_digit (digit d)"
  by (simp add: is_digit_def)

lemma digit_neq_special:
  assumes "is_digit c"
  shows "c \<noteq> CR" "c \<noteq> LF" "c \<noteq> CHR ''-''" "c \<noteq> CHR ''*''" "c \<noteq> CHR ''$''"
  using assms by (auto simp: is_digit_def byte_val_def)

subsection \<open>memchr\<close>

text \<open>
  \<^verbatim>\<open>memchr(p, c, n)\<close> scans the \<open>n\<close> bytes at \<open>p\<close> for the first \<open>c\<close>. The model takes the
  scanned region as a list and returns the offset of the hit, \<open>None\<close> for \<^verbatim>\<open>nullptr\<close>.
\<close>

fun memchr :: "byte \<Rightarrow> bytes \<Rightarrow> nat option" where
  "memchr c [] = None"
| "memchr c (x # xs) = (if x = c then Some 0 else map_option Suc (memchr c xs))"

lemma memchr_None_iff: "memchr c xs = None \<longleftrightarrow> c \<notin> set xs"
  by (induction xs) auto

lemma memchr_SomeD:
  "memchr c xs = Some i \<Longrightarrow> i < length xs \<and> xs ! i = c \<and> c \<notin> set (take i xs)"
proof (induction xs arbitrary: i)
  case (Cons x xs)
  then show ?case by (cases i) (auto split: if_splits)
qed simp

lemma memchr_SomeI:
  "i < length xs \<Longrightarrow> xs ! i = c \<Longrightarrow> c \<notin> set (take i xs) \<Longrightarrow> memchr c xs = Some i"
proof (induction xs arbitrary: i)
  case (Cons x xs)
  then show ?case by (cases i) auto
qed simp

lemma memchr_append:
  "memchr c (xs @ ys) =
     (case memchr c xs of Some i \<Rightarrow> Some i | None \<Rightarrow> map_option (\<lambda>i. length xs + i) (memchr c ys))"
proof (induction xs)
  case Nil
  show ?case by (cases "memchr c ys") simp_all
next
  case (Cons x xs)
  then show ?case by (cases "memchr c xs"; cases "memchr c ys") auto
qed

subsection \<open>Lists\<close>

lemma take_append_le [simp]: "n \<le> length xs \<Longrightarrow> take n (xs @ ys) = take n xs"
  by simp

lemma drop_append_le [simp]: "n \<le> length xs \<Longrightarrow> drop n (xs @ ys) = drop n xs @ ys"
  by simp

lemma hd_append_nonempty [simp]: "xs \<noteq> [] \<Longrightarrow> hd (xs @ ys) = hd xs"
  by simp

lemma nth_append_left: "i < length xs \<Longrightarrow> (xs @ ys) ! i = xs ! i"
  by (simp add: nth_append)

end
