(* ===== verification/Buffer.thy ===== *)
theory Buffer
  imports Prelude "HOL-Library.While_Combinator"
begin

text \<open>
  The growable byte buffer of \<^verbatim>\<open>src/net/buffer.h\<close> and \<^verbatim>\<open>src/net/buffer.cpp\<close>: a vector of
  bytes with a read and a write cursor. The model keeps the vector and both cursors, so
  compaction (\<^verbatim>\<open>memmove\<close>), growth (\<^verbatim>\<open>resize\<close>) and the cursor bump of \<^verbatim>\<open>consume\<close> are the
  operations of the source. What a client of the class may rely on is the interface
  \<open>byte_queue\<close>: the readable bytes, \<open>buf_contents\<close>, behave as a queue.
\<close>

subsection \<open>State and accessors\<close>

record buffer =
  bdata :: bytes
  read_pos :: nat
  write_pos :: nat

definition new_buffer :: buffer where
  "new_buffer = \<lparr>bdata = [], read_pos = 0, write_pos = 0\<rparr>"

definition readable :: "buffer \<Rightarrow> nat" where
  "readable b = write_pos b - read_pos b"

definition buf_empty :: "buffer \<Rightarrow> bool" where
  "buf_empty b \<longleftrightarrow> readable b = 0"

definition writable :: "buffer \<Rightarrow> nat" where
  "writable b = length (bdata b) - write_pos b"

definition capacity :: "buffer \<Rightarrow> nat" where
  "capacity b = length (bdata b)"

text \<open>
  \<^verbatim>\<open>to_string()\<close>: the \<^verbatim>\<open>readable()\<close> bytes from \<^verbatim>\<open>peek()\<close> on. Reads of the source through
  \<^verbatim>\<open>peek()\<close> stay inside this region.
\<close>

definition buf_contents :: "buffer \<Rightarrow> bytes" where
  "buf_contents b = take (readable b) (drop (read_pos b) (bdata b))"

subsection \<open>Operations\<close>

definition kDoublingLimit :: nat where
  "kDoublingLimit = 16 * 1024 * 1024"

definition kInitialSize :: nat where
  "kInitialSize = 1024"

definition compact :: "buffer \<Rightarrow> buffer" where
  "compact b =
     (let n = readable b;
          d = (if n > 0 \<and> read_pos b > 0
               then take n (drop (read_pos b) (bdata b)) @ drop n (bdata b)
               else bdata b)
      in b\<lparr>bdata := d, read_pos := 0, write_pos := n\<rparr>)"

text \<open>The growth loop of \<^verbatim>\<open>ensure_writable\<close>, from the current size to at least \<open>want\<close>.\<close>

definition grow_size :: "nat \<Rightarrow> nat \<Rightarrow> nat" where
  "grow_size sz want =
     while (\<lambda>next. next < want)
       (\<lambda>next. next + (if next < kDoublingLimit then next else kDoublingLimit))
       (max sz kInitialSize)"

definition vec_resize :: "bytes \<Rightarrow> nat \<Rightarrow> bytes" where
  "vec_resize d n = take n d @ replicate (n - length d) NUL"

definition ensure_writable :: "buffer \<Rightarrow> nat \<Rightarrow> buffer" where
  "ensure_writable b n =
     (if writable b \<ge> n then b
      else if read_pos b + writable b \<ge> n then compact b
      else (let b' = compact b;
                want = write_pos b' + n
            in b'\<lparr>bdata := vec_resize (bdata b') (grow_size (length (bdata b')) want)\<rparr>))"

definition commit :: "buffer \<Rightarrow> nat \<Rightarrow> buffer" where
  "commit b n = b\<lparr>write_pos := write_pos b + n\<rparr>"

text \<open>
  Bytes stored through \<^verbatim>\<open>write_ptr()\<close>, by the \<^verbatim>\<open>memcpy\<close> of \<^verbatim>\<open>append\<close> or by \<^verbatim>\<open>read(2)\<close>.
\<close>

definition write_at :: "buffer \<Rightarrow> bytes \<Rightarrow> buffer" where
  "write_at b p =
     b\<lparr>bdata := take (write_pos b) (bdata b) @ p @ drop (write_pos b + length p) (bdata b)\<rparr>"

definition buf_append :: "buffer \<Rightarrow> bytes \<Rightarrow> buffer" where
  "buf_append b p =
     (if length p = 0 then b
      else commit (write_at (ensure_writable b (length p)) p) (length p))"

definition consume_all :: "buffer \<Rightarrow> buffer" where
  "consume_all b = b\<lparr>read_pos := 0, write_pos := 0\<rparr>"

definition consume :: "buffer \<Rightarrow> nat \<Rightarrow> buffer" where
  "consume b n =
     (if n \<ge> readable b then consume_all b else b\<lparr>read_pos := read_pos b + n\<rparr>)"

subsection \<open>The class invariant\<close>

definition buf_ok :: "buffer \<Rightarrow> bool" where
  "buf_ok b \<longleftrightarrow> read_pos b \<le> write_pos b \<and> write_pos b \<le> length (bdata b)"

lemmas buffer_defs = readable_def writable_def buf_contents_def buf_ok_def capacity_def

lemma length_contents [simp]: "buf_ok b \<Longrightarrow> length (buf_contents b) = readable b"
  by (auto simp: buffer_defs)

lemma buf_empty_iff: "buf_ok b \<Longrightarrow> buf_empty b \<longleftrightarrow> buf_contents b = []"
  by (metis buf_empty_def length_contents length_0_conv)

lemma buf_ok_new [simp]: "buf_ok new_buffer"
  by (simp add: new_buffer_def buf_ok_def)

lemma contents_new [simp]: "buf_contents new_buffer = []"
  by (simp add: new_buffer_def buffer_defs)

lemma buf_ok_compact [simp]: "buf_ok b \<Longrightarrow> buf_ok (compact b)"
  by (auto simp: compact_def buffer_defs Let_def)

lemma contents_compact [simp]: "buf_ok b \<Longrightarrow> buf_contents (compact b) = buf_contents b"
  by (auto simp: compact_def buffer_defs Let_def)

lemma length_compact [simp]: "buf_ok b \<Longrightarrow> length (bdata (compact b)) = length (bdata b)"
  by (auto simp: compact_def buffer_defs Let_def)

lemma compact_cursors [simp]: "read_pos (compact b) = 0" "write_pos (compact b) = readable b"
  by (simp_all add: compact_def Let_def)

lemma take_compact: "buf_ok b \<Longrightarrow> take (readable b) (bdata (compact b)) = buf_contents b"
  using contents_compact [of b] by (simp add: buf_contents_def readable_def)

text \<open>
  The growth loop stops, because every size it visits is at least \<open>kInitialSize\<close>, hence
  positive, and it stops at a size that is large enough and no smaller than before.
\<close>

lemma grow_size_ge: "want \<le> grow_size sz want \<and> sz \<le> grow_size sz want"
  unfolding grow_size_def
  by (rule while_rule [where P = "\<lambda>n. 0 < n \<and> sz \<le> n" and r = "measure (\<lambda>n. want - n)"])
     (auto simp: kInitialSize_def kDoublingLimit_def)

lemma length_vec_resize [simp]: "length (vec_resize d n) = n"
  by (simp add: vec_resize_def)

lemma take_vec_resize: "m \<le> length d \<Longrightarrow> length d \<le> n \<Longrightarrow> take m (vec_resize d n) = take m d"
  by (simp add: vec_resize_def)

lemma buf_ok_ensure [simp]:
  assumes "buf_ok b" shows "buf_ok (ensure_writable b n)"
proof -
  have "readable b \<le> grow_size (length (bdata b)) (readable b + n)"
    using grow_size_ge [of "readable b + n" "length (bdata b)"] by linarith
  then show ?thesis
    using assms buf_ok_compact [OF assms] by (simp add: ensure_writable_def Let_def buf_ok_def [of "_\<lparr>bdata := _\<rparr>"])
qed

lemma contents_ensure [simp]:
  assumes "buf_ok b" shows "buf_contents (ensure_writable b n) = buf_contents b"
proof -
  let ?g = "grow_size (length (bdata b)) (readable b + n)"
  have "length (bdata b) \<le> ?g"
    using grow_size_ge [of "readable b + n" "length (bdata b)"] by linarith
  moreover have "readable b \<le> length (bdata b)"
    using assms by (auto simp: buffer_defs)
  ultimately have "take (readable b) (vec_resize (bdata (compact b)) ?g) = buf_contents b"
    using assms by (simp add: take_vec_resize take_compact)
  then show ?thesis
    using assms
    by (simp add: ensure_writable_def Let_def buf_contents_def [of "_\<lparr>bdata := _\<rparr>"]
        readable_def [of "_\<lparr>bdata := _\<rparr>"])
qed

lemma writable_ensure:
  assumes "buf_ok b" shows "n \<le> writable (ensure_writable b n)"
proof -
  have "readable b + n \<le> grow_size (length (bdata b)) (readable b + n)"
    using grow_size_ge [of "readable b + n" "length (bdata b)"] by linarith
  moreover have "writable (compact b) = read_pos b + writable b"
    using assms by (simp add: writable_def) (simp add: buffer_defs)
  ultimately show ?thesis
    using assms by (auto simp: ensure_writable_def Let_def) (simp add: writable_def)
qed

lemma capacity_ensure_mono:
  assumes "buf_ok b" shows "capacity b \<le> capacity (ensure_writable b n)"
  using assms grow_size_ge [of _ "length (bdata b)"]
  by (auto simp: ensure_writable_def Let_def capacity_def)

lemma contents_write_commit:
  assumes "buf_ok b" "length p \<le> writable b"
  shows "buf_contents (commit (write_at b p) (length p)) = buf_contents b @ p"
    and "buf_ok (commit (write_at b p) (length p))"
  using assms by (auto simp: buffer_defs commit_def write_at_def drop_take)

lemma buf_ok_append [simp]: "buf_ok b \<Longrightarrow> buf_ok (buf_append b p)"
  by (simp add: buf_append_def contents_write_commit writable_ensure)

lemma contents_append [simp]:
  "buf_ok b \<Longrightarrow> buf_contents (buf_append b p) = buf_contents b @ p"
  by (simp add: buf_append_def contents_write_commit writable_ensure)

lemma buf_ok_consume [simp]: "buf_ok b \<Longrightarrow> buf_ok (consume b n)"
  by (auto simp: consume_def consume_all_def buffer_defs)

lemma contents_consume [simp]:
  "buf_ok b \<Longrightarrow> buf_contents (consume b n) = drop n (buf_contents b)"
  by (auto simp: consume_def consume_all_def buffer_defs drop_take add.commute)

lemma readable_append [simp]: "buf_ok b \<Longrightarrow> readable (buf_append b p) = readable b + length p"
  by (metis buf_ok_append contents_append length_append length_contents)

lemma readable_consume: "readable (consume b n) = readable b - n"
  by (auto simp: consume_def consume_all_def readable_def)

subsection \<open>The interfaces the clients rely on\<close>

text \<open>
  The reply encoders only append; the parser and the write path only look at the readable
  bytes and consume them. Each side is an interface of its own, and the buffer is a queue
  because it provides both.
\<close>

locale byte_sink =
  fixes contents :: "'b \<Rightarrow> bytes"
    and invar :: "'b \<Rightarrow> bool"
    and append :: "'b \<Rightarrow> bytes \<Rightarrow> 'b"
  assumes sink_append: "invar b \<Longrightarrow> contents (append b p) = contents b @ p"
    and invar_append: "invar b \<Longrightarrow> invar (append b p)"
begin

lemma appends_step: "invar b \<Longrightarrow> invar (foldl append b ps)"
  by (induction ps arbitrary: b) (auto simp: invar_append)

lemma contents_appends: "invar b \<Longrightarrow> contents (foldl append b ps) = contents b @ concat ps"
  by (induction ps arbitrary: b) (auto simp: invar_append sink_append)

end

locale byte_source =
  fixes contents :: "'b \<Rightarrow> bytes"
    and invar :: "'b \<Rightarrow> bool"
    and eat :: "'b \<Rightarrow> nat \<Rightarrow> 'b"
  assumes source_eat: "invar b \<Longrightarrow> contents (eat b n) = drop n (contents b)"
    and invar_eat: "invar b \<Longrightarrow> invar (eat b n)"
begin

lemma eats_step: "invar b \<Longrightarrow> invar (foldl eat b ns)"
  by (induction ns arbitrary: b) (auto simp: invar_eat)

lemma contents_eats: "invar b \<Longrightarrow> contents (foldl eat b ns) = drop (sum_list ns) (contents b)"
  by (induction ns arbitrary: b) (auto simp: invar_eat source_eat add.commute)

end

locale byte_queue = byte_sink contents invar append + byte_source contents invar eat
  for contents :: "'b \<Rightarrow> bytes" and invar append eat +
  fixes fresh :: 'b
  assumes contents_fresh: "contents fresh = []"
    and invar_fresh: "invar fresh"
begin

text \<open>First in, first out: eating exactly what was there before leaves what was appended.\<close>

lemma fifo:
  assumes "invar b" "length (contents b) = n"
  shows "contents (eat (append b p) n) = p"
  using assms by (simp add: source_eat sink_append invar_append)

lemma fifo_fresh: "contents (eat (foldl append fresh ps) n) = drop n (concat ps)"
  by (simp add: source_eat appends_step contents_appends contents_fresh invar_fresh)

end

interpretation bq: byte_queue buf_contents buf_ok buf_append consume new_buffer
  by unfold_locales simp_all

subsection \<open>Properties\<close>

text \<open>The growth loop overshoots by less than one more step.\<close>

lemma grow_size_le:
  "grow_size sz want \<le> max (max sz kInitialSize) (want + min want kDoublingLimit)"
  unfolding grow_size_def
  by (rule while_rule [where P = "\<lambda>n. 0 < n \<and> n \<le> max (max sz kInitialSize) (want + min want kDoublingLimit)"
        and r = "measure (\<lambda>n. want - n)"])
     (auto simp: kInitialSize_def kDoublingLimit_def)

datatype buf_op = Append bytes | Consume nat | Receive nat bytes | Clear

text \<open>The calls a client may make. \<open>Receive\<close> is the reservation, write and commit of a socket read.\<close>

fun run_buf_op :: "buffer \<Rightarrow> buf_op \<Rightarrow> buffer" where
  "run_buf_op b (Append p) = buf_append b p"
| "run_buf_op b (Consume n) = consume b n"
| "run_buf_op b (Receive n p) = commit (write_at (ensure_writable b n) (take n p)) (length (take n p))"
| "run_buf_op b Clear = consume_all b"

fun queue_op :: "bytes \<Rightarrow> buf_op \<Rightarrow> bytes" where
  "queue_op q (Append p) = q @ p"
| "queue_op q (Consume n) = drop n q"
| "queue_op q (Receive n p) = q @ take n p"
| "queue_op q Clear = []"

lemma run_buf_op_queue:
  assumes "buf_ok b"
  shows "buf_ok (run_buf_op b x) \<and> buf_contents (run_buf_op b x) = queue_op (buf_contents b) x"
proof (cases x)
  case (Receive n p)
  have "length (take n p) \<le> writable (ensure_writable b n)" using writable_ensure [OF assms, of n] by simp
  then show ?thesis using Receive assms contents_write_commit [of "ensure_writable b n" "take n p"] by simp
next
  case Clear
  then show ?thesis by (simp add: consume_all_def buffer_defs)
qed (use assms in simp_all)

text \<open>
  C21: the buffer is a byte queue. Over any sequence of appends, socket reads, consumes and resets,
  whatever compaction and growth happen on the way, the class invariant holds and the readable
  bytes are those of the abstract queue.
\<close>

theorem buffer_is_queue:
  "buf_ok (foldl run_buf_op new_buffer ops) \<and>
   buf_contents (foldl run_buf_op new_buffer ops) = foldl queue_op [] ops"
proof (induction ops rule: rev_induct)
  case (snoc x ops)
  then show ?case using run_buf_op_queue [of "foldl run_buf_op new_buffer ops" x] by simp
qed simp

text \<open>
  \<open>ensure_writable\<close> makes the room it was asked for, loses no readable byte, never shrinks the
  vector, and grows it by no more than one doubling or one 16 MiB step beyond the bytes needed.
\<close>

theorem ensure_writable_room:
  assumes "buf_ok b" "b' = ensure_writable b n"
  shows "n \<le> writable b' \<and> buf_contents b' = buf_contents b \<and> capacity b \<le> capacity b' \<and>
    capacity b' \<le> max (max (capacity b) kInitialSize)
      (readable b + n + min (readable b + n) kDoublingLimit)"
proof -
  have "capacity b' \<le> max (max (capacity b) kInitialSize)
      (readable b + n + min (readable b + n) kDoublingLimit)"
    using assms grow_size_le [of "length (bdata b)" "readable b + n"]
    by (auto simp: ensure_writable_def Let_def capacity_def)
  then show ?thesis using assms by (simp add: writable_ensure capacity_ensure_mono)
qed

theorem ensure_writable_room_witness:
  "5 \<le> writable (ensure_writable (buf_append new_buffer ''abc'') 5)"
  using ensure_writable_room [OF buf_ok_append [OF buf_ok_new] refl, of 5 "''abc''"] by blast

end
