(* ===== verification/Integers.thy ===== *)
theory Integers
  imports Prelude
begin

unbundle bit_operations_syntax

text \<open>
  Decimal integers on the wire: the strict parser \<^verbatim>\<open>string_to_int64\<close> of
  \<^verbatim>\<open>src/resp/parser.cpp\<close>, which works in \<^verbatim>\<open>uint64_t\<close> and checks every multiplication, the
  hand-rolled formatter \<^verbatim>\<open>format_int\<close> of \<^verbatim>\<open>src/resp/writer.cpp\<close>, which negates in unsigned
  arithmetic, and \<^verbatim>\<open>std::to_string\<close>, which INCR uses for the stored value. Both hand-written
  routines are compared with reference definitions over unbounded integers.
\<close>

subsection \<open>string_to_int64\<close>

fun s2i_loop :: "u64 \<Rightarrow> bytes \<Rightarrow> u64 option" where
  "s2i_loop v [] = Some v"
| "s2i_loop v (c # cs) =
     (if byte_val c < 48 \<or> byte_val c > 57 then None
      else let d = word_of_nat (byte_val c - 48)
           in if v > (UINT64_MAX - d) div 10 then None
              else s2i_loop (v * 10 + d) cs)"

definition string_to_int64 :: "bytes \<Rightarrow> int option" where
  "string_to_int64 p =
     (let n = length p in
      if n = 0 \<or> n > 20 then None
      else let negative = (p ! 0 = CHR ''-'') in
      if negative \<and> n = 1 then None
      else case s2i_loop 0 (if negative then drop 1 p else p) of
        None \<Rightarrow> None
      | Some v \<Rightarrow>
          let limit = (if negative then word_of_int INT64_MAX + 1 else word_of_int INT64_MAX) in
          if v > limit then None
          else if negative
          then Some (if v = word_of_int INT64_MAX + 1 then INT64_MIN else - sint v)
          else Some (sint v))"

subsection \<open>format_int\<close>

text \<open>
  The loop that fills \<^verbatim>\<open>tmp\<close> with the digits of \<open>v\<close>, least significant first. It stops
  because \<open>v\<close> is divided by ten while it is positive.
\<close>

function fmt_loop :: "u64 \<Rightarrow> bytes" where
  "fmt_loop v = (if v > 0 then digit (unat (v mod 10)) # fmt_loop (v div 10) else [])"
  by pat_completeness auto
termination
proof (relation "measure unat")
  fix v :: u64
  assume "0 < v"
  then have "0 < unat v" by (simp add: unat_gt_0 word_greater_zero_iff)
  then have "unat v div 10 < unat v" by simp
  then show "(v div 10, v) \<in> measure unat" by (simp add: unat_div)
qed simp

declare fmt_loop.simps [simp del]

definition format_int :: "int \<Rightarrow> bytes" where
  "format_int n =
     (if n = 0 then [CHR ''0'']
      else let negative = n < 0;
               v = (if negative then NOT (word_of_int n) + 1 else word_of_int n) :: u64
           in (if negative then [CHR ''-''] else []) @ rev (fmt_loop v))"

subsection \<open>Reference: decimal notation over unbounded integers\<close>

text \<open>The value of a digit string, \<open>None\<close> if it holds any other byte.\<close>

fun dec_value :: "nat \<Rightarrow> bytes \<Rightarrow> nat option" where
  "dec_value v [] = Some v"
| "dec_value v (c # cs) = (if is_digit c then dec_value (v * 10 + (byte_val c - 48)) cs else None)"

text \<open>An optional minus sign and at least one digit.\<close>

definition decimal :: "bytes \<Rightarrow> int option" where
  "decimal s =
     (case s of
        [] \<Rightarrow> None
      | c # cs \<Rightarrow>
          if c = CHR ''-'' then (if cs = [] then None else map_option (\<lambda>v. - int v) (dec_value 0 cs))
          else map_option int (dec_value 0 (c # cs)))"

text \<open>\<^verbatim>\<open>std::to_string\<close>: the digits without leading zeros, after a minus sign if negative.\<close>

fun dec_digits :: "nat \<Rightarrow> bytes" where
  "dec_digits n = (if n < 10 then [digit n] else dec_digits (n div 10) @ [digit (n mod 10)])"

declare dec_digits.simps [simp del]

definition std_to_string :: "int \<Rightarrow> bytes" where
  "std_to_string n = (if n < 0 then CHR ''-'' # dec_digits (nat (- n)) else dec_digits (nat n))"

subsection \<open>string_to_int64 computes the decimal value\<close>

lemma dec_value_mono: "dec_value v cs = Some w \<Longrightarrow> v \<le> w"
proof (induction v cs rule: dec_value.induct)
  case (2 v c cs)
  then have "v * 10 + (byte_val c - 48) \<le> w" by (simp split: if_splits)
  then show ?case by linarith
qed simp

text \<open>The guard \<^verbatim>\<open>v > (UINT64_MAX - d) / 10\<close> is exact: it fails precisely on overflow.\<close>

lemma guard_exact:
  fixes v :: u64
  assumes "d < 10"
  shows "v > (UINT64_MAX - word_of_nat d) div 10 \<longleftrightarrow> unat v * 10 + d \<ge> 2 ^ 64"
proof -
  have d: "unat (word_of_nat d :: u64) = d"
    using assms by (simp add: unat_of_nat take_bit_eq_mod)
  then have "unat (UINT64_MAX - word_of_nat d) = 18446744073709551615 - d"
    using assms by (simp add: unat_sub word_le_nat_alt)
  then have "v > (UINT64_MAX - word_of_nat d) div 10 \<longleftrightarrow> (18446744073709551615 - d) div 10 < unat v"
    by (simp add: word_less_nat_alt unat_div)
  also have "\<dots> \<longleftrightarrow> unat v * 10 + d \<ge> 2 ^ 64"
    using assms by (auto simp: div_less_iff_less_mult)
  finally show ?thesis .
qed

lemma unat_mul10_add:
  fixes v :: u64
  assumes "d < 10" "unat v * 10 + d < 2 ^ 64"
  shows "unat (v * 10 + word_of_nat d) = unat v * 10 + d"
proof -
  have "v * 10 + word_of_nat d = word_of_nat (unat v * 10 + d)"
    by simp
  then show ?thesis using assms(2) by (simp only: unat_of_nat take_bit_eq_mod) simp
qed

lemma is_digit_iff: "is_digit c \<longleftrightarrow> \<not> (byte_val c < 48 \<or> byte_val c > 57)"
  by (auto simp: is_digit_def)

lemma s2i_loop_dec_value:
  "s2i_loop v cs =
     (case dec_value (unat v) cs of
        None \<Rightarrow> None
      | Some w \<Rightarrow> if w < 2 ^ 64 then Some (word_of_nat w) else None)"
proof (induction v cs rule: s2i_loop.induct)
  case (1 v)
  have "unat v < 2 ^ 64" using unsigned_less [of v] by simp
  then show ?case by simp
next
  case (2 v c cs)
  show ?case
  proof (cases "is_digit c")
    case False
    then show ?thesis by (simp add: is_digit_iff)
  next
    case True
    then have d: "byte_val c - 48 < 10" by (auto simp: is_digit_def)
    show ?thesis
    proof (cases "unat v * 10 + (byte_val c - 48) < 2 ^ 64")
      case False
      then show ?thesis
        using True guard_exact [OF d, of v]
        by (auto simp: is_digit_iff split: option.splits dest!: dec_value_mono)
    next
      case small: True
      then show ?thesis
        using True guard_exact [OF d, of v] 2 unat_mul10_add [OF d small]
        by (auto simp: is_digit_iff Let_def)
    qed
  qed
qed

text \<open>
  An unsigned magnitude that passes the limit check converts to the signed value without
  loss; the most negative value is the one the source treats apart.
\<close>

lemma sint_of_nat_small:
  assumes "w < 2 ^ 63"
  shows "sint (word_of_nat w :: u64) = int w"
proof -
  have "signed_take_bit 63 (int w) = int w"
    using assms by (simp add: signed_take_bit_int_eq_self)
  then show ?thesis by (simp add: signed_of_nat)
qed

lemma word_of_nat_le_iff:
  assumes "w < 2 ^ 64" "m < 2 ^ 64"
  shows "(word_of_nat w :: u64) > word_of_nat m \<longleftrightarrow> w > m"
  using assms by (simp add: word_less_nat_alt unat_of_nat take_bit_eq_mod)

lemma word_of_nat_eq_iff_small:
  assumes "w < 2 ^ 64" "m < 2 ^ 64"
  shows "(word_of_nat w :: u64) = word_of_nat m \<longleftrightarrow> w = m"
  using assms word_of_nat_le_iff [of w m] word_of_nat_le_iff [of m w]
  by (metis nat_neq_iff order_less_irrefl)

definition int64_magnitude_ok :: "bool \<Rightarrow> nat \<Rightarrow> bool" where
  "int64_magnitude_ok neg w \<longleftrightarrow> (if neg then w \<le> 9223372036854775808 else w \<le> 9223372036854775807)"

lemma string_to_int64_body:
  "string_to_int64 p =
     (if p = [] \<or> length p > 20 then None
      else if hd p = CHR ''-'' \<and> length p = 1 then None
      else case dec_value 0 (if hd p = CHR ''-'' then tl p else p) of
        None \<Rightarrow> None
      | Some w \<Rightarrow> if int64_magnitude_ok (hd p = CHR ''-'') w
                  then Some (if hd p = CHR ''-'' then - int w else int w) else None)"
proof (cases "p = [] \<or> length p > 20 \<or> (hd p = CHR ''-'' \<and> length p = 1)")
  case True
  then show ?thesis by (auto simp: string_to_int64_def Let_def hd_conv_nth)
next
  case False
  let ?neg = "hd p = CHR ''-''"
  let ?v = "dec_value 0 (if ?neg then tl p else p)"
  have p0: "p ! 0 = hd p" "drop 1 p = tl p"
    using False by (auto simp: hd_conv_nth drop_Suc)
  show ?thesis
  proof (cases ?v)
    case None
    then show ?thesis
      using False p0 by (auto simp: string_to_int64_def Let_def s2i_loop_dec_value)
  next
    case (Some w)
    have max: "word_of_int INT64_MAX = (word_of_nat 9223372036854775807 :: u64)"
      and max1: "word_of_int INT64_MAX + 1 = (word_of_nat 9223372036854775808 :: u64)"
      by simp_all
    show ?thesis
    proof (cases "w < 2 ^ 64")
      case False
      then show ?thesis
        using Some \<open>\<not> (p = [] \<or> _)\<close> p0
        by (auto simp: string_to_int64_def Let_def s2i_loop_dec_value int64_magnitude_ok_def)
    next
      case True
      have gt: "(word_of_nat w :: u64) > word_of_nat m \<longleftrightarrow> w > m"
        and eq: "(word_of_nat w :: u64) = word_of_nat m \<longleftrightarrow> w = m" if "m < 2 ^ 64" for m
        using word_of_nat_le_iff [OF True that] word_of_nat_eq_iff_small [OF True that] by auto
      have "s2i_loop 0 (if ?neg then tl p else p) = Some (word_of_nat w)"
        using Some True by (simp add: s2i_loop_dec_value)
      moreover have "w < 9223372036854775808 \<Longrightarrow> sint (word_of_nat w :: u64) = int w"
        by (rule sint_of_nat_small) simp
      ultimately show ?thesis
        using \<open>\<not> (p = [] \<or> _)\<close> p0 Some
        unfolding string_to_int64_def Let_def max1 unfolding max int64_magnitude_ok_def
        by (auto simp: gt eq simp del: of_nat_numeral)
    qed
  qed
qed

lemma dec_value_append:
  "dec_value v (xs @ ys) = (case dec_value v xs of None \<Rightarrow> None | Some w \<Rightarrow> dec_value w ys)"
  by (induction v xs rule: dec_value.induct) auto

lemma dec_value_Some_digits: "dec_value v cs = Some w \<Longrightarrow> \<forall>c \<in> set cs. is_digit c"
  by (induction v cs rule: dec_value.induct) (auto split: if_splits)

text \<open>The strict parser accepts exactly the decimal numerals of at most 20 bytes in range.\<close>

lemma string_to_int64_exact:
  "string_to_int64 p = Some n \<longleftrightarrow> length p \<le> 20 \<and> decimal p = Some n \<and> in_int64 n"
proof (cases p)
  case Nil
  then show ?thesis by (simp add: string_to_int64_body decimal_def)
next
  case (Cons c cs)
  then show ?thesis
    unfolding string_to_int64_body decimal_def
    by (cases "c = CHR ''-''"; cases "dec_value 0 (if c = CHR ''-'' then cs else c # cs)")
       (auto simp: int64_magnitude_ok_def in_int64_def split: if_splits)
qed

subsection \<open>format_int prints the decimal value\<close>

lemma dec_digits_value: "dec_value v (dec_digits n) = Some (v * 10 ^ length (dec_digits n) + n)"
proof (induction n arbitrary: v rule: dec_digits.induct)
  case (1 n)
  show ?case
  proof (cases "n < 10")
    case True
    then show ?thesis by (simp add: dec_digits.simps [of n])
  next
    case False
    have "(v * 10 ^ length (dec_digits (n div 10)) + n div 10) * 10 + n mod 10 =
        v * (10 * 10 ^ length (dec_digits (n div 10))) + n"
      by (simp add: algebra_simps)
    with False 1 [of v] show ?thesis
      by (simp add: dec_digits.simps [of n] dec_value_append)
  qed
qed

lemma dec_digits_nonempty [simp]: "dec_digits n \<noteq> []"
  by (subst dec_digits.simps) simp

lemma dec_digits_is_digit: "c \<in> set (dec_digits n) \<Longrightarrow> is_digit c"
  using dec_value_Some_digits [OF dec_digits_value] by blast

lemma length_dec_digits: "0 < k \<Longrightarrow> n < 10 ^ k \<Longrightarrow> length (dec_digits n) \<le> k"
proof (induction k arbitrary: n)
  case (Suc k)
  show ?case
  proof (cases "n < 10")
    case True
    then show ?thesis by (simp add: dec_digits.simps [of n])
  next
    case False
    with Suc.prems have "0 < k" by (cases k) auto
    moreover have "n div 10 < 10 ^ k" using Suc.prems by (simp add: less_mult_imp_div_less)
    ultimately show ?thesis using Suc.IH [of "n div 10"] False by (simp add: dec_digits.simps [of n])
  qed
qed simp

lemma fmt_loop_dec_digits: "v > 0 \<Longrightarrow> rev (fmt_loop v) = dec_digits (unat v)"
proof (induction v rule: fmt_loop.induct)
  case (1 v)
  have m: "unat (v mod 10) = unat v mod 10" "unat (v div 10) = unat v div 10"
    by (simp_all add: unat_mod unat_div)
  have step: "fmt_loop v = digit (unat v mod 10) # fmt_loop (v div 10)"
    using "1.prems" by (simp add: fmt_loop.simps [of v] m)
  show ?case
  proof (cases "unat v < 10")
    case True
    then have "v div 10 = 0" by (metis m(2) div_less unat_eq_zero)
    then have "fmt_loop (v div 10) = []" by (simp add: fmt_loop.simps)
    with step True show ?thesis by (simp add: dec_digits.simps [of "unat v"])
  next
    case False
    then have "0 < v div 10"
      by (simp add: word_less_nat_alt m)
    with 1 step False show ?thesis by (simp add: dec_digits.simps [of "unat v"] m)
  qed
qed

lemma unat_word_of_int_small: "0 \<le> m \<Longrightarrow> m < 2 ^ 64 \<Longrightarrow> unat (word_of_int m :: u64) = nat m"
  by (simp add: unsigned_of_int take_bit_eq_mod)

text \<open>Negation in unsigned arithmetic yields the magnitude, also for the smallest value.\<close>

lemma unat_negate:
  assumes "n < 0" "in_int64 n"
  shows "unat (NOT (word_of_int n) + 1 :: u64) = nat (- n)"
proof -
  have "NOT (word_of_int n) + 1 = (word_of_int (- n) :: u64)"
    by (simp only: minus_eq_not_plus_1 [symmetric] of_int_minus)
  moreover have "0 \<le> - n" "- n < 2 ^ 64" using assms by (auto simp: in_int64_def)
  ultimately show ?thesis using unat_word_of_int_small [of "- n"] by metis
qed

lemma unat_positive: "0 \<le> n \<Longrightarrow> in_int64 n \<Longrightarrow> unat (word_of_int n :: u64) = nat n"
  by (rule unat_word_of_int_small) (auto simp: in_int64_def)

lemma format_int_to_string: "in_int64 n \<Longrightarrow> format_int n = std_to_string n"
proof (cases "n = 0")
  case True
  have "digit 0 = CHR ''0''" by (rule byte_val_inject [THEN iffD1]) (simp, simp add: byte_val_def)
  with True show ?thesis by (simp add: format_int_def std_to_string_def dec_digits.simps)
next
  case False
  assume n: "in_int64 n"
  let ?v = "(if n < 0 then NOT (word_of_int n) + 1 else word_of_int n) :: u64"
  have v: "unat ?v = (if n < 0 then nat (- n) else nat n)"
    using n unat_negate [of n] unat_positive [of n] by auto
  then have "0 < ?v" using False by (auto simp: word_less_nat_alt)
  then have "rev (fmt_loop ?v) = dec_digits (unat ?v)" by (rule fmt_loop_dec_digits)
  with v False show ?thesis by (auto simp: format_int_def std_to_string_def Let_def)
qed

lemma length_std_to_string:
  assumes "in_int64 n" shows "length (std_to_string n) \<le> 20"
proof -
  have "nat (- n) < 10 ^ 19" "nat n < 10 ^ 19" using assms by (auto simp: in_int64_def)
  then have "length (dec_digits (nat (- n))) \<le> 19" "length (dec_digits (nat n)) \<le> 19"
    by (auto intro: length_dec_digits)
  then show ?thesis by (simp add: std_to_string_def)
qed

lemma decimal_std_to_string: "decimal (std_to_string n) = Some n"
proof (cases "n < 0")
  case True
  then show ?thesis by (simp add: decimal_def std_to_string_def dec_digits_value)
next
  case False
  obtain c cs where d: "dec_digits (nat n) = c # cs"
    by (cases "dec_digits (nat n)") auto
  then have "c \<noteq> CHR ''-''"
    using dec_digits_is_digit [of c "nat n"] digit_neq_special(3) by auto
  with False d dec_digits_value [of 0 "nat n"] show ?thesis
    by (simp add: decimal_def std_to_string_def)
qed

lemma string_to_int64_std_to_string [simp]:
  "in_int64 n \<Longrightarrow> string_to_int64 (std_to_string n) = Some n"
  by (simp add: string_to_int64_exact decimal_std_to_string length_std_to_string)

lemma std_to_string_no_crlf: "CR \<notin> set (std_to_string n)" "LF \<notin> set (std_to_string n)"
  using dec_digits_is_digit digit_neq_special by (auto simp: std_to_string_def)

subsection \<open>Properties\<close>

text \<open>
  C16: \<open>string_to_int64\<close>, whose arithmetic is that of \<^verbatim>\<open>uint64_t\<close> with an overflow test before each
  step, accepts exactly the decimal numerals of at most 20 bytes whose value is in the range of
  \<^verbatim>\<open>int64_t\<close>, and returns that value.
\<close>

theorem string_to_int64_correct:
  "string_to_int64 p = (if length p \<le> 20 \<and> (\<exists>n. decimal p = Some n \<and> in_int64 n) then decimal p else None)"
  using string_to_int64_exact [of p] by (cases "string_to_int64 p") auto

text \<open>
  Printing and parsing an integer are inverse on the whole range of \<^verbatim>\<open>int64_t\<close>, including the
  smallest value, whose magnitude does not fit; the text fits the 24 byte buffer of
  \<open>append_int_crlf\<close> with its CRLF, and it is what \<^verbatim>\<open>std::to_string\<close> prints.
\<close>

theorem format_int_round_trip:
  assumes "in_int64 n"
  shows "string_to_int64 (format_int n) = Some n \<and> length (format_int n) + 2 \<le> 24 \<and>
    format_int n = std_to_string n"
  using assms length_std_to_string [OF assms] by (simp add: format_int_to_string string_to_int64_std_to_string)

theorem format_int_round_trip_witness:
  "string_to_int64 (format_int (- 9223372036854775808)) = Some (- 9223372036854775808)"
  using format_int_round_trip [of "- 9223372036854775808"] by (simp add: in_int64_def)

end
