(* ===== verification/Inline.thy ===== *)
theory Inline
  imports Prelude
begin

unbundle bit_operations_syntax

text \<open>
  The inline-command splitter \<^verbatim>\<open>split_inline\<close> of \<^verbatim>\<open>src/resp/parser.cpp\<close> with its character
  classes. The source walks an index \<open>i\<close> over the \<open>n\<close> bytes of the line; the model walks the
  bytes that are left, so \<^verbatim>\<open>p[i + k]\<close> is \<open>r ! k\<close> and \<^verbatim>\<open>i + k < n\<close> is \<open>k < length r\<close>.
\<close>

subsection \<open>Character classes\<close>

definition is_hex :: "byte \<Rightarrow> bool" where
  "is_hex c \<longleftrightarrow> (48 \<le> byte_val c \<and> byte_val c \<le> 57) \<or> (97 \<le> byte_val c \<and> byte_val c \<le> 102) \<or>
     (65 \<le> byte_val c \<and> byte_val c \<le> 70)"

definition hex_val :: "byte \<Rightarrow> nat" where
  "hex_val c =
     (if 48 \<le> byte_val c \<and> byte_val c \<le> 57 then byte_val c - 48
      else if 97 \<le> byte_val c \<and> byte_val c \<le> 102 then byte_val c - 97 + 10
      else byte_val c - 65 + 10)"

text \<open>\<^verbatim>\<open>std::isspace\<close> in the C locale: space, and the five controls from HT to CR.\<close>

definition is_space :: "byte \<Rightarrow> bool" where
  "is_space c \<longleftrightarrow> byte_val c = 32 \<or> (9 \<le> byte_val c \<and> byte_val c \<le> 13)"

text \<open>The \<^verbatim>\<open>switch\<close> on the byte after a backslash.\<close>

definition unescape :: "byte \<Rightarrow> byte" where
  "unescape c =
     (if c = CHR ''n'' then LF
      else if c = CHR ''r'' then CR
      else if c = CHR ''t'' then CHR 0x09
      else if c = CHR ''b'' then CHR 0x08
      else if c = CHR ''a'' then CHR 0x07
      else c)"

subsection \<open>Splitting a line\<close>

text \<open>
  The flags \<^verbatim>\<open>in_double\<close> and \<^verbatim>\<open>in_single\<close> are never both set: three modes. The inner loop
  returns the word and the bytes after it; \<open>None\<close> is the \<^verbatim>\<open>return false\<close> of a bad quote.
\<close>

datatype quote_mode = Unquoted | InDouble | InSingle

fun inline_word :: "quote_mode \<Rightarrow> bytes \<Rightarrow> bytes \<Rightarrow> (bytes \<times> bytes) option" where
  "inline_word InDouble cur r =
     (if r = [] then None
      else if r ! 0 = BACKSLASH \<and> 3 < length r \<and> r ! 1 = CHR ''x'' \<and> is_hex (r ! 2) \<and> is_hex (r ! 3)
      then inline_word InDouble
             (cur @ [char_of (push_bit 4 (hex_val (r ! 2)) OR hex_val (r ! 3))]) (drop 4 r)
      else if r ! 0 = BACKSLASH \<and> 1 < length r
      then inline_word InDouble (cur @ [unescape (r ! 1)]) (drop 2 r)
      else if r ! 0 = DQUOTE
      then (if 1 < length r \<and> \<not> is_space (r ! 1) then None else Some (cur, drop 1 r))
      else inline_word InDouble (cur @ [r ! 0]) (drop 1 r))"
| "inline_word InSingle cur r =
     (if r = [] then None
      else if r ! 0 = BACKSLASH \<and> 1 < length r \<and> r ! 1 = SQUOTE
      then inline_word InSingle (cur @ [SQUOTE]) (drop 2 r)
      else if r ! 0 = SQUOTE
      then (if 1 < length r \<and> \<not> is_space (r ! 1) then None else Some (cur, drop 1 r))
      else inline_word InSingle (cur @ [r ! 0]) (drop 1 r))"
| "inline_word Unquoted cur r =
     (if r = [] then Some (cur, [])
      else if is_space (r ! 0) then Some (cur, drop 1 r)
      else if r ! 0 = DQUOTE then inline_word InDouble cur (drop 1 r)
      else if r ! 0 = SQUOTE then inline_word InSingle cur (drop 1 r)
      else inline_word Unquoted (cur @ [r ! 0]) (drop 1 r))"

declare inline_word.simps [simp del]

lemma inline_word_shrinks: "inline_word m cur r = Some (w, r') \<Longrightarrow> length r' \<le> length r - 1"
proof (induction m cur r rule: inline_word.induct)
  case (1 cur r)
  then show ?case
    by (auto simp: inline_word.simps(1) [of cur r] split: if_splits)
next
  case (2 cur r)
  then show ?case
    by (auto simp: inline_word.simps(2) [of cur r] split: if_splits)
next
  case (3 cur r)
  then show ?case
    by (auto simp: inline_word.simps(3) [of cur r] split: if_splits)
qed

text \<open>The outer loop: skip blanks, stop at the end of the line, otherwise take one word.\<close>

function split_loop :: "bytes list \<Rightarrow> bytes \<Rightarrow> bytes list option" where
  "split_loop out p =
     (let r = dropWhile is_space p in
      if r = [] then Some out
      else case inline_word Unquoted [] r of
        None \<Rightarrow> None
      | Some (cur, r') \<Rightarrow> split_loop (out @ [cur]) r')"
  by pat_completeness auto
termination
proof (relation "measure (\<lambda>(out, p). length p)")
  fix out :: "bytes list" and p r :: bytes and x :: "bytes \<times> bytes" and cur r' :: bytes
  assume r: "r = dropWhile is_space p" "r \<noteq> []"
    and w: "inline_word Unquoted [] r = Some x" "(cur, r') = x"
  from w have "length r' \<le> length r - 1" by (auto dest: inline_word_shrinks)
  moreover have "length r \<le> length p" using r(1) by (simp add: length_dropWhile_le)
  moreover have "0 < length r" using r(2) by simp
  ultimately have "length r' < length p" by linarith
  then show "((out @ [cur], r'), out, p) \<in> measure (\<lambda>(out, p). length p)" by simp
qed simp

declare split_loop.simps [simp del]

definition split_inline :: "bytes \<Rightarrow> bytes list option" where
  "split_inline p = split_loop [] p"

subsection \<open>What the splitter computes\<close>

text \<open>
  Quoting any byte string with \<^verbatim>\<open>\xHH\<close> escapes, as \<^verbatim>\<open>redis-cli\<close> prints binary data. The splitter
  is its inverse.
\<close>

definition hex_digit :: "nat \<Rightarrow> byte" where
  "hex_digit n = (if n < 10 then char_of (48 + n) else char_of (87 + n))"

definition hex_escape :: "byte \<Rightarrow> bytes" where
  "hex_escape c =
     [BACKSLASH, CHR ''x'', hex_digit (byte_val c div 16), hex_digit (byte_val c mod 16)]"

definition quote_arg :: "bytes \<Rightarrow> bytes" where
  "quote_arg a = DQUOTE # concat (map hex_escape a) @ [DQUOTE]"

definition inline_line :: "bytes list \<Rightarrow> bytes" where
  "inline_line args = concat (map (\<lambda>a. quote_arg a @ '' '') args)"

lemma is_hex_hex_digit: "n < 16 \<Longrightarrow> is_hex (hex_digit n)"
  by (auto simp: is_hex_def hex_digit_def)

lemma hex_val_hex_digit: "n < 16 \<Longrightarrow> hex_val (hex_digit n) = n"
  by (auto simp: hex_val_def hex_digit_def)

lemma hex_pair: "h < 16 \<Longrightarrow> l < 16 \<Longrightarrow> push_bit 4 h OR l = 16 * h + (l::nat)"
proof -
  assume hl: "h < 16" "l < 16"
  have "push_bit 4 h AND l = 0"
  proof (rule bit_eqI)
    fix n
    show "bit (push_bit 4 h AND l) n \<longleftrightarrow> bit (0::nat) n"
    proof (cases "n < 4")
      case True
      then show ?thesis by (simp add: bit_and_iff bit_push_bit_iff)
    next
      case False
      have "l < 2 ^ 4" using hl by simp
      then have "\<not> bit l n"
        using False by (metis bit_take_bit_iff take_bit_nat_eq_self)
      then show ?thesis by (simp add: bit_and_iff)
    qed
  qed
  then have "push_bit 4 h OR l = push_bit 4 h + l"
    by (simp add: disjunctive_add_eq_or)
  then show ?thesis by (simp add: push_bit_eq_mult)
qed

lemma hex_escape_byte:
  "char_of (push_bit 4 (hex_val (hex_digit (byte_val c div 16)))
     OR hex_val (hex_digit (byte_val c mod 16))) = c"
proof -
  have "byte_val c div 16 < 16" "byte_val c mod 16 < 16"
    using byte_val_bound [of c] by (auto simp: less_mult_imp_div_less)
  then show ?thesis by (simp add: hex_val_hex_digit hex_pair)
qed

lemma inline_word_hex_step:
  assumes "is_hex h" "is_hex l"
  shows "inline_word InDouble cur (BACKSLASH # CHR ''x'' # h # l # r) =
     inline_word InDouble (cur @ [char_of (push_bit 4 (hex_val h) OR hex_val l)]) r"
  using assms by (subst inline_word.simps(1)) (simp add: numeral_2_eq_2 numeral_3_eq_3)

lemma inline_word_hex:
  "inline_word InDouble cur (hex_escape c @ r) = inline_word InDouble (cur @ [c]) r"
proof -
  have "byte_val c div 16 < 16" "byte_val c mod 16 < 16"
    using byte_val_bound [of c] by (auto simp: less_mult_imp_div_less)
  then have "is_hex (hex_digit (byte_val c div 16))" "is_hex (hex_digit (byte_val c mod 16))"
    by (simp_all add: is_hex_hex_digit)
  then show ?thesis
    by (simp add: hex_escape_def inline_word_hex_step hex_escape_byte)
qed

lemma inline_word_close:
  "r = [] \<or> is_space (hd r) \<Longrightarrow> inline_word InDouble cur (DQUOTE # r) = Some (cur, r)"
  by (subst inline_word.simps(1), cases r) auto

lemma inline_word_quoted_body:
  assumes "r = [] \<or> is_space (hd r)"
  shows "inline_word InDouble cur (concat (map hex_escape a) @ DQUOTE # r) = Some (cur @ a, r)"
  by (induction a arbitrary: cur) (simp_all add: inline_word_close assms inline_word_hex)

lemma not_space_DQUOTE [simp]: "\<not> is_space DQUOTE"
  by (simp add: is_space_def byte_val_def)

lemma inline_word_open: "inline_word Unquoted cur (DQUOTE # r) = inline_word InDouble cur r"
  by (subst inline_word.simps(3)) simp

lemma inline_word_quote_arg:
  assumes "r = [] \<or> is_space (hd r)"
  shows "inline_word Unquoted [] (quote_arg a @ r) = Some (a, r)"
  using inline_word_quoted_body [OF assms, of "[]" a]
  by (simp add: quote_arg_def inline_word_open)

lemma is_space_blank [simp]: "is_space (CHR '' '')"
  by (simp add: is_space_def byte_val_def)

lemma dropWhile_quote_arg [simp]: "dropWhile is_space (quote_arg a @ r) = quote_arg a @ r"
  by (simp add: quote_arg_def)

lemma split_loop_blank: "split_loop out (CHR '' '' # r) = split_loop out r"
  by (simp add: split_loop.simps [of out "CHR '' '' # r"] split_loop.simps [of out r])

lemma split_loop_inline_line: "split_loop out (inline_line args) = Some (out @ args)"
proof (induction args arbitrary: out)
  case Nil
  then show ?case by (simp add: inline_line_def split_loop.simps)
next
  case (Cons a args)
  let ?r = "CHR '' '' # inline_line args"
  have line: "inline_line (a # args) = quote_arg a @ ?r" by (simp add: inline_line_def)
  have "inline_word Unquoted [] (quote_arg a @ ?r) = Some (a, ?r)"
    by (rule inline_word_quote_arg) simp
  moreover have "quote_arg a @ ?r \<noteq> []" by (simp add: quote_arg_def)
  ultimately have "split_loop out (inline_line (a # args)) = split_loop (out @ [a]) ?r"
    unfolding line by (simp add: split_loop.simps [of out "quote_arg a @ ?r"])
  also have "\<dots> = Some (out @ a # args)" using Cons.IH by (simp add: split_loop_blank)
  finally show ?case .
qed

text \<open>Splitting invents nothing: the words together are no longer than the line.\<close>

lemma inline_word_length:
  "inline_word m cur r = Some (w, r') \<Longrightarrow> length w + length r' \<le> length cur + length r"
proof (induction m cur r rule: inline_word.induct)
  case (1 cur r)
  then show ?case by (cases "length r") (auto simp: inline_word.simps(1) [of cur r] split: if_splits)
next
  case (2 cur r)
  then show ?case by (cases "length r") (auto simp: inline_word.simps(2) [of cur r] split: if_splits)
next
  case (3 cur r)
  then show ?case by (cases "length r") (auto simp: inline_word.simps(3) [of cur r] split: if_splits)
qed

lemma split_loop_bounds:
  "split_loop out p = Some ws \<Longrightarrow>
     length ws \<le> length out + length p \<and> length (concat ws) \<le> length (concat out) + length p"
proof (induction out p rule: split_loop.induct)
  case (1 out p)
  let ?r = "dropWhile is_space p"
  have r: "length ?r \<le> length p" by (rule length_dropWhile_le)
  show ?case
  proof (cases "?r = []")
    case True
    then show ?thesis using "1.prems" by (simp add: split_loop.simps [of out p])
  next
    case False
    with "1.prems" obtain w r' where w: "inline_word Unquoted [] ?r = Some (w, r')"
      and rest: "split_loop (out @ [w]) r' = Some ws"
      unfolding split_loop.simps [of out p] Let_def if_not_P [OF False] by (auto split: option.splits)
    have "length r' \<le> length ?r - 1" "length w + length r' \<le> length ?r"
      using inline_word_shrinks [OF w] inline_word_length [OF w] by simp_all
    moreover have "0 < length ?r" using False by blast
    ultimately have "length r' < length p" "length w + length r' \<le> length p" using r by linarith+
    moreover have "length ws \<le> length (out @ [w]) + length r' \<and>
        length (concat ws) \<le> length (concat (out @ [w])) + length r'"
      using "1.IH" [OF refl False w refl rest] .
    ultimately show ?thesis using r by auto
  qed
qed

lemma length_in_concat: "w \<in> set ws \<Longrightarrow> length w \<le> length (concat ws)"
  by (induction ws) auto

lemma split_inline_bounds:
  assumes "split_inline p = Some ws"
  shows "length ws \<le> length p" and "w \<in> set ws \<Longrightarrow> length w \<le> length p"
  using split_loop_bounds [of "[]" p ws] assms length_in_concat [of w ws]
  by (auto simp: split_inline_def)


end
