(* ===== verification/Parser.thy ===== *)
theory Parser
  imports Buffer Integers Inline
begin

text \<open>
  The incremental RESP2 parser of \<^verbatim>\<open>src/resp/parser.h\<close> and \<^verbatim>\<open>src/resp/parser.cpp\<close>. Each case of
  the \<^verbatim>\<open>switch\<close> in \<^verbatim>\<open>RespParser::parse\<close> is a function of the parser's members and of the
  readable bytes (\<^verbatim>\<open>in.peek()\<close>, \<^verbatim>\<open>in.readable()\<close>); it says whether \<open>parse\<close> returns and with
  what, the members afterwards, and how many bytes it consumes. \<open>parse\<close> is the loop over
  those cases on a \<open>buffer\<close>, \<open>parse_bytes\<close> the same loop on the byte sequence alone, and
  \<open>parse_refines_bytes\<close> says that the first implements the second.
\<close>

subsection \<open>State\<close>

record proto_limits =
  max_multibulk_args :: nat
  max_bulk_len :: nat
  max_inline_len :: nat

definition default_limits :: proto_limits where
  "default_limits =
     \<lparr>max_multibulk_args = 1024 * 1024, max_bulk_len = 512 * 1024 * 1024,
      max_inline_len = 64 * 1024\<rparr>"

datatype parser_state = Start | ArgLen | ArgData

record resp_parser =
  pstate :: parser_state
  args_remaining :: int
  arg_len :: int
  pargv :: "bytes list"
  limits :: proto_limits

definition new_parser :: "proto_limits \<Rightarrow> resp_parser" where
  "new_parser l =
     \<lparr>pstate = Start, args_remaining = 0, arg_len = - 1, pargv = [], limits = l\<rparr>"

text \<open>
  \<^verbatim>\<open>ParseStatus\<close> together with the output parameter that it makes meaningful: \<^verbatim>\<open>*argv\<close> is
  written on \<open>Complete\<close> and \<^verbatim>\<open>*err\<close> on \<open>Error\<close>, and nowhere else.
\<close>

datatype parse_status = Incomplete | Complete "bytes list" | ParseError bytes

subsection \<open>Operations\<close>

function find_crlf :: "bytes \<Rightarrow> nat option" where
  "find_crlf p =
     (if 1 < length p
      then case memchr CR (take (length p - 1) p) of
             None \<Rightarrow> None
           | Some r \<Rightarrow> if p ! (r + 1) = LF then Some r
                        else map_option (\<lambda>i. r + 1 + i) (find_crlf (drop (r + 1) p))
      else None)"
  by pat_completeness auto
termination by (relation "measure length") auto

declare find_crlf.simps [simp del]

definition parser_reset :: "resp_parser \<Rightarrow> resp_parser" where
  "parser_reset p = p\<lparr>pstate := Start, args_remaining := 0, arg_len := - 1, pargv := []\<rparr>"

type_synonym parse_step = "parse_status option \<times> resp_parser \<times> nat option"

text \<open>
  A step returns a status (\<open>None\<close> for the \<^verbatim>\<open>break\<close> that goes round the loop), the members, and
  the argument of the one call to \<^verbatim>\<open>in.consume\<close> it makes, if it makes one.
\<close>

definition fail :: "resp_parser \<Rightarrow> bytes \<Rightarrow> nat option \<Rightarrow> parse_step" where
  "fail p msg k = (Some (ParseError (''Protocol error: '' @ msg)), parser_reset p, k)"

definition parse_inline :: "resp_parser \<Rightarrow> bytes \<Rightarrow> parse_step" where
  "parse_inline p r =
     (case memchr LF r of
        None \<Rightarrow>
          if length r > max_inline_len (limits p) then fail p ''too big inline request'' None
          else (Some Incomplete, p, None)
      | Some nl \<Rightarrow>
          let total = nl + 1;
              line_len = (if nl > 0 \<and> r ! (nl - 1) = CR then nl - 1 else nl)
          in if line_len > max_inline_len (limits p) then fail p ''too big inline request'' None
             else case split_inline (take line_len r) of
                    None \<Rightarrow> fail p ''unbalanced quotes in request'' (Some total)
                  | Some parts \<Rightarrow> (Some (Complete parts), parser_reset p, Some total))"

definition parse_start :: "resp_parser \<Rightarrow> bytes \<Rightarrow> parse_step" where
  "parse_start p r =
     (if r = [] then (Some Incomplete, p, None)
      else if r ! 0 \<noteq> CHR ''*'' then parse_inline p r
      else case find_crlf r of
        None \<Rightarrow>
          if length r > 64 then fail p ''too big mbulk count string'' None
          else (Some Incomplete, p, None)
      | Some line_len \<Rightarrow>
          (case string_to_int64 (take (line_len - 1) (drop 1 r)) of
             None \<Rightarrow> fail p ''invalid multibulk length'' None
           | Some count \<Rightarrow>
               if count > int (max_multibulk_args (limits p))
               then fail p ''invalid multibulk length'' None
               else if count \<le> 0 then (Some (Complete []), parser_reset p, Some (line_len + 2))
               else (None, p\<lparr>args_remaining := count, pargv := [], pstate := ArgLen\<rparr>,
                     Some (line_len + 2))))"

definition parse_arg_len :: "resp_parser \<Rightarrow> bytes \<Rightarrow> parse_step" where
  "parse_arg_len p r =
     (case find_crlf r of
        None \<Rightarrow>
          if length r > 64 then fail p ''too big bulk count string'' None
          else (Some Incomplete, p, None)
      | Some line_len \<Rightarrow>
          if line_len = 0 \<or> r ! 0 \<noteq> CHR ''$''
          then let got = (if line_len = 0 then CHR '' '' else r ! 0)
               in fail p (''expected '' @ [SQUOTE] @ ''$'' @ [SQUOTE] @ '', got '' @ [SQUOTE, got, SQUOTE]) None
          else (case string_to_int64 (take (line_len - 1) (drop 1 r)) of
                  None \<Rightarrow> fail p ''invalid bulk length'' None
                | Some len \<Rightarrow>
                    if len < 0 \<or> len > int (max_bulk_len (limits p))
                    then fail p ''invalid bulk length'' None
                    else (None, p\<lparr>arg_len := len, pstate := ArgData\<rparr>, Some (line_len + 2))))"

definition parse_arg_data :: "resp_parser \<Rightarrow> bytes \<Rightarrow> parse_step" where
  "parse_arg_data p r =
     (let n = nat (arg_len p); need = n + 2 in
      if length r < need then (Some Incomplete, p, None)
      else if r ! n \<noteq> CR \<or> r ! (n + 1) \<noteq> LF then fail p ''invalid bulk length'' None
      else let argv = pargv p @ [take n r];
               left = args_remaining p - 1
           in if left = 0 then (Some (Complete argv), parser_reset p, Some need)
              else (None, p\<lparr>pargv := argv, arg_len := - 1, args_remaining := left, pstate := ArgLen\<rparr>,
                    Some need))"

definition parse_case :: "resp_parser \<Rightarrow> bytes \<Rightarrow> parse_step" where
  "parse_case p r =
     (case pstate p of
        Start \<Rightarrow> parse_start p r
      | ArgLen \<Rightarrow> parse_arg_len p r
      | ArgData \<Rightarrow> parse_arg_data p r)"

lemmas parse_case_defs =
  parse_case_def parse_start_def parse_inline_def parse_arg_len_def parse_arg_data_def fail_def Let_def

text \<open>Reference definition: the offset of the first CR that an LF follows.\<close>

fun crlf_pos :: "bytes \<Rightarrow> nat option" where
  "crlf_pos (a # b # xs) = (if a = CR \<and> b = LF then Some 0 else map_option Suc (crlf_pos (b # xs)))"
| "crlf_pos _ = None"

lemma crlf_pos_no_CR: "CR \<notin> set (take (length p - 1) p) \<Longrightarrow> crlf_pos p = None"
  by (induction p rule: crlf_pos.induct) auto

lemma crlf_pos_skip:
  "r + 1 < length p \<Longrightarrow> p ! r = CR \<Longrightarrow> CR \<notin> set (take r p) \<Longrightarrow>
     crlf_pos p = (if p ! (r + 1) = LF then Some r
                   else map_option (\<lambda>i. r + 1 + i) (crlf_pos (drop (r + 1) p)))"
proof (induction p arbitrary: r rule: crlf_pos.induct)
  case (1 a b xs)
  show ?case
  proof (cases r)
    case 0
    with 1 show ?thesis by (cases "crlf_pos (b # xs)") auto
  next
    case (Suc r')
    with 1 show ?thesis by (auto simp: option.map_comp comp_def)
  qed
qed auto

lemma find_crlf_eq_crlf_pos: "find_crlf p = crlf_pos p"
proof (induction p rule: find_crlf.induct)
  case (1 p)
  show ?case
  proof (cases "1 < length p")
    case False
    then have "find_crlf p = None" by (simp add: find_crlf.simps [of p])
    moreover have "crlf_pos p = None" using False by (cases p rule: crlf_pos.cases) auto
    ultimately show ?thesis by simp
  next
    case True
    show ?thesis
    proof (cases "memchr CR (take (length p - 1) p)")
      case None
      then have "crlf_pos p = None" by (simp add: memchr_None_iff crlf_pos_no_CR)
      with True None show ?thesis by (simp add: find_crlf.simps [of p])
    next
      case (Some r)
      then have r: "r + 1 < length p" "p ! r = CR" "CR \<notin> set (take r p)"
        by (auto dest!: memchr_SomeD simp: min_def split: if_splits)
      with True Some 1 show ?thesis
        by (simp add: find_crlf.simps [of p] crlf_pos_skip [OF r])
    qed
  qed
qed

lemma crlf_pos_SomeD:
  "crlf_pos p = Some i \<Longrightarrow> i + 1 < length p \<and> p ! i = CR \<and> p ! (i + 1) = LF"
  by (induction p arbitrary: i rule: crlf_pos.induct) (auto split: if_splits)

lemma crlf_pos_append: "crlf_pos p = Some i \<Longrightarrow> crlf_pos (p @ q) = Some i"
  by (induction p arbitrary: i rule: crlf_pos.induct) (auto split: if_splits)

lemma crlf_pos_later: "crlf_pos p = None \<Longrightarrow> crlf_pos (p @ q) = Some i \<Longrightarrow> length p \<le> i + 1"
proof (induction p arbitrary: i rule: crlf_pos.induct)
  case (1 a b xs)
  then show ?case by (auto split: if_splits)
qed auto

lemma crlf_pos_line: "CR \<notin> set l \<Longrightarrow> crlf_pos (l @ CR # LF # r) = Some (length l)"
proof (induction l)
  case (Cons c l)
  then show ?case by (cases l) auto
qed simp

lemma find_crlf_length: "find_crlf p = Some i \<Longrightarrow> i + 1 < length p"
  by (auto simp: find_crlf_eq_crlf_pos dest: crlf_pos_SomeD)

text \<open>Going round the loop consumes at least two bytes that are there.\<close>

lemma parse_case_continues:
  "parse_case p r = (None, p', k) \<Longrightarrow> \<exists>n. k = Some n \<and> 2 \<le> n \<and> n \<le> length r"
  by (auto simp: parse_case_defs split: if_splits option.splits parser_state.splits
      dest!: find_crlf_length)

definition do_consume :: "buffer \<Rightarrow> nat option \<Rightarrow> buffer" where
  "do_consume b k = (case k of None \<Rightarrow> b | Some n \<Rightarrow> consume b n)"

lemma readable_ge_contents: "length (buf_contents b) \<le> readable b"
  by (simp add: buf_contents_def)

lemma parse_case_shrinks:
  assumes "parse_case p (buf_contents b) = (None, p', k)"
  shows "readable (do_consume b k) < readable b"
proof -
  obtain n where "k = Some n" "2 \<le> n" "n \<le> length (buf_contents b)"
    using parse_case_continues [OF assms] by blast
  then show ?thesis
    using readable_ge_contents [of b] by (simp add: do_consume_def readable_consume)
qed

function parse :: "resp_parser \<Rightarrow> buffer \<Rightarrow> parse_status \<times> resp_parser \<times> buffer" where
  "parse p b =
     (case parse_case p (buf_contents b) of
        (Some st, p', k) \<Rightarrow> (st, p', do_consume b k)
      | (None, p', k) \<Rightarrow> parse p' (do_consume b k))"
  by pat_completeness auto
termination
  by (relation "measure (\<lambda>(p, b). readable b)") (auto intro: parse_case_shrinks [OF sym])

declare parse.simps [simp del]

subsection \<open>The parser on a byte sequence\<close>

definition drop_opt :: "nat option \<Rightarrow> bytes \<Rightarrow> bytes" where
  "drop_opt k r = (case k of None \<Rightarrow> r | Some n \<Rightarrow> drop n r)"

lemma drop_opt_simps [simp]: "drop_opt None r = r" "drop_opt (Some n) r = drop n r"
  by (simp_all add: drop_opt_def)

lemma parse_case_drop_shrinks:
  assumes "parse_case p r = (None, p', k)"
  shows "length (drop_opt k r) < length r"
  using parse_case_continues [OF assms] by auto

function parse_bytes :: "resp_parser \<Rightarrow> bytes \<Rightarrow> parse_status \<times> resp_parser \<times> bytes" where
  "parse_bytes p r =
     (case parse_case p r of
        (Some st, p', k) \<Rightarrow> (st, p', drop_opt k r)
      | (None, p', k) \<Rightarrow> parse_bytes p' (drop_opt k r))"
  by pat_completeness auto
termination
  by (relation "measure (\<lambda>(p, r). length r)") (auto intro: parse_case_drop_shrinks [OF sym])

declare parse_bytes.simps [simp del]

lemma parse_bytes_return:
  "parse_case p r = (Some st, p', k) \<Longrightarrow> parse_bytes p r = (st, p', drop_opt k r)"
  by (simp add: parse_bytes.simps [of p r])

lemma parse_bytes_again:
  "parse_case p r = (None, p', k) \<Longrightarrow> parse_bytes p r = parse_bytes p' (drop_opt k r)"
  by (simp add: parse_bytes.simps [of p r])

lemma contents_do_consume [simp]:
  "buf_ok b \<Longrightarrow> buf_contents (do_consume b k) = drop_opt k (buf_contents b)"
  by (simp add: do_consume_def split: option.split)

lemma buf_ok_do_consume [simp]: "buf_ok b \<Longrightarrow> buf_ok (do_consume b k)"
  by (simp add: do_consume_def split: option.split)

lemma parse_refines_bytes:
  "buf_ok b \<Longrightarrow> parse p b = (st, p', b') \<Longrightarrow>
     buf_ok b' \<and> parse_bytes p (buf_contents b) = (st, p', buf_contents b')"
proof (induction p b rule: parse.induct)
  case (1 p b)
  obtain o1 p1 k where step: "parse_case p (buf_contents b) = (o1, p1, k)"
    by (metis prod_cases3)
  show ?case
  proof (cases o1)
    case (Some st1)
    with step "1.prems" show ?thesis
      by (auto simp: parse.simps [of p b] parse_bytes_return)
  next
    case None
    then have "parse p1 (do_consume b k) = (st, p', b')"
      using step "1.prems" by (simp add: parse.simps [of p b])
    with "1.IH" None step "1.prems"(1) show ?thesis
      by (auto simp: parse_bytes_again)
  qed
qed

text \<open>
  The caller's loop in \<^verbatim>\<open>Server::process_input\<close>, seen from the parser: parse until the bytes run
  out or the framing is lost, and hand each command on. A finished command has consumed at
  least one byte, so the loop ends.
\<close>

lemma parse_case_complete_consumes:
  "parse_case p r = (Some (Complete a), p', k) \<Longrightarrow> \<exists>n. k = Some n \<and> 0 < n \<and> n \<le> length r"
  by (auto simp: parse_case_defs Suc_le_eq split: if_splits option.splits parser_state.splits
      dest!: find_crlf_length memchr_SomeD)

lemma parse_bytes_complete_shrinks:
  "parse_bytes p r = (Complete a, p', r') \<Longrightarrow> length r' < length r"
proof (induction p r rule: parse_bytes.induct)
  case (1 p r)
  obtain o1 p1 k where step: "parse_case p r = (o1, p1, k)" by (metis prod_cases3)
  show ?case
  proof (cases o1)
    case (Some st)
    with step "1.prems" show ?thesis
      using parse_case_complete_consumes [of p r a p1 k] by (auto simp: parse_bytes_return)
  next
    case None
    then have "parse_bytes p1 (drop_opt k r) = (Complete a, p', r')"
      using step "1.prems" by (simp add: parse_bytes_again)
    then have "length r' < length (drop_opt k r)" using "1.IH" None step by auto
    also have "\<dots> < length r" using None step by (auto intro: parse_case_drop_shrinks)
    finally show ?thesis .
  qed
qed

function drain :: "resp_parser \<Rightarrow> bytes \<Rightarrow> bytes list list \<times> parse_status \<times> resp_parser \<times> bytes" where
  "drain p r =
     (case parse_bytes p r of
        (Complete argv, p', r') \<Rightarrow> (case drain p' r' of (cmds, fin) \<Rightarrow> (argv # cmds, fin))
      | (st, p', r') \<Rightarrow> ([], st, p', r'))"
  by pat_completeness auto
termination
  by (relation "measure (\<lambda>(p, r). length r)") (auto intro: parse_bytes_complete_shrinks [OF sym])

declare drain.simps [simp del]

text \<open>The same stream delivered in pieces: what is left over of one read precedes the next.\<close>

fun feed :: "resp_parser \<Rightarrow> bytes \<Rightarrow> bytes list \<Rightarrow> bytes list list \<times> parse_status \<times> resp_parser \<times> bytes" where
  "feed p r [] = ([], Incomplete, p, r)"
| "feed p r (c # cs) =
     (case drain p (r @ c) of
        (cmds, Incomplete, p', r') \<Rightarrow> (case feed p' r' cs of (cmds', fin) \<Rightarrow> (cmds @ cmds', fin))
      | (cmds, st, p', r') \<Rightarrow> (cmds, st, p', r'))"

subsection \<open>Properties\<close>

text \<open>
  \<open>find_crlf\<close>, which hops from one CR to the next with \<^verbatim>\<open>memchr\<close>, finds the first CR that an LF
  follows: nothing before its result is such a pair, and it gives up only if there is none.
\<close>

theorem find_crlf_first:
  "find_crlf p = (if \<exists>i. i + 1 < length p \<and> p ! i = CR \<and> p ! (i + 1) = LF
                  then Some (LEAST i. i + 1 < length p \<and> p ! i = CR \<and> p ! (i + 1) = LF) else None)"
proof -
  have none: "\<not> (i + 1 < length p \<and> p ! i = CR \<and> p ! (i + 1) = LF)" if "crlf_pos p = None" for i
    using that
  proof (induction p arbitrary: i rule: crlf_pos.induct)
    case (1 a b xs)
    then show ?case by (cases i) (auto split: if_splits)
  qed auto
  have least: "j \<le> i" if "crlf_pos p = Some j" "i + 1 < length p" "p ! i = CR" "p ! (i + 1) = LF" for i j
    using that
  proof (induction p arbitrary: i j rule: crlf_pos.induct)
    case (1 a b xs)
    then show ?case by (cases i) (auto split: if_splits)
  qed auto
  show ?thesis
  proof (cases "crlf_pos p")
    case None
    then show ?thesis using none by (auto simp: find_crlf_eq_crlf_pos)
  next
    case (Some j)
    then have "(LEAST i. i + 1 < length p \<and> p ! i = CR \<and> p ! (i + 1) = LF) = j"
      using crlf_pos_SomeD [OF Some] least [OF Some] by (intro Least_equality) auto
    then show ?thesis using Some crlf_pos_SomeD [OF Some] by (auto simp: find_crlf_eq_crlf_pos)
  qed
qed

end
