(* ===== verification/Writer.thy ===== *)
theory Writer
  imports Parser
begin

text \<open>
  The RESP2 reply encoders of \<^verbatim>\<open>src/resp/writer.h\<close> and \<^verbatim>\<open>src/resp/writer.cpp\<close>, which append to a
  connection's output buffer, and the protocol they implement: an abstract reply, its encoding,
  and the decoder a client runs on the bytes it receives.
\<close>

subsection \<open>The encoders\<close>

definition append_int_crlf :: "buffer \<Rightarrow> int \<Rightarrow> buffer" where
  "append_int_crlf out n = buf_append out (format_int n @ CRLF)"

definition reply_simple :: "buffer \<Rightarrow> bytes \<Rightarrow> buffer" where
  "reply_simple out s =
     (let out = ensure_writable out (length s + 3);
          out = buf_append out ''+'';
          out = buf_append out s
      in buf_append out CRLF)"

definition reply_error :: "buffer \<Rightarrow> bytes \<Rightarrow> buffer" where
  "reply_error out msg =
     (let out = ensure_writable out (length msg + 3);
          out = buf_append out ''-'';
          out = buf_append out msg
      in buf_append out CRLF)"

definition reply_integer :: "buffer \<Rightarrow> int \<Rightarrow> buffer" where
  "reply_integer out n = append_int_crlf (buf_append out '':'') n"

definition reply_bulk :: "buffer \<Rightarrow> bytes \<Rightarrow> buffer" where
  "reply_bulk out s =
     (let out = ensure_writable out (length s + 32);
          out = buf_append out ''$'';
          out = append_int_crlf out (int (length s));
          out = buf_append out s
      in buf_append out CRLF)"

definition reply_null_bulk :: "buffer \<Rightarrow> buffer" where
  "reply_null_bulk out = buf_append out (''$-1'' @ CRLF)"

definition reply_array_header :: "buffer \<Rightarrow> int \<Rightarrow> buffer" where
  "reply_array_header out n = append_int_crlf (buf_append out ''*'') n"

definition reply_ok :: "buffer \<Rightarrow> buffer" where
  "reply_ok out = buf_append out (''+OK'' @ CRLF)"

subsection \<open>The protocol\<close>

datatype reply = RSimple bytes | RError bytes | RInt int | RBulk bytes | RNull | RArray int

fun encode_reply :: "reply \<Rightarrow> bytes" where
  "encode_reply (RSimple s) = ''+'' @ s @ CRLF"
| "encode_reply (RError s) = ''-'' @ s @ CRLF"
| "encode_reply (RInt n) = '':'' @ std_to_string n @ CRLF"
| "encode_reply (RBulk s) = ''$'' @ std_to_string (int (length s)) @ CRLF @ s @ CRLF"
| "encode_reply RNull = ''$-1'' @ CRLF"
| "encode_reply (RArray n) = ''*'' @ std_to_string n @ CRLF"

text \<open>The encoder a handler calls for each kind of reply.\<close>

fun write_reply :: "buffer \<Rightarrow> reply \<Rightarrow> buffer" where
  "write_reply out (RSimple s) = reply_simple out s"
| "write_reply out (RError s) = reply_error out s"
| "write_reply out (RInt n) = reply_integer out n"
| "write_reply out (RBulk s) = reply_bulk out s"
| "write_reply out RNull = reply_null_bulk out"
| "write_reply out (RArray n) = reply_array_header out n"

text \<open>
  What a client can decode: a status or error line must not contain a CRLF of its own, and a
  number must be one that \<^verbatim>\<open>int64_t\<close> holds.
\<close>

fun wf_reply :: "reply \<Rightarrow> bool" where
  "wf_reply (RSimple s) \<longleftrightarrow> crlf_pos s = None"
| "wf_reply (RError s) \<longleftrightarrow> crlf_pos s = None"
| "wf_reply (RInt n) \<longleftrightarrow> in_int64 n"
| "wf_reply (RBulk s) \<longleftrightarrow> in_int64 (int (length s))"
| "wf_reply RNull \<longleftrightarrow> True"
| "wf_reply (RArray n) \<longleftrightarrow> in_int64 n"

text \<open>The client: the first byte names the kind, a line follows, and a bulk string its payload.\<close>

definition decode_reply :: "bytes \<Rightarrow> (reply \<times> bytes) option" where
  "decode_reply bs =
     (case bs of
        [] \<Rightarrow> None
      | c # r \<Rightarrow>
          (case crlf_pos r of
             None \<Rightarrow> None
           | Some i \<Rightarrow>
               let line = take i r; rest = drop (i + 2) r in
               if c = CHR ''+'' then Some (RSimple line, rest)
               else if c = CHR ''-'' then Some (RError line, rest)
               else (case decimal line of
                       None \<Rightarrow> None
                     | Some n \<Rightarrow>
                         if c = CHR '':'' then Some (RInt n, rest)
                         else if c = CHR ''*'' then Some (RArray n, rest)
                         else if c = CHR ''$''
                         then (if n = - 1 then Some (RNull, rest)
                               else if n < 0 \<or> length rest < nat n + 2 then None
                               else Some (RBulk (take (nat n) rest), drop (nat n + 2) rest))
                         else None)))"

subsection \<open>The encoders write the protocol\<close>

lemma buf_ok_append_int [simp]: "buf_ok out \<Longrightarrow> buf_ok (append_int_crlf out n)"
  by (simp add: append_int_crlf_def)

lemma contents_append_int:
  "buf_ok out \<Longrightarrow> in_int64 n \<Longrightarrow>
     buf_contents (append_int_crlf out n) = buf_contents out @ std_to_string n @ CRLF"
  by (simp add: append_int_crlf_def format_int_to_string)

lemmas reply_defs = reply_simple_def reply_error_def reply_integer_def reply_bulk_def
  reply_null_bulk_def reply_array_header_def Let_def

lemma contents_write_reply:
  "buf_ok out \<Longrightarrow> wf_reply r \<Longrightarrow> buf_contents (write_reply out r) = buf_contents out @ encode_reply r"
  by (cases r) (simp_all add: reply_defs contents_append_int)

lemma buf_ok_write_reply: "buf_ok out \<Longrightarrow> buf_ok (write_reply out r)"
  by (cases r) (simp_all add: reply_defs)

lemma reply_ok_eq: "buf_ok out \<Longrightarrow> buf_contents (reply_ok out) = buf_contents out @ encode_reply (RSimple ''OK'')"
  by (simp add: reply_ok_def)

lemma buf_ok_reply_ok [simp]: "buf_ok out \<Longrightarrow> buf_ok (reply_ok out)"
  by (simp add: reply_ok_def)

lemma crlf_pos_safe_line: "crlf_pos s = None \<Longrightarrow> crlf_pos (s @ CR # LF # r) = Some (length s)"
proof (induction s rule: crlf_pos.induct)
  case (1 a b xs)
  then show ?case by (auto split: if_splits)
qed auto

lemma crlf_pos_no_CR_whole: "CR \<notin> set s \<Longrightarrow> crlf_pos s = None"
  by (rule crlf_pos_no_CR) (auto dest: in_set_takeD)

lemma crlf_pos_number: "crlf_pos (std_to_string n @ CR # LF # r) = Some (length (std_to_string n))"
  by (intro crlf_pos_safe_line crlf_pos_no_CR_whole std_to_string_no_crlf)

lemma decode_encode_reply: "wf_reply r \<Longrightarrow> decode_reply (encode_reply r @ rest) = Some (r, rest)"
proof (cases r)
  case RNull
  then show ?thesis by (simp add: decode_reply_def decimal_def is_digit_def byte_val_def)
qed (auto simp: decode_reply_def crlf_pos_safe_line crlf_pos_number decimal_std_to_string Let_def)

subsection \<open>The interface the handlers rely on\<close>

locale reply_sink = byte_sink contents invar append
  for contents :: "'b \<Rightarrow> bytes" and invar append +
  fixes emit :: "'b \<Rightarrow> reply \<Rightarrow> 'b"
  assumes emit_contents: "invar b \<Longrightarrow> wf_reply r \<Longrightarrow> contents (emit b r) = contents b @ encode_reply r"
    and emit_invar: "invar b \<Longrightarrow> invar (emit b r)"
begin

lemma emits_invar: "invar b \<Longrightarrow> invar (foldl emit b rs)"
  by (induction rs arbitrary: b) (auto simp: emit_invar)

text \<open>A pipeline's replies arrive in order, one after the other.\<close>

lemma emits_contents:
  "invar b \<Longrightarrow> list_all wf_reply rs \<Longrightarrow>
     contents (foldl emit b rs) = contents b @ concat (map encode_reply rs)"
  by (induction rs arbitrary: b) (auto simp: emit_contents emit_invar)

end

interpretation rs: reply_sink buf_contents buf_ok buf_append write_reply
  by unfold_locales (simp_all add: contents_write_reply buf_ok_write_reply)

text \<open>The client's loop over everything it has received.\<close>

fun decode_replies :: "nat \<Rightarrow> bytes \<Rightarrow> (reply list \<times> bytes) option" where
  "decode_replies 0 bs = Some ([], bs)"
| "decode_replies (Suc n) bs =
     (case decode_reply bs of
        None \<Rightarrow> None
      | Some (r, rest) \<Rightarrow> map_option (\<lambda>(rs, rest'). (r # rs, rest')) (decode_replies n rest))"

lemma decode_encode_replies:
  "list_all wf_reply rs \<Longrightarrow>
     decode_replies (length rs) (concat (map encode_reply rs) @ rest) = Some (rs, rest)"
  by (induction rs) (simp_all add: decode_encode_reply)

subsection \<open>Properties\<close>

text \<open>
  C20: the reply stream can be read back. Replies written one after the other into an output buffer,
  behind whatever is pending there, are decoded by a RESP client to exactly those replies, in
  order, and the client is left at the end of the last one.
\<close>

theorem replies_round_trip:
  assumes "buf_ok out" "list_all wf_reply rs"
  shows "decode_replies (length rs)
      (drop (readable out) (buf_contents (foldl write_reply out rs)) @ rest) = Some (rs, rest)"
proof -
  have "buf_contents (foldl write_reply out rs) = buf_contents out @ concat (map encode_reply rs)"
    using rs.emits_contents [OF assms] .
  then show ?thesis using assms decode_encode_replies [OF assms(2), of rest] by simp
qed

theorem replies_round_trip_witness:
  "decode_replies 3 (drop (readable new_buffer)
      (buf_contents (foldl write_reply new_buffer [RBulk [CR, LF], RNull, RInt (- 5)])) @ []) =
    Some ([RBulk [CR, LF], RNull, RInt (- 5)], [])"
  using replies_round_trip [OF buf_ok_new, of "[RBulk [CR, LF], RNull, RInt (- 5)]" "[]"]
  by (simp add: in_int64_def numeral_3_eq_3)

end
