(* ===== verification/Db.thy ===== *)
theory Db
  imports Prelude "HOL-Library.Finite_Map"
begin

text \<open>
  The keyspace of \<^verbatim>\<open>src/db/db.h\<close> and \<^verbatim>\<open>src/db/db.cpp\<close> with \<^verbatim>\<open>src/db/value.h\<close> and the clock of
  \<^verbatim>\<open>src/db/clock.h\<close>. The two hash tables are a finite map and a finite set. The members of
  \<^verbatim>\<open>Db\<close> are the fields of the record; one more field, \<open>clk\<close>, is the environment's: the readings
  that successive calls of \<^verbatim>\<open>now_ms()\<close> will return, taken from the front one by one. The clock may
  stand still, jump forward or jump backward; a theorem that needs it well-behaved says so.
  A returned \<^verbatim>\<open>Value*\<close> is the value itself; a write through the pointer updates the map entry.
\<close>

subsection \<open>Values\<close>

type_synonym key = bytes

datatype value_type = StringType

fun type_name :: "value_type \<Rightarrow> bytes" where
  "type_name StringType = ''string''"

record kvalue =
  vtype :: value_type
  vdata :: bytes
  expire_at :: int

definition kNoExpiry :: int where
  "kNoExpiry = 0"

definition has_expiry :: "kvalue \<Rightarrow> bool" where
  "has_expiry v \<longleftrightarrow> expire_at v \<noteq> kNoExpiry"

definition is_expired :: "kvalue \<Rightarrow> int \<Rightarrow> bool" where
  "is_expired v now \<longleftrightarrow> has_expiry v \<and> expire_at v \<le> now"

subsection \<open>State\<close>

record db =
  kmap :: "(key, kvalue) fmap"
  volatile_keys :: "key fset"
  rng :: nat
  expired_count :: u64
  clk :: "nat \<Rightarrow> int"

definition now_ms :: "db \<Rightarrow> int \<times> db" where
  "now_ms d = (clk d 0, d\<lparr>clk := (\<lambda>i. clk d (Suc i))\<rparr>)"

text \<open>
  \<^verbatim>\<open>std::minstd_rand\<close>: the linear congruential engine with multiplier 48271, increment 0 and
  modulus $2^{31}-1$. A seed that is 0 modulo the modulus becomes 1.
\<close>

definition minstd_seed :: "nat \<Rightarrow> nat" where
  "minstd_seed s = (if s mod 2147483647 = 0 then 1 else s mod 2147483647)"

definition minstd_next :: "nat \<Rightarrow> nat" where
  "minstd_next x = 48271 * x mod 2147483647"

definition new_db :: "nat \<Rightarrow> (nat \<Rightarrow> int) \<Rightarrow> db" where
  "new_db seed c =
     \<lparr>kmap = fmempty, volatile_keys = {||}, rng = minstd_seed seed, expired_count = 0, clk = c\<rparr>"

subsection \<open>Operations\<close>

definition reclaim :: "db \<Rightarrow> key \<Rightarrow> db" where
  "reclaim d k =
     d\<lparr>kmap := fmdrop k (kmap d), volatile_keys := volatile_keys d |-| {|k|},
       expired_count := expired_count d + 1\<rparr>"

definition lookup :: "db \<Rightarrow> key \<Rightarrow> kvalue option \<times> db" where
  "lookup d k =
     (case fmlookup (kmap d) k of
        None \<Rightarrow> (None, d)
      | Some v \<Rightarrow>
          (let (now, d) = now_ms d in
           if is_expired v now then (None, reclaim d k) else (Some v, d)))"

definition set_string :: "db \<Rightarrow> key \<Rightarrow> bytes \<Rightarrow> int \<Rightarrow> db" where
  "set_string d k data deadline =
     d\<lparr>kmap := fmupd k \<lparr>vtype = StringType, vdata = data, expire_at = deadline\<rparr> (kmap d),
       volatile_keys := (if deadline = kNoExpiry then volatile_keys d |-| {|k|}
                         else finsert k (volatile_keys d))\<rparr>"

definition erase :: "db \<Rightarrow> key \<Rightarrow> bool \<times> db" where
  "erase d k =
     (case lookup d k of
        (None, d) \<Rightarrow> (False, d)
      | (Some v, d) \<Rightarrow>
          (True, d\<lparr>kmap := fmdrop k (kmap d), volatile_keys := volatile_keys d |-| {|k|}\<rparr>))"

definition set_expire_at :: "db \<Rightarrow> key \<Rightarrow> int \<Rightarrow> bool \<times> db" where
  "set_expire_at d k deadline =
     (case lookup d k of
        (None, d) \<Rightarrow> (False, d)
      | (Some v, d) \<Rightarrow>
          (True, d\<lparr>kmap := fmupd k (v\<lparr>expire_at := deadline\<rparr>) (kmap d),
                   volatile_keys := finsert k (volatile_keys d)\<rparr>))"

definition persist :: "db \<Rightarrow> key \<Rightarrow> bool \<times> db" where
  "persist d k =
     (case lookup d k of
        (None, d) \<Rightarrow> (False, d)
      | (Some v, d) \<Rightarrow>
          if \<not> has_expiry v then (False, d)
          else (True, d\<lparr>kmap := fmupd k (v\<lparr>expire_at := kNoExpiry\<rparr>) (kmap d),
                        volatile_keys := volatile_keys d |-| {|k|}\<rparr>))"

definition kNoKey :: int where
  "kNoKey = - 2"

definition kNoTtl :: int where
  "kNoTtl = - 1"

definition pttl :: "db \<Rightarrow> key \<Rightarrow> int \<times> db" where
  "pttl d k =
     (case lookup d k of
        (None, d) \<Rightarrow> (kNoKey, d)
      | (Some v, d) \<Rightarrow>
          if \<not> has_expiry v then (kNoTtl, d)
          else (let (now, d) = now_ms d; remaining = expire_at v - now
                in (if remaining > 0 then remaining else 0, d)))"

definition db_size :: "db \<Rightarrow> nat" where
  "db_size d = fcard (fmdom (kmap d))"

definition volatile_size :: "db \<Rightarrow> nat" where
  "volatile_size d = fcard (volatile_keys d)"

definition db_clear :: "db \<Rightarrow> db" where
  "db_clear d = d\<lparr>kmap := fmempty, volatile_keys := {||}\<rparr>"

text \<open>\<^verbatim>\<open>v->data = ...\<close> through the pointer that \<^verbatim>\<open>lookup\<close> returned, as INCR does.\<close>

definition write_data :: "db \<Rightarrow> key \<Rightarrow> kvalue \<Rightarrow> bytes \<Rightarrow> db" where
  "write_data d k v data = d\<lparr>kmap := fmupd k (v\<lparr>vdata := data\<rparr>) (kmap d)\<rparr>"

subsection \<open>The invariant: the volatile index is the set of keys with a deadline\<close>

definition db_inv :: "db \<Rightarrow> bool" where
  "db_inv d \<longleftrightarrow>
     (\<forall>k. k |\<in>| volatile_keys d \<longleftrightarrow> (\<exists>v. fmlookup (kmap d) k = Some v \<and> has_expiry v))"

subsection \<open>The abstraction: what a client can observe at a given time\<close>

text \<open>
  At time \<open>t\<close> a key is visible if it is stored and not past its deadline. Everything that is
  observable through the read paths is a function of this view.
\<close>

definition visible :: "db \<Rightarrow> int \<Rightarrow> key \<Rightarrow> kvalue option" where
  "visible d t k =
     (case fmlookup (kmap d) k of
        None \<Rightarrow> None
      | Some v \<Rightarrow> if is_expired v t then None else Some v)"

definition live :: "int \<Rightarrow> kvalue \<Rightarrow> kvalue option" where
  "live t v = (if is_expired v t then None else Some v)"

lemma visible_eq: "visible d t k = Option.bind (fmlookup (kmap d) k) (live t)"
  by (simp add: visible_def live_def split: option.split)

lemma is_expired_mono: "is_expired v t \<Longrightarrow> t \<le> t' \<Longrightarrow> is_expired v t'"
  by (auto simp: is_expired_def)

lemma now_ms_fields [simp]:
  "fst (now_ms d) = clk d 0" "kmap (snd (now_ms d)) = kmap d"
  "volatile_keys (snd (now_ms d)) = volatile_keys d"
  "expired_count (snd (now_ms d)) = expired_count d" "rng (snd (now_ms d)) = rng d"
  "clk (snd (now_ms d)) i = clk d (Suc i)"
  by (simp_all add: now_ms_def)

text \<open>The three ways a lookup can go.\<close>

lemma lookup_cases:
  obtains (absent) "fmlookup (kmap d) k = None" "lookup d k = (None, d)"
  | (dead) v where "fmlookup (kmap d) k = Some v" "is_expired v (clk d 0)"
      "lookup d k = (None, reclaim (snd (now_ms d)) k)"
  | (alive) v where "fmlookup (kmap d) k = Some v" "\<not> is_expired v (clk d 0)"
      "lookup d k = (Some v, snd (now_ms d))"
  by (cases "fmlookup (kmap d) k") (auto simp: lookup_def now_ms_def)

lemma lookup_visible: "fst (lookup d k) = visible d (clk d 0) k"
  by (cases rule: lookup_cases [of d k]) (simp_all add: visible_def)

lemma visible_reclaim:
  assumes "fmlookup (kmap d) k = Some v" "is_expired v t" "t \<le> t'"
  shows "visible (reclaim d k) t' = visible d t'"
  using assms by (auto simp: visible_def reclaim_def fun_eq_iff dest: is_expired_mono)

lemma visible_now_ms [simp]: "visible (snd (now_ms d)) t = visible d t"
  by (simp add: visible_def fun_eq_iff)

text \<open>Lazy deletion is unobservable at the time of the lookup and ever after.\<close>

lemma lookup_keeps_visible:
  assumes "clk d 0 \<le> t"
  shows "visible (snd (lookup d k)) t = visible d t"
proof (cases rule: lookup_cases [of d k])
  case (dead v)
  then show ?thesis using visible_reclaim [of "snd (now_ms d)" k v "clk d 0" t] assms by simp
qed simp_all

lemma db_inv_reclaim: "db_inv d \<Longrightarrow> db_inv (reclaim d k)"
  by (auto simp: db_inv_def reclaim_def)

lemma db_inv_now_ms [simp]: "db_inv (snd (now_ms d)) = db_inv d"
  by (simp add: db_inv_def)

lemma db_inv_lookup: "db_inv d \<Longrightarrow> db_inv (snd (lookup d k))"
  by (cases rule: lookup_cases [of d k]) (simp_all add: db_inv_reclaim)

lemma lookup_Some_stored:
  "lookup d k = (Some v, d') \<Longrightarrow> fmlookup (kmap d') k = Some v \<and> kmap d' = kmap d \<and> volatile_keys d' = volatile_keys d"
  by (cases rule: lookup_cases [of d k]) auto

lemma db_inv_set_string: "db_inv d \<Longrightarrow> db_inv (set_string d k data deadline)"
  by (auto simp: db_inv_def set_string_def has_expiry_def)

lemma db_inv_erase:
  assumes "db_inv d" shows "db_inv (snd (erase d k))"
  using db_inv_lookup [OF assms, of k]
  by (auto simp: erase_def db_inv_def split: prod.split option.split)

lemma db_inv_set_expire_at:
  assumes "db_inv d" "deadline \<noteq> kNoExpiry" shows "db_inv (snd (set_expire_at d k deadline))"
  using db_inv_lookup [OF assms(1), of k] assms(2)
  by (auto simp: set_expire_at_def db_inv_def has_expiry_def split: prod.split option.split)

lemma db_inv_persist:
  assumes "db_inv d" shows "db_inv (snd (persist d k))"
  using db_inv_lookup [OF assms, of k]
  by (auto simp: persist_def db_inv_def has_expiry_def split: prod.split option.split)

lemma db_inv_pttl:
  assumes "db_inv d" shows "db_inv (snd (pttl d k))"
  using db_inv_lookup [OF assms, of k]
  by (auto simp: pttl_def Let_def split: prod.split option.split) (auto simp: now_ms_def db_inv_def)

lemma db_inv_clear: "db_inv (db_clear d)"
  by (simp add: db_inv_def db_clear_def)

lemma db_inv_new: "db_inv (new_db seed c)"
  by (simp add: db_inv_def new_db_def)

lemma db_inv_write_data:
  "db_inv d \<Longrightarrow> fmlookup (kmap d) k = Some v \<Longrightarrow> db_inv (write_data d k v data)"
  by (auto simp: db_inv_def write_data_def has_expiry_def)

subsection \<open>The effect of each operation on the view\<close>

lemma visible_set_string:
  "visible (set_string d k data deadline) t =
     (visible d t)(k := live t \<lparr>vtype = StringType, vdata = data, expire_at = deadline\<rparr>)"
  by (simp add: visible_def set_string_def live_def fun_eq_iff)

lemma erase_result: "fst (erase d k) \<longleftrightarrow> visible d (clk d 0) k \<noteq> None"
  using lookup_visible [of d k] by (cases "lookup d k") (auto simp: erase_def split: option.splits)

lemma visible_drop:
  "visible (d\<lparr>kmap := fmdrop k (kmap d), volatile_keys := vs\<rparr>) t = (visible d t)(k := None)"
  by (simp add: visible_def fun_eq_iff)

lemma lookup_None_invisible: "lookup d k = (None, d') \<Longrightarrow> clk d 0 \<le> t \<Longrightarrow> visible d t k = None"
  by (cases rule: lookup_cases [of d k]) (auto simp: visible_def dest: is_expired_mono)

lemma visible_erase:
  assumes "clk d 0 \<le> t"
  shows "visible (snd (erase d k)) t = (visible d t)(k := None)"
proof -
  obtain ov d' where l: "lookup d k = (ov, d')" by fastforce
  then have v: "visible d' t = visible d t" using lookup_keeps_visible [OF assms, of k] by simp
  show ?thesis
  proof (cases ov)
    case None
    then show ?thesis using l v lookup_None_invisible [of d k d' t] assms by (auto simp: erase_def)
  next
    case (Some x)
    then show ?thesis using l v by (simp add: erase_def visible_drop)
  qed
qed

lemma visible_upd_entry:
  "visible (d\<lparr>kmap := fmupd k v (kmap d), volatile_keys := vs\<rparr>) t = (visible d t)(k := live t v)"
  by (simp add: visible_def live_def fun_eq_iff)

text \<open>Attaching a deadline: it takes effect exactly on the keys that were visible.\<close>

lemma visible_set_expire_at:
  assumes "clk d 0 \<le> t"
  shows "visible (snd (set_expire_at d k deadline)) t =
     (case visible d (clk d 0) k of
        None \<Rightarrow> visible d t
      | Some v \<Rightarrow> (visible d t)(k := live t (v\<lparr>expire_at := deadline\<rparr>)))"
    and "fst (set_expire_at d k deadline) \<longleftrightarrow> visible d (clk d 0) k \<noteq> None"
  using lookup_keeps_visible [OF assms, of k] lookup_visible [of d k]
  by (cases "lookup d k"; auto simp: set_expire_at_def visible_upd_entry split: option.splits)+

lemma visible_persist:
  assumes "clk d 0 \<le> t"
  shows "visible (snd (persist d k)) t =
     (case visible d (clk d 0) k of
        None \<Rightarrow> visible d t
      | Some v \<Rightarrow> if has_expiry v then (visible d t)(k \<mapsto> v\<lparr>expire_at := kNoExpiry\<rparr>)
                  else visible d t)"
    and "fst (persist d k) \<longleftrightarrow> (\<exists>v. visible d (clk d 0) k = Some v \<and> has_expiry v)"
  using lookup_keeps_visible [OF assms, of k] lookup_visible [of d k]
  by (cases "lookup d k"; auto simp: persist_def visible_upd_entry live_def is_expired_def has_expiry_def
      split: option.splits)+

lemma visible_clear: "visible (db_clear d) t = Map.empty"
  by (simp add: visible_def db_clear_def fun_eq_iff)

lemma visible_new: "visible (new_db seed c) t = Map.empty"
  by (simp add: visible_def new_db_def fun_eq_iff)

text \<open>The entry count is at least the number of live keys: it may still count the dead.\<close>

lemma visible_dom_size: "card (dom (visible d t)) \<le> db_size d"
proof -
  have sub: "dom (visible d t) \<subseteq> fset (fmdom (kmap d))"
  proof
    fix k
    assume "k \<in> dom (visible d t)"
    then show "k \<in> fset (fmdom (kmap d))"
      by (auto simp: visible_def fmlookup_dom_iff split: option.splits)
  qed
  have "card (dom (visible d t)) \<le> card (fset (fmdom (kmap d)))"
    by (rule card_mono) (use sub in auto)
  then show ?thesis by (simp add: db_size_def fcard.rep_eq)
qed

subsection \<open>The interface the command handlers rely on\<close>

locale keyspace =
  fixes view :: "'d \<Rightarrow> int \<Rightarrow> key \<Rightarrow> kvalue option"
    and inv :: "'d \<Rightarrow> bool"
    and next_reading :: "'d \<Rightarrow> int"
    and get :: "'d \<Rightarrow> key \<Rightarrow> kvalue option \<times> 'd"
    and put :: "'d \<Rightarrow> key \<Rightarrow> bytes \<Rightarrow> int \<Rightarrow> 'd"
    and del :: "'d \<Rightarrow> key \<Rightarrow> bool \<times> 'd"
  assumes get_result: "fst (get d k) = view d (next_reading d) k"
    and get_view: "next_reading d \<le> t \<Longrightarrow> view (snd (get d k)) t = view d t"
    and put_view: "view (put d k data dl) t =
      (view d t)(k := live t \<lparr>vtype = StringType, vdata = data, expire_at = dl\<rparr>)"
    and del_result: "fst (del d k) \<longleftrightarrow> view d (next_reading d) k \<noteq> None"
    and del_view: "next_reading d \<le> t \<Longrightarrow> view (snd (del d k)) t = (view d t)(k := None)"
    and get_inv: "inv d \<Longrightarrow> inv (snd (get d k))"
    and put_inv: "inv d \<Longrightarrow> inv (put d k data dl)"
    and del_inv: "inv d \<Longrightarrow> inv (snd (del d k))"
begin

text \<open>Read your write: until its deadline a stored value is the one that is read.\<close>

lemma get_put:
  assumes "dl = kNoExpiry \<or> next_reading (put d k data dl) < dl"
  shows "fst (get (put d k data dl) k) = Some \<lparr>vtype = StringType, vdata = data, expire_at = dl\<rparr>"
  using assms by (auto simp: get_result put_view live_def is_expired_def has_expiry_def)

lemma get_put_dead:
  assumes "dl \<noteq> kNoExpiry" "dl \<le> next_reading (put d k data dl)"
  shows "fst (get (put d k data dl) k) = None"
  using assms by (simp add: get_result put_view live_def is_expired_def has_expiry_def)

lemma get_put_other:
  assumes "k' \<noteq> k" "next_reading (put d k data dl) = t"
  shows "fst (get (put d k data dl) k') = view d t k'"
  using assms by (simp add: get_result put_view)

lemma del_twice:
  assumes "next_reading d \<le> next_reading (snd (del d k))"
  shows "\<not> fst (del (snd (del d k)) k)"
  using assms by (simp add: del_result del_view)

end

interpretation ks: keyspace visible db_inv "\<lambda>d. clk d 0" lookup set_string erase
  by unfold_locales
    (simp_all add: lookup_visible lookup_keeps_visible visible_set_string erase_result visible_erase
      db_inv_lookup db_inv_set_string db_inv_erase)

subsection \<open>Properties\<close>

text \<open>
  Lazy expiry is exact and cannot be observed. A lookup returns the stored value if and only if
  its deadline has not come by the clock reading the lookup makes, and the entry it may remove
  was not visible then and would not be visible at any later time.
\<close>

theorem lookup_exact:
  assumes "lookup d k = (ov, d')" "clk d 0 \<le> t"
  shows "(ov = Some v \<longleftrightarrow> fmlookup (kmap d) k = Some v \<and>
      (expire_at v = kNoExpiry \<or> clk d 0 < expire_at v)) \<and>
    visible d' t = visible d t"
proof -
  have "ov = visible d (clk d 0) k" using lookup_visible [of d k] assms(1) by simp
  then have "ov = Some v \<longleftrightarrow> fmlookup (kmap d) k = Some v \<and> \<not> is_expired v (clk d 0)"
    by (auto simp: visible_def split: option.splits)
  then show ?thesis
    using lookup_keeps_visible [OF assms(2), of k] assms(1)
    by (auto simp: is_expired_def has_expiry_def not_le)
qed

theorem lookup_exact_witness:
  "\<exists>ov d'. lookup (set_string (new_db 1 (\<lambda>i. 7)) ''k'' ''v'' 7) ''k'' = (ov, d') \<and>
     ov \<noteq> Some \<lparr>vtype = StringType, vdata = ''v'', expire_at = 7\<rparr>"
proof -
  let ?d = "set_string (new_db 1 (\<lambda>i. 7)) ''k'' ''v'' 7"
  obtain ov d' where l: "lookup ?d ''k'' = (ov, d')" by fastforce
  have "clk ?d 0 \<le> 7" by (simp add: set_string_def new_db_def)
  from lookup_exact [OF l this, of "\<lparr>vtype = StringType, vdata = ''v'', expire_at = 7\<rparr>"] l show ?thesis
    by (simp add: kNoExpiry_def set_string_def new_db_def)
qed

text \<open>
  Read your write. A value that was set is what the next lookup of the key returns, as long as
  its deadline has not come; from the deadline on the lookup finds nothing; and no other key is
  affected.
\<close>

theorem set_then_lookup:
  assumes "d' = set_string d k data dl" "t = clk d 0"
  shows "fst (lookup d' k) = (if dl = kNoExpiry \<or> t < dl
      then Some \<lparr>vtype = StringType, vdata = data, expire_at = dl\<rparr> else None) \<and>
    (k' \<noteq> k \<longrightarrow> fst (lookup d' k') = visible d t k')"
proof -
  have t: "clk d' 0 = t" using assms by (simp add: set_string_def)
  then show ?thesis
    using ks.get_put [of dl d k data] ks.get_put_dead [of dl d k data] ks.get_put_other [of k' k d data dl t] assms(1)
    by (auto simp: not_less)
qed

theorem set_then_lookup_witness:
  "fst (lookup (set_string (new_db 1 (\<lambda>i. 7)) ''k'' ''v'' 8) ''k'') =
     Some \<lparr>vtype = StringType, vdata = ''v'', expire_at = 8\<rparr>"
  using set_then_lookup [OF refl refl, of "new_db 1 (\<lambda>i. 7)" "''k''" "''v''" 8 "''x''"] by (simp add: new_db_def)

end
