(* ===== verification/Expiry.thy ===== *)
theory Expiry
  imports Db "HOL-Library.Multiset" "HOL-Library.Char_ord" "HOL-Library.List_Lexorder"
begin

text \<open>
  The active half of expiration, \<^verbatim>\<open>Db::active_expire_cycle\<close> of \<^verbatim>\<open>src/db/db.cpp\<close>: rounds of
  sampling over the buckets of the volatile index. How \<^verbatim>\<open>std::unordered_set\<close> lays its elements
  out in buckets is the library's business, so the layout is a parameter: \<open>lay i S\<close> is the list
  of buckets in round \<open>i\<close> when the set is \<open>S\<close>, and \<open>is_layout\<close> says what the standard
  guarantees of it. The scratch member \<^verbatim>\<open>doomed_\<close> lives within one round.
\<close>

definition kMaxRounds :: nat where
  "kMaxRounds = 16"

definition kContinueIfExpiredNumerator :: nat where
  [simp]: "kContinueIfExpiredNumerator = 1"

definition kContinueIfExpiredDenominator :: nat where
  [simp]: "kContinueIfExpiredDenominator = 4"

definition is_layout :: "key fset \<Rightarrow> key list list \<Rightarrow> bool" where
  "is_layout S bs \<longleftrightarrow> bs \<noteq> [] \<and> distinct (concat bs) \<and> set (concat bs) = fset S"

text \<open>The test that dooms a sampled key.\<close>

definition is_doomed :: "(key, kvalue) fmap \<Rightarrow> int \<Rightarrow> key \<Rightarrow> bool" where
  "is_doomed m now k \<longleftrightarrow> (case fmlookup m k of None \<Rightarrow> True | Some v \<Rightarrow> is_expired v now)"

text \<open>The inner loop over one bucket; the state is the sample count and the doomed keys.\<close>

fun scan_bucket ::
  "(key, kvalue) fmap \<Rightarrow> int \<Rightarrow> nat \<Rightarrow> key list \<Rightarrow> nat \<times> key list \<Rightarrow> nat \<times> key list" where
  "scan_bucket m now sample_size [] (sampled, doomed) = (sampled, doomed)"
| "scan_bucket m now sample_size (k # ks) (sampled, doomed) =
     (if sampled < sample_size
      then scan_bucket m now sample_size ks
             (sampled + 1, if is_doomed m now k then doomed @ [k] else doomed)
      else (sampled, doomed))"

text \<open>The walk over the buckets: \<open>n\<close> counts the buckets still to scan.\<close>

fun scan_buckets ::
  "(key, kvalue) fmap \<Rightarrow> int \<Rightarrow> nat \<Rightarrow> key list list \<Rightarrow> nat \<Rightarrow> nat \<Rightarrow> nat \<times> key list \<Rightarrow> nat \<times> key list" where
  "scan_buckets m now sample_size bs 0 bucket acc = acc"
| "scan_buckets m now sample_size bs (Suc n) bucket acc =
     (if fst acc < sample_size
      then scan_buckets m now sample_size bs n ((bucket + 1) mod length bs)
             (scan_bucket m now sample_size (bs ! bucket) acc)
      else acc)"

text \<open>One round: the sample, then the deletions. Returns the sample size and the doomed keys.\<close>

definition expire_round :: "key list list \<Rightarrow> nat \<Rightarrow> db \<Rightarrow> nat \<times> key list \<times> db" where
  "expire_round bs sample_size d =
     (let (now, d) = now_ms d;
          d = d\<lparr>rng := minstd_next (rng d)\<rparr>;
          bucket = rng d mod length bs;
          (sampled, doomed) = scan_buckets (kmap d) now sample_size bs (length bs) bucket (0, [])
      in (sampled, doomed, foldl reclaim d doomed))"

text \<open>The loop over the rounds; \<open>n\<close> rounds are left and \<open>reclaimed\<close> keys are gone so far.\<close>

fun expire_rounds ::
  "(nat \<Rightarrow> key fset \<Rightarrow> key list list) \<Rightarrow> nat \<Rightarrow> nat \<Rightarrow> nat \<Rightarrow> db \<Rightarrow> nat \<times> db" where
  "expire_rounds lay sample_size 0 reclaimed d = (reclaimed, d)"
| "expire_rounds lay sample_size (Suc n) reclaimed d =
     (if volatile_keys d = {||} then (reclaimed, d)
      else let (sampled, doomed, d') = expire_round (lay (kMaxRounds - Suc n) (volatile_keys d)) sample_size d;
               reclaimed' = reclaimed + length doomed
           in if sampled = 0 then (reclaimed', d')
              else if length doomed * kContinueIfExpiredDenominator \<le> sampled * kContinueIfExpiredNumerator then (reclaimed', d')
              else expire_rounds lay sample_size n reclaimed' d')"

definition active_expire_cycle ::
  "(nat \<Rightarrow> key fset \<Rightarrow> key list list) \<Rightarrow> nat \<Rightarrow> db \<Rightarrow> nat \<times> db" where
  "active_expire_cycle lay sample_size d =
     (if sample_size = 0 then (0, d) else expire_rounds lay sample_size kMaxRounds 0 d)"

subsection \<open>What one round samples\<close>

lemma scan_bucket_eq:
  "sampled \<le> sample_size \<Longrightarrow>
   scan_bucket m now sample_size ks (sampled, doomed) =
     (let s = take (sample_size - sampled) ks
      in (sampled + length s, doomed @ filter (is_doomed m now) s))"
proof (induction ks arbitrary: sampled doomed)
  case (Cons k ks)
  then show ?case by (auto simp: Let_def Suc_diff_le take_Cons' not_less)
qed simp

text \<open>The buckets in the order of the walk: \<open>n\<close> of them from \<open>bucket\<close> on, wrapping round.\<close>

fun walk :: "key list list \<Rightarrow> nat \<Rightarrow> nat \<Rightarrow> key list" where
  "walk bs 0 bucket = []"
| "walk bs (Suc n) bucket = bs ! bucket @ walk bs n ((bucket + 1) mod length bs)"

lemma scan_buckets_eq:
  "sampled \<le> sample_size \<Longrightarrow>
   scan_buckets m now sample_size bs n bucket (sampled, doomed) =
     (let s = take (sample_size - sampled) (walk bs n bucket)
      in (sampled + length s, doomed @ filter (is_doomed m now) s))"
proof (induction n arbitrary: bucket sampled doomed)
  case (Suc n)
  let ?s = "take (sample_size - sampled) (bs ! bucket)"
  have "sampled + length ?s \<le> sample_size" using Suc.prems by simp
  then show ?case
    using Suc by (auto simp: scan_bucket_eq Let_def diff_diff_left min_def split: if_splits)
qed simp

lemma walk_rotate: "bucket < length bs \<Longrightarrow> n \<le> length bs \<Longrightarrow>
    walk bs n bucket = concat (take n (rotate bucket bs))"
proof (induction n arbitrary: bucket)
  case (Suc n)
  then have ne: "bs \<noteq> []" by auto
  have hd: "hd (rotate bucket bs) = bs ! bucket" using Suc.prems by (simp add: hd_rotate_conv_nth ne)
  have tl: "tl (rotate bucket bs) @ [bs ! bucket] = rotate (Suc bucket) bs"
    using ne hd by (metis rotate1_hd_tl rotate_Suc rotate_is_Nil_conv)
  have "rotate ((bucket + 1) mod length bs) bs = rotate (Suc bucket) bs"
    by (metis Suc_eq_plus1 rotate_conv_mod)
  then have "walk bs n ((bucket + 1) mod length bs) = concat (take n (rotate (Suc bucket) bs))"
    using Suc ne by simp
  also have "take n (rotate (Suc bucket) bs) = take n (tl (rotate bucket bs))"
    unfolding tl [symmetric] using Suc.prems by simp
  finally have "walk bs (Suc n) bucket = concat (hd (rotate bucket bs) # take n (tl (rotate bucket bs)))"
    by (simp add: hd)
  then show ?case using ne by (metis list.collapse rotate_is_Nil_conv take_Suc_Cons)
qed simp

lemma mset_rotate1: "mset (rotate1 xs) = mset xs"
  by (cases xs) simp_all

lemma mset_rotate: "mset (rotate n xs) = mset xs"
  by (induction n) (simp_all add: mset_rotate1)

text \<open>The sample of a round: the first keys met on the walk from a random bucket.\<close>

definition round_sample :: "key list list \<Rightarrow> nat \<Rightarrow> db \<Rightarrow> key list" where
  "round_sample bs sample_size d =
     take sample_size (walk bs (length bs) (minstd_next (rng d) mod length bs))"

lemma expire_round_eq:
  "expire_round bs sample_size d =
     (let s = round_sample bs sample_size d;
          doomed = filter (is_doomed (kmap d) (clk d 0)) s
      in (length s, doomed,
          foldl reclaim ((snd (now_ms d))\<lparr>rng := minstd_next (rng d)\<rparr>) doomed))"
  by (simp add: expire_round_def now_ms_def scan_buckets_eq round_sample_def Let_def)

lemma round_sample_layout:
  assumes "is_layout V bs"
  shows "distinct (round_sample bs sample_size d)" "set (round_sample bs sample_size d) \<subseteq> fset V"
    "length (round_sample bs sample_size d) = min sample_size (fcard V)"
    "fcard V \<le> sample_size \<Longrightarrow> set (round_sample bs sample_size d) = fset V"
proof -
  let ?b = "minstd_next (rng d) mod length bs"
  let ?w = "walk bs (length bs) ?b"
  have b: "?b < length bs" using assms by (simp add: is_layout_def)
  have w: "?w = concat (rotate ?b bs)" using walk_rotate [OF b order_refl] by simp
  have "mset ?w = mset (concat bs)"
    unfolding w mset_concat rotate_map [symmetric] sum_mset_sum_list [symmetric] by (simp add: mset_rotate)
  then have d: "distinct ?w" and s: "set ?w = fset V"
    using assms by (auto simp: is_layout_def dest: mset_eq_setD mset_eq_imp_distinct_iff)
  then have l: "length ?w = fcard V" by (metis distinct_card fcard.rep_eq)
  show "distinct (round_sample bs sample_size d)" using d by (simp add: round_sample_def)
  show "set (round_sample bs sample_size d) \<subseteq> fset V"
    using s by (auto simp: round_sample_def dest: in_set_takeD)
  show "length (round_sample bs sample_size d) = min sample_size (fcard V)"
    using l by (simp add: round_sample_def min.commute)
  show "set (round_sample bs sample_size d) = fset V" if "fcard V \<le> sample_size"
    using that l s by (simp add: round_sample_def)
qed

lemma length_round_sample: "length (round_sample bs sample_size d) \<le> sample_size"
  by (simp add: round_sample_def)

subsection \<open>Deleting the doomed keys\<close>

lemma foldl_reclaim_fields:
  "fmlookup (kmap (foldl reclaim d ks)) k = (if k \<in> set ks then None else fmlookup (kmap d) k)"
  "clk (foldl reclaim d ks) = clk d"
  "volatile_keys (foldl reclaim d ks) = volatile_keys d |-| fset_of_list ks"
  "expired_count (foldl reclaim d ks) = expired_count d + word_of_nat (length ks)"
proof (induction ks arbitrary: d)
  case (Cons x ks)
  {
    case 1
    then show ?case using Cons(1) [of "reclaim d x"] by (simp add: reclaim_def)
  next
    case 2
    then show ?case using Cons(2) [of "reclaim d x"] by (simp add: reclaim_def)
  next
    case 3
    then show ?case using Cons(3) [of "reclaim d x"] by (auto simp: reclaim_def)
  next
    case 4
    then show ?case using Cons(4) [of "reclaim d x"] by (simp add: reclaim_def algebra_simps)
  }
qed simp_all

lemma db_inv_foldl_reclaim: "db_inv d \<Longrightarrow> db_inv (foldl reclaim d ks)"
  by (induction ks arbitrary: d) (simp_all add: db_inv_reclaim)

lemma db_size_foldl_reclaim:
  assumes "distinct ks" "set ks \<subseteq> fset (fmdom (kmap d))"
  shows "db_size (foldl reclaim d ks) + length ks = db_size d"
proof -
  have "fmdom (kmap (foldl reclaim d ks)) = fmdom (kmap d) |-| fset_of_list ks"
    by (rule fset_eqI) (auto simp: fmlookup_dom_iff fset_of_list_elem foldl_reclaim_fields split: if_splits)
  moreover have "fset_of_list ks |\<subseteq>| fmdom (kmap d)"
    using assms(2) by (auto simp: fset_of_list_elem)
  moreover have "fcard (fset_of_list ks) = length ks"
    using assms(1) by (simp add: fcard.rep_eq fset_of_list.rep_eq distinct_card)
  ultimately show ?thesis
    using fcard_mono [of "fset_of_list ks" "fmdom (kmap d)"]
    by (simp add: db_size_def fcard_funion_fsubset)
qed

lemma visible_foldl_reclaim:
  assumes "\<forall>k \<in> set ks. is_doomed (kmap d) now k" "now \<le> t"
  shows "visible (foldl reclaim d ks) t = visible d t"
  using assms
  by (fastforce simp: visible_def fun_eq_iff foldl_reclaim_fields is_doomed_def
      split: option.splits dest: is_expired_mono)

subsection \<open>One round\<close>

lemma expire_round_facts:
  assumes "expire_round bs sample_size d = (sampled, doomed, d')"
  shows "clk d' = (\<lambda>i. clk d (Suc i))"
    and "clk d 0 \<le> t \<Longrightarrow> visible d' t = visible d t"
    and "db_inv d \<Longrightarrow> db_inv d'"
    and "length doomed \<le> sampled" and "sampled \<le> sample_size"
    and "expired_count d' = expired_count d + word_of_nat (length doomed)"
    and "fmlookup (kmap d') k = Some v \<Longrightarrow> fmlookup (kmap d) k = Some v"
proof -
  let ?d = "(snd (now_ms d))\<lparr>rng := minstd_next (rng d)\<rparr>"
  have eq: "doomed = filter (is_doomed (kmap d) (clk d 0)) (round_sample bs sample_size d)"
    "sampled = length (round_sample bs sample_size d)" "d' = foldl reclaim ?d doomed"
    using assms by (auto simp: expire_round_eq Let_def)
  have vis: "visible ?d t = visible d t" by (simp add: visible_def fun_eq_iff)
  show "clk d' = (\<lambda>i. clk d (Suc i))" by (simp add: eq(3) foldl_reclaim_fields fun_eq_iff)
  show "visible d' t = visible d t" if "clk d 0 \<le> t"
  proof -
    have "\<forall>k \<in> set doomed. is_doomed (kmap ?d) (clk d 0) k" by (simp add: eq(1))
    then show ?thesis using visible_foldl_reclaim [of doomed ?d "clk d 0" t] that vis eq(3) by simp
  qed
  show "db_inv d'" if "db_inv d"
  proof -
    have "db_inv ?d" using that by (simp add: db_inv_def)
    then show ?thesis by (simp add: eq(3) db_inv_foldl_reclaim)
  qed
  show "length doomed \<le> sampled" by (simp add: eq(1,2))
  show "sampled \<le> sample_size" by (simp add: eq(2) length_round_sample)
  show "expired_count d' = expired_count d + word_of_nat (length doomed)"
    by (simp add: eq(3) foldl_reclaim_fields)
  show "fmlookup (kmap d) k = Some v" if "fmlookup (kmap d') k = Some v"
    using that by (simp add: eq(3) foldl_reclaim_fields split: if_splits)
qed

lemma expire_round_layout:
  assumes "expire_round bs sample_size d = (sampled, doomed, d')" "is_layout (volatile_keys d) bs" "db_inv d"
  shows "db_size d' + length doomed = db_size d"
    and "fcard (volatile_keys d) \<le> sample_size \<Longrightarrow> fmlookup (kmap d') k = Some v \<Longrightarrow>
           \<not> is_expired v (clk d 0)"
proof -
  let ?d = "(snd (now_ms d))\<lparr>rng := minstd_next (rng d)\<rparr>"
  let ?s = "round_sample bs sample_size d"
  note s = round_sample_layout [OF assms(2), of sample_size d]
  have eq: "doomed = filter (is_doomed (kmap d) (clk d 0)) ?s" "d' = foldl reclaim ?d doomed"
    using assms(1) by (auto simp: expire_round_eq Let_def)
  have "set doomed \<subseteq> fset (volatile_keys d)" using s(2) by (auto simp: eq(1))
  also have "\<dots> \<subseteq> fset (fmdom (kmap ?d))"
    using assms(3) by (auto simp: db_inv_def fmlookup_dom_iff)
  finally have "db_size d' + length doomed = db_size ?d"
    unfolding eq(2) using s(1) by (intro db_size_foldl_reclaim) (auto simp: eq(1))
  then show "db_size d' + length doomed = db_size d" by (simp add: db_size_def)
  assume "fcard (volatile_keys d) \<le> sample_size" "fmlookup (kmap d') k = Some v"
  then have "set ?s = fset (volatile_keys d)" "k \<notin> set doomed" "fmlookup (kmap d) k = Some v"
    using s(4) by (auto simp: eq(2) foldl_reclaim_fields split: if_splits)
  moreover have "k \<in> fset (volatile_keys d)" if "is_expired v (clk d 0)"
    using that assms(3) \<open>fmlookup (kmap d) k = Some v\<close> by (auto simp: db_inv_def is_expired_def)
  ultimately show "\<not> is_expired v (clk d 0)" by (auto simp: eq(1) is_doomed_def)
qed

subsection \<open>The whole cycle\<close>

lemma expire_rounds_step:
  assumes "volatile_keys d \<noteq> {||}"
    "expire_round (lay (kMaxRounds - Suc n) (volatile_keys d)) sample_size d = (sampled, doomed, d')"
  shows "expire_rounds lay sample_size (Suc n) reclaimed d =
    (if sampled = 0 \<or> length doomed * 4 \<le> sampled then (reclaimed + length doomed, d')
     else expire_rounds lay sample_size n (reclaimed + length doomed) d')"
  using assms by (simp add: Let_def)

text \<open>
  Each fact about the loop is an induction on the rounds left; the round itself contributes one
  fact of \<open>expire_round_facts\<close>. \<open>expire_rounds_induct\<close> is that induction: a relation between the
  state before and after that holds of doing nothing and is kept by one more round in front.
\<close>

lemma expire_rounds_induct:
  assumes "expire_rounds lay sample_size n r d = (r', d')"
    and refl: "\<And>n r d. P n r d r d"
    and round: "\<And>n r d sampled doomed d1 r' d'.
      volatile_keys d \<noteq> {||} \<Longrightarrow>
      expire_round (lay (kMaxRounds - Suc n) (volatile_keys d)) sample_size d = (sampled, doomed, d1) \<Longrightarrow>
      P n (r + length doomed) d1 r' d' \<Longrightarrow> P (Suc n) r d r' d'"
  shows "P n r d r' d'"
  using assms(1)
proof (induction n arbitrary: r d)
  case 0
  then show ?case using refl by simp
next
  case (Suc n)
  show ?case
  proof (cases "volatile_keys d = {||}")
    case True
    then show ?thesis using Suc.prems refl by simp
  next
    case False
    obtain sampled doomed d1 where e:
      "expire_round (lay (kMaxRounds - Suc n) (volatile_keys d)) sample_size d = (sampled, doomed, d1)"
      by (metis prod_cases3)
    note step = expire_rounds_step [of d lay n sample_size sampled doomed d1 r, OF False e]
    have "P n (r + length doomed) d1 r' d'"
    proof (cases "sampled = 0 \<or> length doomed * 4 \<le> sampled")
      case True
      then have "r' = r + length doomed" "d' = d1"
        using Suc.prems step by auto
      then show ?thesis using refl by simp
    next
      case more: False
      then show ?thesis
        using Suc.prems step by (intro Suc.IH) simp
    qed
    with False e show ?thesis by (rule round)
  qed
qed

lemma expire_rounds_visible:
  assumes "expire_rounds lay sample_size n r d = (r', d')"
  shows "(\<forall>i < n. clk d i \<le> t) \<longrightarrow> visible d' t = visible d t"
proof (rule expire_rounds_induct [OF assms, where P = "\<lambda>n r d r' d'.
      (\<forall>i < n. clk d i \<le> t) \<longrightarrow> visible d' t = visible d t"], goal_cases)
  case (2 n r d sampled doomed d1 r' d')
  then show ?case using expire_round_facts(1,2) [OF 2(2)] by auto
qed simp

lemma expire_rounds_inv:
  assumes "expire_rounds lay sample_size n r d = (r', d')"
  shows "db_inv d \<longrightarrow> db_inv d'"
  by (rule expire_rounds_induct [OF assms, where P = "\<lambda>n r d r' d'. db_inv d \<longrightarrow> db_inv d'"])
     (auto dest: expire_round_facts(3))

lemma expire_rounds_count:
  assumes "expire_rounds lay sample_size n r d = (r', d')"
  shows "r \<le> r' \<and> r' \<le> r + n * sample_size \<and>
    expired_count d' = expired_count d + word_of_nat (r' - r)"
proof (rule expire_rounds_induct [OF assms, where P = "\<lambda>n r d r' d'. r \<le> r' \<and>
      r' \<le> r + n * sample_size \<and> expired_count d' = expired_count d + word_of_nat (r' - r)"], goal_cases)
  case (2 n r d sampled doomed d1 r' d')
  note f = expire_round_facts(4,5,6) [OF 2(2)]
  obtain m where m: "r' = r + length doomed + m" using 2(3) by (metis le_add_diff_inverse)
  with 2(3) f show ?case by (simp add: algebra_simps)
qed simp

definition lays_out :: "(nat \<Rightarrow> key fset \<Rightarrow> key list list) \<Rightarrow> bool" where
  "lays_out lay \<longleftrightarrow> (\<forall>i S. S \<noteq> {||} \<longrightarrow> is_layout S (lay i S))"

lemma expire_rounds_size:
  assumes "expire_rounds lay sample_size n r d = (r', d')" "lays_out lay"
  shows "db_inv d \<longrightarrow> db_size d' + r' = db_size d + r"
proof (rule expire_rounds_induct [OF assms(1), where P = "\<lambda>n r d r' d'.
      db_inv d \<longrightarrow> db_size d' + r' = db_size d + r"], goal_cases)
  case (2 n r d sampled doomed d1 r' d')
  have "is_layout (volatile_keys d) (lay (kMaxRounds - Suc n) (volatile_keys d))"
    using assms(2) 2(1) by (simp add: lays_out_def)
  then show ?case using 2(3) expire_round_layout(1) [OF 2(2)] expire_round_facts(3) [OF 2(2)] by auto
qed simp

lemma expire_rounds_only_removes:
  assumes "expire_rounds lay sample_size n r d = (r', d')"
  shows "fmlookup (kmap d') k = Some v \<longrightarrow> fmlookup (kmap d) k = Some v"
  by (rule expire_rounds_induct [OF assms, where P = "\<lambda>n r d r' d'.
        fmlookup (kmap d') k = Some v \<longrightarrow> fmlookup (kmap d) k = Some v"])
     (auto dest: expire_round_facts(7))

lemma expire_rounds_clock:
  assumes "expire_rounds lay sample_size n r d = (r', d')"
  shows "\<exists>j. clk d' = (\<lambda>i. clk d (j + i))"
proof (rule expire_rounds_induct [OF assms, where P = "\<lambda>n r d r' d'. \<exists>j. clk d' = (\<lambda>i. clk d (j + i))"], goal_cases)
  case (1 n r d)
  show ?case by (rule exI [of _ 0]) simp
next
  case (2 n r d sampled doomed d1 r' d')
  then obtain j where "clk d' = (\<lambda>i. clk d1 (j + i))" by blast
  then show ?case
    using expire_round_facts(1) [OF 2(2)] by (intro exI [of _ "Suc j"]) (simp add: fun_eq_iff)
qed

text \<open>A sample that covers the whole index leaves nothing behind that was dead at its start.\<close>

lemma expire_rounds_complete:
  assumes "expire_rounds lay sample_size (Suc n) r d = (r', d')" "lays_out lay" "db_inv d"
    "fcard (volatile_keys d) \<le> sample_size" "fmlookup (kmap d') k = Some v"
  shows "\<not> is_expired v (clk d 0)"
proof (cases "volatile_keys d = {||}")
  case True
  then have "d' = d" using assms(1) by simp
  with assms(3,5) True show ?thesis by (auto simp: db_inv_def is_expired_def)
next
  case False
  let ?bs = "lay (kMaxRounds - Suc n) (volatile_keys d)"
  obtain sampled doomed d1 where e: "expire_round ?bs sample_size d = (sampled, doomed, d1)"
    by (metis prod_cases3)
  note step = expire_rounds_step [of d lay n sample_size sampled doomed d1 r, OF False e]
  have "is_layout (volatile_keys d) ?bs" using assms(2) False by (simp add: lays_out_def)
  then have dead: "fmlookup (kmap d1) k = Some v \<Longrightarrow> \<not> is_expired v (clk d 0)"
    using expire_round_layout(2) [OF e] assms(3,4) by blast
  have "fmlookup (kmap d1) k = Some v"
    using assms(1) [unfolded step] assms(5)
      expire_rounds_only_removes [of lay sample_size n "r + length doomed" d1 r' d' k v]
    by (simp split: if_splits)
  then show ?thesis by (rule dead)
qed

lemma active_expire_cycle_cases:
  obtains (idle) "n = 0" "active_expire_cycle lay n d = (0, d)"
  | (cycle) r d' where "0 < n" "active_expire_cycle lay n d = (r, d')" "expire_rounds lay n kMaxRounds 0 d = (r, d')"
  by (cases "n = 0"; cases "expire_rounds lay n kMaxRounds 0 d") (auto simp: active_expire_cycle_def)

subsection \<open>Properties\<close>

text \<open>
  C14: active expiry is safe. Whatever the hash table's layout and the random start, a cycle keeps the
  invariant of the volatile index, alters nothing that is stored, and removes nothing that could
  be seen at any time the clock has reached by the end of the cycle or later.
\<close>

theorem active_expire_safe:
  assumes "active_expire_cycle lay n d = (r, d')" "db_inv d" "\<forall>i < kMaxRounds. clk d i \<le> t"
  shows "db_inv d' \<and> visible d' t = visible d t \<and>
    (\<forall>k v. fmlookup (kmap d') k = Some v \<longrightarrow> fmlookup (kmap d) k = Some v)"
proof (cases rule: active_expire_cycle_cases [of n lay d])
  case idle
  then show ?thesis using assms by simp
next
  case (cycle r1 d1)
  then have e: "expire_rounds lay n kMaxRounds 0 d = (r, d')" using assms(1) by simp
  show ?thesis
    using assms(2,3) expire_rounds_inv [OF e] expire_rounds_visible [OF e, of t] expire_rounds_only_removes [OF e]
    by blast
qed

text \<open>A concrete layout: all keys in one bucket, in lexicographic order.\<close>

definition sorted_layout :: "nat \<Rightarrow> key fset \<Rightarrow> key list list" where
  "sorted_layout i S = [sorted_list_of_fset S]"

lemma lays_out_sorted: "lays_out sorted_layout"
  by (simp add: lays_out_def is_layout_def sorted_layout_def sorted_list_of_fset.rep_eq)

theorem active_expire_safe_witness:
  "\<exists>r d'. active_expire_cycle sorted_layout 20 (set_string (new_db 1 (\<lambda>i. 9)) ''k'' ''v'' 5) = (r, d') \<and> db_inv d'"
proof -
  let ?d = "set_string (new_db 1 (\<lambda>i. 9)) ''k'' ''v'' 5"
  obtain r d' where e: "active_expire_cycle sorted_layout 20 ?d = (r, d')" by fastforce
  have "db_inv ?d" by (simp add: db_inv_set_string db_inv_new)
  moreover have "\<forall>i < kMaxRounds. clk ?d i \<le> 9" by (simp add: set_string_def new_db_def)
  ultimately show ?thesis using active_expire_safe [OF e, of 9] e by blast
qed

text \<open>
  Active expiry keeps its books and its bound. The number returned is the number of keys that
  left the keyspace and the amount by which the 64 bit counter moved, and a cycle removes no more
  than 16 samples' worth of keys.
\<close>

theorem active_expire_accounting:
  assumes "active_expire_cycle lay n d = (r, d')" "db_inv d" "lays_out lay"
  shows "db_size d' + r = db_size d \<and> expired_count d' = expired_count d + word_of_nat r \<and> r \<le> 16 * n"
proof (cases rule: active_expire_cycle_cases [of n lay d])
  case idle
  then show ?thesis using assms by simp
next
  case (cycle r1 d1)
  then have e: "expire_rounds lay n kMaxRounds 0 d = (r, d')" using assms(1) by simp
  show ?thesis
    using assms(2) expire_rounds_size [OF e assms(3)] expire_rounds_count [OF e] by (simp add: kMaxRounds_def)
qed

theorem active_expire_accounting_witness:
  "\<exists>r d'. active_expire_cycle sorted_layout 20 (set_string (new_db 1 (\<lambda>i. 9)) ''k'' ''v'' 5) = (r, d') \<and>
     db_size d' + r = db_size (set_string (new_db 1 (\<lambda>i. 9)) ''k'' ''v'' 5)"
proof -
  let ?d = "set_string (new_db 1 (\<lambda>i. 9)) ''k'' ''v'' 5"
  obtain r d' where e: "active_expire_cycle sorted_layout 20 ?d = (r, d')" by fastforce
  have "db_inv ?d" by (simp add: db_inv_set_string db_inv_new)
  from active_expire_accounting [OF e this lays_out_sorted] e show ?thesis by blast
qed

text \<open>
  C25: active expiry reclaims memory without any access to the keys. When the sample is at least as
  large as the volatile index, no key that was past its deadline at the start of the cycle is
  left in the keyspace after it.
\<close>

theorem active_expire_complete:
  assumes "active_expire_cycle lay n d = (r, d')" "db_inv d" "lays_out lay" "0 < n" "volatile_size d \<le> n"
    "fmlookup (kmap d') k = Some v"
  shows "\<not> is_expired v (clk d 0)"
proof (cases rule: active_expire_cycle_cases [of n lay d])
  case idle
  then show ?thesis using assms(4) by simp
next
  case (cycle r1 d1)
  moreover have "kMaxRounds = Suc 15" by (simp add: kMaxRounds_def)
  ultimately have e: "expire_rounds lay n (Suc 15) 0 d = (r, d')" using assms(1) by simp
  show ?thesis using expire_rounds_complete [OF e assms(3,2) _ assms(6)] assms(5) by (simp add: volatile_size_def)
qed

theorem active_expire_complete_witness:
  "fmlookup (kmap (snd (active_expire_cycle sorted_layout 1 (set_string (new_db 1 (\<lambda>i. 9)) ''k'' ''v'' 5)))) ''k'' \<noteq>
     Some \<lparr>vtype = StringType, vdata = ''v'', expire_at = 5\<rparr>"
proof
  let ?d = "set_string (new_db 1 (\<lambda>i. 9)) ''k'' ''v'' 5" and ?v = "\<lparr>vtype = StringType, vdata = ''v'', expire_at = 5\<rparr>"
  assume a: "fmlookup (kmap (snd (active_expire_cycle sorted_layout 1 ?d))) ''k'' = Some ?v"
  obtain r d' where e: "active_expire_cycle sorted_layout 1 ?d = (r, d')" by fastforce
  have "db_inv ?d" by (simp add: db_inv_set_string db_inv_new)
  moreover have "volatile_size ?d \<le> 1"
    by (simp add: volatile_size_def set_string_def new_db_def kNoExpiry_def fcard_finsert)
  ultimately have "\<not> is_expired ?v (clk ?d 0)"
    using active_expire_complete [OF e _ lays_out_sorted, of "''k''" ?v] a e by simp
  then show False by (simp add: is_expired_def has_expiry_def kNoExpiry_def set_string_def new_db_def)
qed

text \<open>
  The calls a keyspace can see over its life; \<open>OpWrite\<close> is a lookup with a write through the
  pointer it returned, as \<^verbatim>\<open>INCR\<close> does it.
\<close>

datatype db_op =
    OpLookup key | OpWrite key bytes | OpSet key bytes int | OpErase key | OpExpireAt key int | OpPersist key
  | OpPttl key | OpClear | OpCycle nat

fun run_db_op :: "(nat \<Rightarrow> key fset \<Rightarrow> key list list) \<Rightarrow> db \<Rightarrow> db_op \<Rightarrow> db" where
  "run_db_op lay d (OpLookup k) = snd (lookup d k)"
| "run_db_op lay d (OpWrite k data) = (case lookup d k of (None, d) \<Rightarrow> d | (Some v, d) \<Rightarrow> write_data d k v data)"
| "run_db_op lay d (OpSet k data dl) = set_string d k data dl"
| "run_db_op lay d (OpErase k) = snd (erase d k)"
| "run_db_op lay d (OpExpireAt k dl) = snd (set_expire_at d k dl)"
| "run_db_op lay d (OpPersist k) = snd (persist d k)"
| "run_db_op lay d (OpPttl k) = snd (pttl d k)"
| "run_db_op lay d OpClear = db_clear d"
| "run_db_op lay d (OpCycle n) = snd (active_expire_cycle lay n d)"

text \<open>
  The index when \<^verbatim>\<open>set_expire_at\<close> may have been called with the deadline \<^verbatim>\<open>kNoExpiry\<close> for the keys of
  \<open>S\<close>: the call takes the deadline away and files the key as volatile all the same.
\<close>

definition index_but :: "key set \<Rightarrow> db \<Rightarrow> bool" where
  "index_but S d \<longleftrightarrow>
     (\<forall>k v. fmlookup (kmap d) k = Some v \<and> has_expiry v \<longrightarrow> k |\<in>| volatile_keys d) \<and>
     (\<forall>k. k |\<in>| volatile_keys d \<longrightarrow> (\<exists>v. fmlookup (kmap d) k = Some v \<and> (has_expiry v \<or> k \<in> S)))"

lemma index_but_mono: "index_but S d \<Longrightarrow> S \<subseteq> T \<Longrightarrow> index_but T d"
  unfolding index_but_def by blast

lemma index_but_reclaim: "index_but S d \<Longrightarrow> index_but S (foldl reclaim d ks)"
  by (auto simp: index_but_def foldl_reclaim_fields fset_of_list_elem split: if_splits)

lemma index_but_lookup:
  assumes "index_but S d" shows "index_but S (snd (lookup d k))"
proof (cases rule: lookup_cases [of d k])
  case (dead v)
  have "index_but S (snd (now_ms d))" using assms by (simp add: index_but_def)
  then show ?thesis using dead(3) index_but_reclaim [of S "snd (now_ms d)" "[k]"] by simp
qed (use assms in \<open>simp_all add: index_but_def\<close>)

lemma index_but_rounds:
  assumes "expire_rounds lay sample_size n r d = (r', d')"
  shows "index_but S d \<longrightarrow> index_but S d'"
proof (rule expire_rounds_induct [OF assms, where P = "\<lambda>n r d r' d'. index_but S d \<longrightarrow> index_but S d'"])
  fix n r d sampled doomed d1 r' d'
  assume e: "expire_round (lay (kMaxRounds - Suc n) (volatile_keys d)) sample_size d = (sampled, doomed, d1)"
    and ih: "index_but S d1 \<longrightarrow> index_but S d'"
  have "index_but S ((snd (now_ms d))\<lparr>rng := minstd_next (rng d)\<rparr>)" if "index_but S d"
    using that by (simp add: index_but_def)
  then show "index_but S d \<longrightarrow> index_but S d'"
    using e ih index_but_reclaim by (auto simp: expire_round_eq Let_def)
qed simp

lemma run_db_op_index:
  assumes "index_but S d" shows "index_but (S \<union> {k. x = OpExpireAt k kNoExpiry}) (run_db_op lay d x)"
proof -
  note l = index_but_lookup [OF assms]
  have "index_but S (run_db_op lay d x)" if "\<forall>k. x \<noteq> OpExpireAt k kNoExpiry"
  proof (cases x)
    case (OpCycle n)
    then show ?thesis
      using assms index_but_rounds [of lay n kMaxRounds 0 d] by (cases rule: active_expire_cycle_cases [of n lay d]) auto
  next
    case (OpWrite k data)
    obtain ov d1 where d1: "lookup d k = (ov, d1)" by fastforce
    have "index_but S (write_data d1 k v data)" if "ov = Some v" for v
      using l [of k] d1 that lookup_Some_stored [of d k v d1] by (auto simp: index_but_def write_data_def has_expiry_def)
    then show ?thesis using OpWrite l [of k] d1 by (cases ov) auto
  next
    case (OpExpireAt k dl)
    then show ?thesis using l [of k] that
      by (auto simp: set_expire_at_def index_but_def has_expiry_def split: prod.splits option.splits)
  next
    case (OpPttl k)
    then show ?thesis using l [of k]
      by (auto simp: pttl_def index_but_def now_ms_def Let_def split: prod.splits option.splits)
  next
    case (OpErase k)
    then show ?thesis using l [of k] by (auto simp: erase_def index_but_def split: prod.splits option.splits)
  next
    case (OpPersist k)
    then show ?thesis using l [of k]
      by (auto simp: persist_def index_but_def has_expiry_def split: prod.splits option.splits)
  qed (use assms l in \<open>auto simp: index_but_def set_string_def db_clear_def has_expiry_def\<close>)
  moreover have "index_but (insert k S) (snd (set_expire_at d k kNoExpiry))" for k
    using l [of k] by (auto simp: set_expire_at_def index_but_def has_expiry_def split: prod.splits option.splits)
  ultimately show ?thesis
    by (cases "\<exists>k. x = OpExpireAt k kNoExpiry") (auto simp del: run_db_op.simps(1-4,6-9) elim: index_but_mono)
qed

text \<open>
  C15: the volatile index is never out of step. After any sequence of keyspace operations, writes
  through a looked-up pointer and expiry cycles on a new keyspace, with any clock at all, even one
  that runs backwards: every stored key that has a deadline is in the index, so that it can be
  sampled; every key in the index is stored, so that the index is never larger than the keyspace;
  and it has a deadline, unless the sequence called \<^verbatim>\<open>set_expire_at\<close> on that very key with
  \<^verbatim>\<open>kNoExpiry\<close>, the one call that files a key without a deadline. Where no such call was made
  the index is exactly the set of stored keys with a deadline.
\<close>

theorem volatile_index_exact:
  assumes "d = foldl (run_db_op lay) (new_db seed c) ops"
  shows "((\<exists>v. fmlookup (kmap d) k = Some v \<and> has_expiry v) \<longrightarrow> k |\<in>| volatile_keys d) \<and>
    (k |\<in>| volatile_keys d \<longrightarrow>
       (\<exists>v. fmlookup (kmap d) k = Some v \<and> (has_expiry v \<or> OpExpireAt k kNoExpiry \<in> set ops))) \<and>
    volatile_size d \<le> db_size d"
proof -
  have inv: "index_but {k. OpExpireAt k kNoExpiry \<in> set ops} d"
    using assms
  proof (induction ops arbitrary: d rule: rev_induct)
    case Nil
    then show ?case by (simp add: index_but_def new_db_def)
  next
    case (snoc x ops)
    let ?S = "{k. OpExpireAt k kNoExpiry \<in> set ops}"
    have "?S \<union> {k. x = OpExpireAt k kNoExpiry} \<subseteq> {k. OpExpireAt k kNoExpiry \<in> set (ops @ [x])}" by auto
    from index_but_mono [OF run_db_op_index [OF snoc.IH [OF refl]] this] show ?case using snoc.prems by simp
  qed
  then have "volatile_keys d |\<subseteq>| fmdom (kmap d)" by (auto simp: index_but_def fmlookup_dom_iff)
  then show ?thesis using inv by (auto simp: index_but_def volatile_size_def db_size_def fcard_mono)
qed

theorem volatile_index_exact_witness:
  "\<exists>v. fmlookup (kmap (foldl (run_db_op sorted_layout) (new_db 1 (\<lambda>i. 9)) [OpSet ''k'' ''v'' 50, OpWrite ''k'' ''w''])) ''k'' = Some v \<and>
     has_expiry v"
proof -
  let ?ops = "[OpSet ''k'' ''v'' 50, OpWrite ''k'' ''w'']"
  have "''k'' |\<in>| volatile_keys (foldl (run_db_op sorted_layout) (new_db 1 (\<lambda>i. 9)) ?ops)"
    by (simp add: set_string_def lookup_def write_data_def now_ms_def new_db_def kNoExpiry_def is_expired_def has_expiry_def)
  with volatile_index_exact [OF refl, of sorted_layout 1 "\<lambda>i. 9" ?ops "''k''"] show ?thesis by auto
qed

text \<open>The exception is real: the call leaves a key without a deadline in the index.\<close>

lemma no_expiry_is_filed:
  "fst (set_expire_at d k kNoExpiry) \<Longrightarrow>
     k |\<in>| volatile_keys (snd (set_expire_at d k kNoExpiry)) \<and>
     (\<exists>v. fmlookup (kmap (snd (set_expire_at d k kNoExpiry))) k = Some v \<and> \<not> has_expiry v)"
  by (auto simp: set_expire_at_def has_expiry_def split: prod.splits option.splits)

end
