(* ===== verification/Commands.thy ===== *)
theory Commands
  imports Writer Expiry "HOL-Library.AList"
begin

text \<open>
  The command layer: \<^verbatim>\<open>src/cmd/table.h\<close>, \<^verbatim>\<open>table.cpp\<close>, \<^verbatim>\<open>commands.h\<close> and the handlers of
  \<^verbatim>\<open>connection.cpp\<close>, \<^verbatim>\<open>string.cpp\<close>, \<^verbatim>\<open>keyspace.cpp\<close> and \<^verbatim>\<open>server.cpp\<close> under \<^verbatim>\<open>src/cmd\<close>. A handler is a
  function from the command context to the context it leaves behind. Function pointers are
  names: the table maps a command name to the name of its handler, and \<open>run_handler\<close> is the
  indirect call. That is also what lets COMMAND COUNT ask for the size of the table it is in.
\<close>

subsection \<open>The context\<close>

record cmd_ctx =
  cargv :: "bytes list"
  cout :: buffer
  cdb :: db
  close_after_reply :: bool

definition say :: "cmd_ctx \<Rightarrow> reply \<Rightarrow> cmd_ctx" where
  "say c r = c\<lparr>cout := write_reply (cout c) r\<rparr>"

definition say_ok :: "cmd_ctx \<Rightarrow> cmd_ctx" where
  "say_ok c = c\<lparr>cout := reply_ok (cout c)\<rparr>"

definition err_kNotInteger :: bytes where
  "err_kNotInteger = ''ERR value is not an integer or out of range''"

definition err_kSyntax :: bytes where
  "err_kSyntax = ''ERR syntax error''"

definition err_kWrongType :: bytes where
  "err_kWrongType = ''WRONGTYPE Operation against a key holding the wrong kind of value''"

definition quoted :: "bytes \<Rightarrow> bytes" where
  "quoted s = [SQUOTE] @ s @ [SQUOTE]"

definition to_lower_ascii :: "bytes \<Rightarrow> bytes" where
  "to_lower_ascii s =
     map (\<lambda>c. if 65 \<le> byte_val c \<and> byte_val c \<le> 90 then char_of (byte_val c - 65 + 97) else c) s"

text \<open>\<^verbatim>\<open>ttl_to_deadline\<close>: \<open>None\<close> is the \<^verbatim>\<open>return false\<close> of an overflow.\<close>

definition ttl_to_deadline :: "int \<Rightarrow> int \<Rightarrow> int \<Rightarrow> int option" where
  "ttl_to_deadline amount unit_ms now =
     (if amount > INT64_MAX sdiv unit_ms \<or> amount < INT64_MIN sdiv unit_ms then None
      else let delta = amount * unit_ms in
        if delta > 0 \<and> now > INT64_MAX - delta then None
        else if delta < 0 \<and> now < INT64_MIN - delta then None
        else Some (now + delta))"

subsection \<open>Connection commands\<close>

definition cmd_ping :: "cmd_ctx \<Rightarrow> cmd_ctx" where
  "cmd_ping c =
     (if length (cargv c) = 1 then say c (RSimple ''PONG'')
      else if length (cargv c) = 2 then say c (RBulk (cargv c ! 1))
      else say c (RError (''ERR wrong number of arguments for '' @ quoted ''ping'' @ '' command'')))"

definition cmd_echo :: "cmd_ctx \<Rightarrow> cmd_ctx" where
  "cmd_echo c = say c (RBulk (cargv c ! 1))"

definition cmd_quit :: "cmd_ctx \<Rightarrow> cmd_ctx" where
  "cmd_quit c = (say_ok c)\<lparr>close_after_reply := True\<rparr>"

subsection \<open>String commands\<close>

record set_opts =
  opt_nx :: bool
  opt_xx :: bool
  opt_has_ttl :: bool
  opt_unit_ms :: int
  opt_amount :: int

definition no_opts :: set_opts where
  "no_opts = \<lparr>opt_nx = False, opt_xx = False, opt_has_ttl = False, opt_unit_ms = 0, opt_amount = 0\<rparr>"

definition err_set_expire :: bytes where
  "err_set_expire = ''ERR invalid expire time in '' @ quoted ''set'' @ '' command''"

text \<open>
  The option loop of \<^verbatim>\<open>cmd_set\<close> over \<^verbatim>\<open>argv[3..]\<close>. \<open>Inl\<close> is the error reply with which the handler
  returns early.
\<close>

fun set_options :: "bytes list \<Rightarrow> set_opts \<Rightarrow> bytes + set_opts" where
  "set_options [] s = Inr s"
| "set_options (a # rest) s =
     (let opt = to_lower_ascii a in
      if opt = ''nx'' \<and> \<not> opt_xx s \<and> \<not> opt_nx s then set_options rest (s\<lparr>opt_nx := True\<rparr>)
      else if opt = ''xx'' \<and> \<not> opt_nx s \<and> \<not> opt_xx s then set_options rest (s\<lparr>opt_xx := True\<rparr>)
      else if (opt = ''ex'' \<or> opt = ''px'') \<and> \<not> opt_has_ttl s \<and> rest \<noteq> []
      then (case string_to_int64 (rest ! 0) of
              None \<Rightarrow> Inl err_kNotInteger
            | Some amount \<Rightarrow>
                if amount \<le> 0 then Inl err_set_expire
                else set_options (drop 1 rest)
                       (s\<lparr>opt_amount := amount, opt_unit_ms := (if opt = ''ex'' then 1000 else 1),
                          opt_has_ttl := True\<rparr>))
      else Inl err_kSyntax)"

definition cmd_set :: "cmd_ctx \<Rightarrow> cmd_ctx" where
  "cmd_set c =
     (let key = cargv c ! 1 in
      case set_options (drop 3 (cargv c)) no_opts of
        Inl e \<Rightarrow> say c (RError e)
      | Inr s \<Rightarrow>
          (let (v, d) = lookup (cdb c) key;
               exists = (v \<noteq> None);
               c = c\<lparr>cdb := d\<rparr>
           in if (opt_nx s \<and> exists) \<or> (opt_xx s \<and> \<not> exists) then say c RNull
              else if opt_has_ttl s
              then (let (now, d) = now_ms (cdb c);
                        c = c\<lparr>cdb := d\<rparr>
                    in case ttl_to_deadline (opt_amount s) (opt_unit_ms s) now of
                         None \<Rightarrow> say c (RError err_set_expire)
                       | Some deadline \<Rightarrow>
                           say_ok (c\<lparr>cdb := set_string (cdb c) key (cargv c ! 2) deadline\<rparr>))
              else say_ok (c\<lparr>cdb := set_string (cdb c) key (cargv c ! 2) kNoExpiry\<rparr>)))"

definition cmd_get :: "cmd_ctx \<Rightarrow> cmd_ctx" where
  "cmd_get c =
     (let (v, d) = lookup (cdb c) (cargv c ! 1);
          c = c\<lparr>cdb := d\<rparr>
      in case v of
           None \<Rightarrow> say c RNull
         | Some v \<Rightarrow> if vtype v \<noteq> StringType then say c (RError err_kWrongType)
                     else say c (RBulk (vdata v)))"

definition incr_by :: "cmd_ctx \<Rightarrow> int \<Rightarrow> cmd_ctx" where
  "incr_by c delta =
     (let key = cargv c ! 1;
          (v, d) = lookup (cdb c) key;
          c = c\<lparr>cdb := d\<rparr>
      in case v of
           None \<Rightarrow>
             say (c\<lparr>cdb := set_string (cdb c) key (std_to_string delta) kNoExpiry\<rparr>) (RInt delta)
         | Some v \<Rightarrow>
             if vtype v \<noteq> StringType then say c (RError err_kWrongType)
             else (case string_to_int64 (vdata v) of
                     None \<Rightarrow> say c (RError err_kNotInteger)
                   | Some cur \<Rightarrow>
                       if (if delta > 0 then cur > INT64_MAX - delta else cur < INT64_MIN - delta)
                       then say c (RError ''ERR increment or decrement would overflow'')
                       else say (c\<lparr>cdb := write_data (cdb c) key v (std_to_string (cur + delta))\<rparr>)
                              (RInt (cur + delta))))"

definition cmd_incr :: "cmd_ctx \<Rightarrow> cmd_ctx" where
  "cmd_incr c = incr_by c 1"

definition cmd_decr :: "cmd_ctx \<Rightarrow> cmd_ctx" where
  "cmd_decr c = incr_by c (- 1)"

subsection \<open>Keyspace commands\<close>

fun del_loop :: "bytes list \<Rightarrow> int \<Rightarrow> db \<Rightarrow> int \<times> db" where
  "del_loop [] deleted d = (deleted, d)"
| "del_loop (k # ks) deleted d =
     (let (gone, d) = erase d k in del_loop ks (if gone then deleted + 1 else deleted) d)"

definition cmd_del :: "cmd_ctx \<Rightarrow> cmd_ctx" where
  "cmd_del c =
     (let (deleted, d) = del_loop (drop 1 (cargv c)) 0 (cdb c) in say (c\<lparr>cdb := d\<rparr>) (RInt deleted))"

fun exists_loop :: "bytes list \<Rightarrow> int \<Rightarrow> db \<Rightarrow> int \<times> db" where
  "exists_loop [] found d = (found, d)"
| "exists_loop (k # ks) found d =
     (let (v, d) = lookup d k in exists_loop ks (if v \<noteq> None then found + 1 else found) d)"

definition cmd_exists :: "cmd_ctx \<Rightarrow> cmd_ctx" where
  "cmd_exists c =
     (let (found, d) = exists_loop (drop 1 (cargv c)) 0 (cdb c) in say (c\<lparr>cdb := d\<rparr>) (RInt found))"

definition cmd_type :: "cmd_ctx \<Rightarrow> cmd_ctx" where
  "cmd_type c =
     (let (v, d) = lookup (cdb c) (cargv c ! 1)
      in say (c\<lparr>cdb := d\<rparr>) (RSimple (case v of None \<Rightarrow> ''none'' | Some v \<Rightarrow> type_name (vtype v))))"

definition cmd_expire :: "cmd_ctx \<Rightarrow> cmd_ctx" where
  "cmd_expire c =
     (case string_to_int64 (cargv c ! 2) of
        None \<Rightarrow> say c (RError err_kNotInteger)
      | Some seconds \<Rightarrow>
          (let key = cargv c ! 1;
               (v, d) = lookup (cdb c) key;
               c = c\<lparr>cdb := d\<rparr>
           in if v = None then say c (RInt 0)
              else if seconds \<le> 0 then say (c\<lparr>cdb := snd (erase (cdb c) key)\<rparr>) (RInt 1)
              else (let (now, d) = now_ms (cdb c);
                        c = c\<lparr>cdb := d\<rparr>
                    in case ttl_to_deadline seconds 1000 now of
                         None \<Rightarrow>
                           say c (RError (''ERR invalid expire time in '' @ quoted ''expire'' @ '' command''))
                       | Some deadline \<Rightarrow>
                           say (c\<lparr>cdb := snd (set_expire_at (cdb c) key deadline)\<rparr>) (RInt 1))))"

definition cmd_ttl :: "cmd_ctx \<Rightarrow> cmd_ctx" where
  "cmd_ttl c =
     (let (ms, d) = pttl (cdb c) (cargv c ! 1);
          c = c\<lparr>cdb := d\<rparr>
      in if ms < 0 then say c (RInt ms) else say c (RInt ((ms + 500) sdiv 1000)))"

definition cmd_persist :: "cmd_ctx \<Rightarrow> cmd_ctx" where
  "cmd_persist c =
     (let (b, d) = persist (cdb c) (cargv c ! 1) in say (c\<lparr>cdb := d\<rparr>) (RInt (if b then 1 else 0)))"

subsection \<open>The command table\<close>

datatype handler =
    CmdPing | CmdEcho | CmdQuit
  | CmdSet | CmdGet | CmdIncr | CmdDecr
  | CmdDel | CmdExists | CmdType | CmdExpire | CmdTtl | CmdPersist
  | CmdDbsize | CmdFlushall | CmdCommand

record command =
  cmd_name :: bytes
  cmd_handler :: handler
  cmd_arity :: int

type_synonym command_table = "(bytes \<times> command) list"

definition table_add :: "bytes \<Rightarrow> handler \<Rightarrow> int \<Rightarrow> command_table \<Rightarrow> command_table" where
  "table_add nm h a t = AList.update nm \<lparr>cmd_name = nm, cmd_handler = h, cmd_arity = a\<rparr> t"

definition register_connection_commands :: "command_table \<Rightarrow> command_table" where
  "register_connection_commands t =
     table_add ''quit'' CmdQuit 1 (table_add ''echo'' CmdEcho 2 (table_add ''ping'' CmdPing (- 1) t))"

definition register_string_commands :: "command_table \<Rightarrow> command_table" where
  "register_string_commands t =
     table_add ''decr'' CmdDecr 2 (table_add ''incr'' CmdIncr 2
       (table_add ''get'' CmdGet 2 (table_add ''set'' CmdSet (- 3) t)))"

definition register_keyspace_commands :: "command_table \<Rightarrow> command_table" where
  "register_keyspace_commands t =
     table_add ''persist'' CmdPersist 2 (table_add ''ttl'' CmdTtl 2 (table_add ''expire'' CmdExpire 3
       (table_add ''type'' CmdType 2 (table_add ''exists'' CmdExists (- 2)
         (table_add ''del'' CmdDel (- 2) t)))))"

definition register_server_commands :: "command_table \<Rightarrow> command_table" where
  "register_server_commands t =
     table_add ''command'' CmdCommand (- 1) (table_add ''flushall'' CmdFlushall (- 1)
       (table_add ''dbsize'' CmdDbsize 1 t))"

text \<open>\<^verbatim>\<open>CommandTable::instance()\<close>: the constructor's registrations, in its order.\<close>

definition the_table :: command_table where
  "the_table =
     register_server_commands (register_keyspace_commands
       (register_string_commands (register_connection_commands [])))"

definition table_find :: "bytes \<Rightarrow> command option" where
  "table_find nm = map_of the_table (to_lower_ascii nm)"

definition table_size :: nat where
  "table_size = length the_table"

subsection \<open>Server commands\<close>

definition cmd_dbsize :: "cmd_ctx \<Rightarrow> cmd_ctx" where
  "cmd_dbsize c = say c (RInt (int (db_size (cdb c))))"

definition cmd_flushall :: "cmd_ctx \<Rightarrow> cmd_ctx" where
  "cmd_flushall c =
     (if length (cargv c) > 2 then say c (RError err_kSyntax)
      else if length (cargv c) = 2 \<and> to_lower_ascii (cargv c ! 1) \<noteq> ''async'' \<and>
              to_lower_ascii (cargv c ! 1) \<noteq> ''sync''
      then say c (RError err_kSyntax)
      else say_ok (c\<lparr>cdb := db_clear (cdb c)\<rparr>))"

definition cmd_command :: "cmd_ctx \<Rightarrow> cmd_ctx" where
  "cmd_command c =
     (if length (cargv c) \<ge> 2 \<and> to_lower_ascii (cargv c ! 1) = ''count''
      then say c (RInt (int table_size))
      else say c (RArray 0))"

subsection \<open>Dispatch\<close>

fun run_handler :: "handler \<Rightarrow> cmd_ctx \<Rightarrow> cmd_ctx" where
  "run_handler CmdPing = cmd_ping"
| "run_handler CmdEcho = cmd_echo"
| "run_handler CmdQuit = cmd_quit"
| "run_handler CmdSet = cmd_set"
| "run_handler CmdGet = cmd_get"
| "run_handler CmdIncr = cmd_incr"
| "run_handler CmdDecr = cmd_decr"
| "run_handler CmdDel = cmd_del"
| "run_handler CmdExists = cmd_exists"
| "run_handler CmdType = cmd_type"
| "run_handler CmdExpire = cmd_expire"
| "run_handler CmdTtl = cmd_ttl"
| "run_handler CmdPersist = cmd_persist"
| "run_handler CmdDbsize = cmd_dbsize"
| "run_handler CmdFlushall = cmd_flushall"
| "run_handler CmdCommand = cmd_command"

text \<open>The reply to an unknown command quotes up to three arguments, cut to 32 bytes each.\<close>

definition unknown_command_msg :: "bytes list \<Rightarrow> bytes" where
  "unknown_command_msg argv =
     ''ERR unknown command '' @ quoted (argv ! 0) @ '', with args beginning with: '' @
     concat (map (\<lambda>a. quoted (take 32 a) @ '', '') (take 3 (drop 1 argv)))"

definition arity_ok :: "int \<Rightarrow> nat \<Rightarrow> bool" where
  "arity_ok arity argc \<longleftrightarrow> (if arity \<ge> 0 then int argc = arity else int argc \<ge> - arity)"

definition dispatch :: "cmd_ctx \<Rightarrow> cmd_ctx" where
  "dispatch c =
     (case table_find (cargv c ! 0) of
        None \<Rightarrow> say c (RError (unknown_command_msg (cargv c)))
      | Some cmd \<Rightarrow>
          if \<not> arity_ok (cmd_arity cmd) (length (cargv c))
          then say c (RError (''ERR wrong number of arguments for '' @ quoted (cmd_name cmd) @ '' command''))
          else run_handler (cmd_handler cmd) c)"

end
