(* ===== verification/Framing.thy ===== *)
theory Framing
  imports Commands
begin

text \<open>
  What every command keeps: the keyspace invariant, the ranges of the stored numbers, and the
  framing of the reply stream, to which each dispatched command adds exactly one reply.
\<close>

subsection \<open>Well-formed contexts\<close>

definition value_ok :: "kvalue \<Rightarrow> bool" where
  "value_ok v \<longleftrightarrow> in_int64 (int (length (vdata v))) \<and> in_int64 (expire_at v)"

text \<open>
  The clock reads at least half a second after the epoch, so that rounding a TTL up by 500 ms
  cannot leave the range of \<^verbatim>\<open>int64_t\<close>.
\<close>

definition clock_ok :: "(nat \<Rightarrow> int) \<Rightarrow> bool" where
  "clock_ok c \<longleftrightarrow> (\<forall>i. 500 \<le> c i \<and> c i \<le> INT64_MAX)"

definition db_ok :: "db \<Rightarrow> bool" where
  "db_ok d \<longleftrightarrow> db_inv d \<and> (\<forall>k v. fmlookup (kmap d) k = Some v \<longrightarrow> value_ok v) \<and> clock_ok (clk d)"

definition argv_ok :: "bytes list \<Rightarrow> bool" where
  "argv_ok argv \<longleftrightarrow> int (length argv) \<le> INT64_MAX \<and> (\<forall>a \<in> set argv. int (length a) \<le> INT64_MAX)"

definition ctx_ok :: "cmd_ctx \<Rightarrow> bool" where
  "ctx_ok c \<longleftrightarrow> buf_ok (cout c) \<and> db_ok (cdb c) \<and> argv_ok (cargv c)"

lemma db_okD: "db_ok d \<Longrightarrow> fmlookup (kmap d) k = Some v \<Longrightarrow> value_ok v"
  by (simp add: db_ok_def)

lemma clock_ok_reading: "db_ok d \<Longrightarrow> 500 \<le> clk d i \<and> clk d i \<le> INT64_MAX"
  by (simp add: db_ok_def clock_ok_def)

lemma db_ok_now_ms [simp]: "db_ok d \<Longrightarrow> db_ok (snd (now_ms d))"
  by (simp add: db_ok_def clock_ok_def)

lemma db_ok_reclaim: "db_ok d \<Longrightarrow> db_ok (reclaim d k)"
  by (auto simp: db_ok_def db_inv_reclaim reclaim_def clock_ok_def
      simp del: fmdrop_lookup split: if_splits) (auto simp: db_inv_def split: if_splits)

lemma db_ok_lookup: "db_ok d \<Longrightarrow> db_ok (snd (lookup d k))"
  by (cases rule: lookup_cases [of d k]) (simp_all add: db_ok_reclaim)

lemma lookup_value_ok: "db_ok d \<Longrightarrow> lookup d k = (Some v, d') \<Longrightarrow> value_ok v"
  by (cases rule: lookup_cases [of d k]) (auto dest: db_okD)

lemma lookup_db_ok: "db_ok d \<Longrightarrow> lookup d k = (ov, d') \<Longrightarrow> db_ok d'"
  using db_ok_lookup [of d k] by simp

lemma now_ms_db_ok: "db_ok d \<Longrightarrow> now_ms d = (now, d') \<Longrightarrow> db_ok d' \<and> 500 \<le> now \<and> now \<le> INT64_MAX"
  using db_ok_now_ms [of d] clock_ok_reading [of d 0] by (auto simp: now_ms_def)

text \<open>An update of one entry together with the index keeps the invariant.\<close>

lemma db_ok_set_string:
  "db_ok d \<Longrightarrow> int (length data) \<le> INT64_MAX \<Longrightarrow> in_int64 dl \<Longrightarrow> db_ok (set_string d k data dl)"
  using db_inv_set_string [of d k data dl]
  by (auto simp: db_ok_def value_ok_def set_string_def in_int64_def split: if_splits)

lemma db_ok_erase: "db_ok d \<Longrightarrow> db_ok (snd (erase d k))"
  using db_inv_erase [of d k] db_ok_lookup [of d k]
  by (auto simp: db_ok_def erase_def split: prod.splits option.splits)

lemma db_ok_set_expire_at:
  "db_ok d \<Longrightarrow> in_int64 dl \<Longrightarrow> dl \<noteq> kNoExpiry \<Longrightarrow> db_ok (snd (set_expire_at d k dl))"
  using db_inv_set_expire_at [of d dl k] db_ok_lookup [of d k] lookup_value_ok [of d k]
  by (auto simp: db_ok_def set_expire_at_def value_ok_def split: prod.splits option.splits)

lemma db_ok_persist: "db_ok d \<Longrightarrow> db_ok (snd (persist d k))"
  using db_inv_persist [of d k] db_ok_lookup [of d k] lookup_value_ok [of d k]
  by (auto simp: db_ok_def persist_def value_ok_def in_int64_def kNoExpiry_def split: prod.splits option.splits)

lemma db_ok_clear: "db_ok d \<Longrightarrow> db_ok (db_clear d)"
  by (simp add: db_ok_def db_inv_clear) (simp add: db_clear_def)

lemma db_ok_write_data:
  "db_ok d \<Longrightarrow> fmlookup (kmap d) k = Some v \<Longrightarrow> int (length data) \<le> INT64_MAX \<Longrightarrow> db_ok (write_data d k v data)"
  using db_inv_write_data [of d k v data]
  by (auto simp: db_ok_def value_ok_def write_data_def in_int64_def)

lemma pttl_db_ok:
  assumes "db_ok d" "pttl d k = (ms, d')"
  shows "db_ok d'" "- 2 \<le> ms" "ms + 500 \<le> INT64_MAX"
proof -
  obtain ov d1 where l: "lookup d k = (ov, d1)" by fastforce
  have d1: "db_ok d1" using assms(1) l by (rule lookup_db_ok)
  have *: "db_ok d' \<and> - 2 \<le> ms \<and> ms + 500 \<le> INT64_MAX"
  proof (cases "\<exists>v. ov = Some v \<and> has_expiry v")
    case False
    then show ?thesis
      using assms(2) l d1 by (auto simp: pttl_def kNoKey_def kNoTtl_def split: option.splits)
  next
    case True
    then obtain v where v: "ov = Some v" "has_expiry v" by blast
    obtain now d2 where n: "now_ms d1 = (now, d2)" by fastforce
    have "expire_at v \<le> INT64_MAX"
      using lookup_value_ok [OF assms(1)] l v by (auto simp: value_ok_def in_int64_def)
    moreover have "db_ok d2" "500 \<le> now" using now_ms_db_ok [OF d1 n] by auto
    ultimately show ?thesis using assms(2) l v n by (auto simp: pttl_def Let_def split: if_splits)
  qed
  from * show "db_ok d'" "- 2 \<le> ms" "ms + 500 \<le> INT64_MAX" by auto
qed

subsection \<open>ttl_to_deadline\<close>

lemma ttl_to_deadline_exact:
  assumes "0 < amount" "in_int64 amount" "unit_ms = 1000 \<or> unit_ms = 1" "0 \<le> now" "in_int64 now"
  shows "ttl_to_deadline amount unit_ms now =
    (if now + amount * unit_ms \<le> INT64_MAX then Some (now + amount * unit_ms) else None)"
proof -
  have "INT64_MAX sdiv 1000 = 9223372036854775" "INT64_MAX sdiv 1 = INT64_MAX"
    "INT64_MIN sdiv 1000 = - 9223372036854775" "INT64_MIN sdiv 1 = INT64_MIN"
    by (simp_all add: sdiv_pos_eq sdiv_neg_eq)
  then show ?thesis
    using assms by (auto simp: ttl_to_deadline_def in_int64_def Let_def)
qed

definition opts_ok :: "set_opts \<Rightarrow> bool" where
  "opts_ok s \<longleftrightarrow> (opt_has_ttl s \<longrightarrow>
     0 < opt_amount s \<and> in_int64 (opt_amount s) \<and> (opt_unit_ms s = 1000 \<or> opt_unit_ms s = 1))"

lemma opts_ok_simps [simp]:
  "opts_ok no_opts" "opts_ok (s\<lparr>opt_nx := b\<rparr>) = opts_ok s" "opts_ok (s\<lparr>opt_xx := b\<rparr>) = opts_ok s"
  by (simp_all add: opts_ok_def no_opts_def)

lemma set_options_ok: "set_options args s = Inr s' \<Longrightarrow> opts_ok s \<Longrightarrow> opts_ok s'"
proof (induction args s rule: set_options.induct)
  case (2 a rest s)
  then show ?case
    by (auto simp: Let_def string_to_int64_exact opts_ok_def [of "_\<lparr>opt_has_ttl := True\<rparr>"]
        split: if_splits option.splits)
qed simp

lemma deadline_ok:
  assumes "ttl_to_deadline amount unit_ms now = Some dl" "0 < amount" "in_int64 amount"
    "unit_ms = 1000 \<or> unit_ms = 1" "500 \<le> now" "now \<le> INT64_MAX"
  shows "in_int64 dl" "dl = now + amount * unit_ms" "now < dl" "dl \<noteq> kNoExpiry"
proof -
  have "0 < amount * unit_ms" using assms(2,4) by auto
  moreover have "ttl_to_deadline amount unit_ms now =
      (if now + amount * unit_ms \<le> INT64_MAX then Some (now + amount * unit_ms) else None)"
    using assms by (intro ttl_to_deadline_exact) (auto simp: in_int64_def)
  ultimately show "in_int64 dl" "dl = now + amount * unit_ms" "now < dl" "dl \<noteq> kNoExpiry"
    using assms(1,5) by (auto simp: in_int64_def kNoExpiry_def split: if_splits)
qed

subsection \<open>One reply per handler\<close>

definition one_reply :: "cmd_ctx \<Rightarrow> cmd_ctx \<Rightarrow> bool" where
  "one_reply c c' \<longleftrightarrow> cargv c' = cargv c \<and> buf_ok (cout c') \<and> db_ok (cdb c') \<and>
     (\<exists>r. wf_reply r \<and> buf_contents (cout c') = buf_contents (cout c) @ encode_reply r)"

lemma one_reply_say:
  assumes "buf_ok (cout c)" "db_ok d" "wf_reply r"
  shows "one_reply c (say (c\<lparr>cdb := d\<rparr>) r)"
  using assms rs.emit_contents [of "cout c" r] rs.emit_invar [of "cout c" r]
  by (auto simp: one_reply_def say_def)

lemma one_reply_say_same: "buf_ok (cout c) \<Longrightarrow> db_ok (cdb c) \<Longrightarrow> wf_reply r \<Longrightarrow> one_reply c (say c r)"
  using one_reply_say [of c "cdb c" r] by simp

lemma one_reply_say_ok:
  assumes "buf_ok (cout c)" "db_ok d"
  shows "one_reply c (say_ok (c\<lparr>cdb := d\<rparr>))"
proof -
  have "\<exists>r. wf_reply r \<and> buf_contents (reply_ok (cout c)) = buf_contents (cout c) @ encode_reply r"
    using reply_ok_eq [OF assms(1)] by (intro exI [of _ "RSimple ''OK''"]) simp
  then show ?thesis using assms by (simp add: one_reply_def say_ok_def)
qed

lemmas one_reply_intros = one_reply_say one_reply_say_same one_reply_say_ok

lemma wf_error_texts [simp]:
  "crlf_pos err_kNotInteger = None" "crlf_pos err_kSyntax = None" "crlf_pos err_kWrongType = None"
  "crlf_pos err_set_expire = None"
  by (simp_all add: err_kNotInteger_def err_kSyntax_def err_kWrongType_def err_set_expire_def quoted_def)

lemma set_options_error: "set_options args s = Inl e \<Longrightarrow> crlf_pos e = None"
proof (induction args s rule: set_options.induct)
  case (2 a rest s)
  then show ?case by (auto simp: Let_def split: if_splits option.splits)
qed simp

lemma argv_nth_ok: "argv_ok argv \<Longrightarrow> i < length argv \<Longrightarrow> in_int64 (int (length (argv ! i)))"
  by (auto simp: argv_ok_def in_int64_def)

lemma cmd_ping_one_reply: "ctx_ok c \<Longrightarrow> one_reply c (cmd_ping c)"
  unfolding cmd_ping_def
  by (auto simp: ctx_ok_def quoted_def argv_nth_ok intro!: one_reply_intros)

lemma cmd_echo_one_reply: "ctx_ok c \<Longrightarrow> length (cargv c) = 2 \<Longrightarrow> one_reply c (cmd_echo c)"
  unfolding cmd_echo_def by (auto simp: ctx_ok_def argv_nth_ok intro!: one_reply_intros)

lemma cmd_quit_one_reply: "ctx_ok c \<Longrightarrow> one_reply c (cmd_quit c)"
  using one_reply_say_ok [of c "cdb c"] by (simp add: ctx_ok_def cmd_quit_def one_reply_def)

lemma cmd_set_one_reply:
  assumes "ctx_ok c" "3 \<le> length (cargv c)"
  shows "one_reply c (cmd_set c)"
proof -
  have ok: "buf_ok (cout c)" "db_ok (cdb c)" "argv_ok (cargv c)" using assms by (auto simp: ctx_ok_def)
  have data: "int (length (cargv c ! 2)) \<le> INT64_MAX"
    using argv_nth_ok [OF ok(3), of 2] assms(2) by (simp add: in_int64_def)
  obtain ov d where l: "lookup (cdb c) (cargv c ! 1) = (ov, d)" by fastforce
  have d: "db_ok d" using ok(2) l by (rule lookup_db_ok)
  obtain now d2 where n: "now_ms d = (now, d2)" by fastforce
  have d2: "db_ok d2" "500 \<le> now" "now \<le> INT64_MAX" using now_ms_db_ok [OF d n] by auto
  show ?thesis
  proof (cases "set_options (drop 3 (cargv c)) no_opts")
    case (Inl e)
    then have "crlf_pos e = None" by (rule set_options_error)
    then show ?thesis using Inl ok by (auto simp: cmd_set_def Let_def intro!: one_reply_intros)
  next
    case (Inr s)
    then have s: "opts_ok s" by (rule set_options_ok) simp
    have "db_ok (set_string d2 (cargv c ! 1) (cargv c ! 2) dl)"
      if "opt_has_ttl s" "ttl_to_deadline (opt_amount s) (opt_unit_ms s) now = Some dl" for dl
      using deadline_ok [OF that(2)] s that(1) d2 data
      by (intro db_ok_set_string) (auto simp: opts_ok_def)
    moreover have "db_ok (set_string d (cargv c ! 1) (cargv c ! 2) kNoExpiry)"
      using d data by (intro db_ok_set_string) (auto simp: in_int64_def kNoExpiry_def)
    ultimately show ?thesis
      using Inr l n d d2 ok
      by (auto simp: cmd_set_def Let_def intro!: one_reply_intros split: option.split)
  qed
qed

lemma cmd_get_one_reply:
  assumes "ctx_ok c" shows "one_reply c (cmd_get c)"
proof -
  have ok: "buf_ok (cout c)" "db_ok (cdb c)" using assms by (auto simp: ctx_ok_def)
  obtain ov d where l: "lookup (cdb c) (cargv c ! 1) = (ov, d)" by fastforce
  have d: "db_ok d" using ok(2) l by (rule lookup_db_ok)
  show ?thesis
    using l d ok lookup_value_ok [OF ok(2)]
    by (auto simp: cmd_get_def value_ok_def Let_def intro!: one_reply_intros split: option.split)
qed

lemma incr_by_one_reply:
  assumes "ctx_ok c" "delta = 1 \<or> delta = - 1" shows "one_reply c (incr_by c delta)"
proof -
  have ok: "buf_ok (cout c)" "db_ok (cdb c)" using assms by (auto simp: ctx_ok_def)
  obtain ov d where l: "lookup (cdb c) (cargv c ! 1) = (ov, d)" by fastforce
  have d: "db_ok d" using ok(2) l by (rule lookup_db_ok)
  have len: "int (length (std_to_string n)) \<le> INT64_MAX" if "in_int64 n" for n
    using length_std_to_string [OF that] by simp
  have "db_ok (set_string d (cargv c ! 1) (std_to_string delta) kNoExpiry)"
    using d len [of delta] assms(2) by (intro db_ok_set_string) (auto simp: in_int64_def kNoExpiry_def)
  moreover have "db_ok (write_data d (cargv c ! 1) v (std_to_string n))"
    if "ov = Some v" "in_int64 n" for v n
    using d len [OF that(2)] lookup_Some_stored [of "cdb c" "cargv c ! 1" v d] l that(1)
    by (intro db_ok_write_data) auto
  ultimately show ?thesis
    using l d ok assms(2)
    by (auto simp: incr_by_def Let_def in_int64_def string_to_int64_exact intro!: one_reply_intros
        split: option.split)
qed

lemma del_loop_ok:
  "db_ok d \<Longrightarrow> del_loop ks n d = (m, d') \<Longrightarrow> db_ok d' \<and> n \<le> m \<and> m \<le> n + int (length ks)"
proof (induction ks n d rule: del_loop.induct)
  case (2 k ks n d)
  obtain g d1 where e: "erase d k = (g, d1)" by fastforce
  then have "db_ok d1" using db_ok_erase [OF "2.prems"(1), of k] by simp
  with 2 e show ?case by (fastforce split: if_splits)
qed simp

lemma exists_loop_ok:
  "db_ok d \<Longrightarrow> exists_loop ks n d = (m, d') \<Longrightarrow> db_ok d' \<and> n \<le> m \<and> m \<le> n + int (length ks)"
proof (induction ks n d rule: exists_loop.induct)
  case (2 k ks n d)
  obtain v d1 where e: "lookup d k = (v, d1)" by fastforce
  then have "db_ok d1" using lookup_db_ok [OF "2.prems"(1)] by simp
  with 2 e show ?case by (fastforce split: if_splits)
qed simp

lemma cmd_del_one_reply:
  assumes "ctx_ok c" shows "one_reply c (cmd_del c)"
proof -
  obtain m d where e: "del_loop (drop 1 (cargv c)) 0 (cdb c) = (m, d)" by fastforce
  then show ?thesis
    using assms del_loop_ok [of "cdb c" _ 0 m d]
    by (fastforce simp: cmd_del_def ctx_ok_def argv_ok_def in_int64_def intro!: one_reply_intros)
qed

lemma cmd_exists_one_reply:
  assumes "ctx_ok c" shows "one_reply c (cmd_exists c)"
proof -
  obtain m d where e: "exists_loop (drop 1 (cargv c)) 0 (cdb c) = (m, d)" by fastforce
  then show ?thesis
    using assms exists_loop_ok [of "cdb c" _ 0 m d]
    by (fastforce simp: cmd_exists_def ctx_ok_def argv_ok_def in_int64_def intro!: one_reply_intros)
qed

lemma cmd_type_one_reply:
  assumes "ctx_ok c" shows "one_reply c (cmd_type c)"
proof -
  obtain ov d where l: "lookup (cdb c) (cargv c ! 1) = (ov, d)" by fastforce
  have "crlf_pos (type_name t) = None" for t by (cases t) simp
  then show ?thesis
    using assms l lookup_db_ok [of "cdb c" _ ov d]
    by (auto simp: cmd_type_def ctx_ok_def intro!: one_reply_intros split: option.split)
qed

lemma cmd_expire_one_reply:
  assumes "ctx_ok c" shows "one_reply c (cmd_expire c)"
proof -
  have ok: "buf_ok (cout c)" "db_ok (cdb c)" using assms by (auto simp: ctx_ok_def)
  obtain ov d where l: "lookup (cdb c) (cargv c ! 1) = (ov, d)" by fastforce
  have d: "db_ok d" using ok(2) l by (rule lookup_db_ok)
  obtain now d2 where n: "now_ms d = (now, d2)" by fastforce
  have d2: "db_ok d2" "500 \<le> now" "now \<le> INT64_MAX" using now_ms_db_ok [OF d n] by auto
  have "db_ok (snd (set_expire_at d2 (cargv c ! 1) dl))"
    if "string_to_int64 (cargv c ! 2) = Some secs" "0 < secs" "ttl_to_deadline secs 1000 now = Some dl" for secs dl
    using deadline_ok [OF that(3,2)] that(1) d2 by (intro db_ok_set_expire_at) (auto simp: string_to_int64_exact)
  then show ?thesis
    using l n d d2 ok db_ok_erase [OF d]
    by (auto simp: cmd_expire_def Let_def in_int64_def quoted_def intro!: one_reply_intros split: option.split)
qed

lemma cmd_ttl_one_reply:
  assumes "ctx_ok c" shows "one_reply c (cmd_ttl c)"
proof -
  obtain ms d where p: "pttl (cdb c) (cargv c ! 1) = (ms, d)" by fastforce
  have ms: "db_ok d" "- 2 \<le> ms" "ms + 500 \<le> INT64_MAX"
    using pttl_db_ok [OF _ p] assms by (auto simp: ctx_ok_def)
  have "in_int64 ((ms + 500) sdiv 1000)" if "0 \<le> ms"
    using ms that by (auto simp: sdiv_pos_eq in_int64_def)
  then show ?thesis
    using assms p ms by (auto simp: cmd_ttl_def ctx_ok_def in_int64_def Let_def intro!: one_reply_intros)
qed

lemma cmd_persist_one_reply:
  assumes "ctx_ok c" shows "one_reply c (cmd_persist c)"
proof -
  obtain b d where p: "persist (cdb c) (cargv c ! 1) = (b, d)" by fastforce
  then have "db_ok d" using assms db_ok_persist [of "cdb c" "cargv c ! 1"] by (simp add: ctx_ok_def)
  then show ?thesis
    using assms p by (auto simp: cmd_persist_def ctx_ok_def in_int64_def intro!: one_reply_intros)
qed

lemma cmd_dbsize_one_reply:
  "ctx_ok c \<Longrightarrow> int (db_size (cdb c)) \<le> INT64_MAX \<Longrightarrow> one_reply c (cmd_dbsize c)"
  by (auto simp: cmd_dbsize_def ctx_ok_def in_int64_def intro!: one_reply_intros)

lemma cmd_flushall_one_reply: "ctx_ok c \<Longrightarrow> one_reply c (cmd_flushall c)"
  by (auto simp: cmd_flushall_def ctx_ok_def db_ok_clear intro!: one_reply_intros)

subsection \<open>Dispatch\<close>

lemma the_table_eq:
  "the_table = map (\<lambda>(nm, h, a). (nm, \<lparr>cmd_name = nm, cmd_handler = h, cmd_arity = a\<rparr>))
    [(''ping'', CmdPing, - 1), (''echo'', CmdEcho, 2), (''quit'', CmdQuit, 1),
     (''set'', CmdSet, - 3), (''get'', CmdGet, 2), (''incr'', CmdIncr, 2), (''decr'', CmdDecr, 2),
     (''del'', CmdDel, - 2), (''exists'', CmdExists, - 2), (''type'', CmdType, 2),
     (''expire'', CmdExpire, 3), (''ttl'', CmdTtl, 2), (''persist'', CmdPersist, 2),
     (''dbsize'', CmdDbsize, 1), (''flushall'', CmdFlushall, - 1), (''command'', CmdCommand, - 1)]"
  by (simp add: the_table_def register_server_commands_def register_keyspace_commands_def
      register_string_commands_def register_connection_commands_def table_add_def)

lemma table_size_16: "table_size = 16"
  by (simp add: table_size_def the_table_eq)

lemma cmd_command_one_reply: "ctx_ok c \<Longrightarrow> one_reply c (cmd_command c)"
  by (auto simp: cmd_command_def ctx_ok_def table_size_16 in_int64_def intro!: one_reply_intros)

lemma table_find_cases:
  assumes "table_find nm = Some cmd"
  shows "(to_lower_ascii nm, cmd) \<in> set the_table" "cmd_name cmd = to_lower_ascii nm"
    "CR \<notin> set (cmd_name cmd)"
proof -
  show m: "(to_lower_ascii nm, cmd) \<in> set the_table"
    using assms by (simp add: table_find_def map_of_SomeD)
  then show "cmd_name cmd = to_lower_ascii nm" "CR \<notin> set (cmd_name cmd)"
    by (auto simp: the_table_eq)
qed

lemma run_handler_one_reply:
  assumes "ctx_ok c" "(nm, cmd) \<in> set the_table" "arity_ok (cmd_arity cmd) (length (cargv c))"
    "nm \<noteq> ''dbsize'' \<or> int (db_size (cdb c)) \<le> INT64_MAX"
  shows "one_reply c (run_handler (cmd_handler cmd) c)"
  using assms
  by (auto simp: the_table_eq arity_ok_def cmd_incr_def cmd_dbsize_one_reply cmd_decr_def
      intro: cmd_ping_one_reply cmd_echo_one_reply cmd_quit_one_reply cmd_set_one_reply cmd_get_one_reply
        incr_by_one_reply cmd_del_one_reply cmd_exists_one_reply cmd_type_one_reply cmd_expire_one_reply
        cmd_ttl_one_reply cmd_persist_one_reply cmd_dbsize_one_reply cmd_flushall_one_reply
        cmd_command_one_reply)

lemma unknown_msg_safe:
  assumes "\<forall>a \<in> set argv. CR \<notin> set a" "argv \<noteq> []"
  shows "crlf_pos (unknown_command_msg argv) = None"
proof (rule crlf_pos_no_CR_whole)
  have "CR \<notin> set (argv ! 0)" using assms by simp
  moreover have "CR \<notin> set (take 32 a)" if "a \<in> set (take 3 (drop 1 argv))" for a
    using that assms(1) by (meson in_set_dropD in_set_takeD)
  ultimately show "CR \<notin> set (unknown_command_msg argv)"
    by (auto simp: unknown_command_msg_def quoted_def)
qed

lemma dispatch_one_reply:
  assumes "ctx_ok c" "cargv c \<noteq> []"
    "table_find (cargv c ! 0) \<noteq> None \<or> (\<forall>a \<in> set (cargv c). CR \<notin> set a)"
    "to_lower_ascii (cargv c ! 0) \<noteq> ''dbsize'' \<or> int (db_size (cdb c)) \<le> INT64_MAX"
  shows "one_reply c (dispatch c)"
proof (cases "table_find (cargv c ! 0)")
  case None
  then have "crlf_pos (unknown_command_msg (cargv c)) = None"
    using assms by (intro unknown_msg_safe) auto
  then show ?thesis using assms None by (auto simp: dispatch_def ctx_ok_def intro!: one_reply_intros)
next
  case (Some cmd)
  note t = table_find_cases [OF Some]
  have "crlf_pos (''ERR wrong number of arguments for '' @ quoted (cmd_name cmd) @ '' command'') = None"
    using t(3) by (intro crlf_pos_no_CR_whole) (auto simp: quoted_def)
  then show ?thesis
    using assms(1) Some run_handler_one_reply [OF assms(1) t(1) _ assms(4)]
    by (auto simp: dispatch_def ctx_ok_def intro!: one_reply_intros)
qed

subsection \<open>Properties\<close>

text \<open>
  C13: one command, one reply. A dispatched command, known or not, well-formed or not, appends exactly
  one well-formed reply to the output, whatever is pending there, and keeps the keyspace in
  order. The one exception is excluded by the third premise: an unknown command is quoted back,
  and the quotation must not contain a line end.
\<close>

theorem dispatch_one_reply_each:
  assumes "ctx_ok c" "cargv c \<noteq> []"
    "table_find (cargv c ! 0) \<noteq> None \<or> (\<forall>a \<in> set (cargv c). CR \<notin> set a)"
    "int (db_size (cdb c)) \<le> INT64_MAX"
  shows "db_ok (cdb (dispatch c)) \<and> buf_ok (cout (dispatch c)) \<and>
    (\<exists>r. wf_reply r \<and> buf_contents (cout (dispatch c)) = buf_contents (cout c) @ encode_reply r \<and>
         decode_reply (encode_reply r) = Some (r, []))"
proof -
  have "one_reply c (dispatch c)" using assms by (intro dispatch_one_reply) auto
  then show ?thesis using decode_encode_reply [of _ "[]"] unfolding one_reply_def by fastforce
qed

lemma db_ok_new: "clock_ok c \<Longrightarrow> db_ok (new_db seed c)"
  by (simp add: db_ok_def db_inv_new) (simp add: new_db_def)

theorem dispatch_one_reply_each_witness:
  "\<exists>r. wf_reply r \<and>
     buf_contents (cout (dispatch \<lparr>cargv = [''nosuch'', ''x''], cout = new_buffer,
       cdb = new_db 1 (\<lambda>i. 1000), close_after_reply = False\<rparr>)) = encode_reply r"
proof -
  let ?c = "\<lparr>cargv = [''nosuch'', ''x''], cout = new_buffer, cdb = new_db 1 (\<lambda>i. 1000), close_after_reply = False\<rparr>"
  have "ctx_ok ?c" by (simp add: ctx_ok_def argv_ok_def db_ok_new clock_ok_def)
  moreover have "int (db_size (cdb ?c)) \<le> INT64_MAX" by (simp add: db_size_def new_db_def fcard.rep_eq)
  ultimately show ?thesis using dispatch_one_reply_each [of ?c] by auto
qed

text \<open>No name in the table has a carriage return in it.\<close>

lemma table_find_no_CR: "CR \<in> set nm \<Longrightarrow> table_find nm = None"
proof -
  assume "CR \<in> set nm"
  then have "CR \<in> set (to_lower_ascii nm)" by (force simp: to_lower_ascii_def byte_val_def)
  then show ?thesis by (auto simp: table_find_def the_table_eq)
qed

text \<open>
  C37: the exception is real. The name of an unknown command is copied into the error line as it is, so
  a client can make the server send a reply of the client's own choosing. For any reply \<open>r\<close> at all:
  a command whose name has a line end in it and the encoding of \<open>r\<close> behind that, whatever else is
  in the name or in its arguments, is answered with bytes that a client decodes to an error that
  stops where the line end was, and then to \<open>r\<close>, with still more bytes to follow.
\<close>

theorem unknown_command_splits_reply:
  assumes "buf_ok (cout c)" "cargv c = (x @ CRLF @ encode_reply r @ y) # args" "CR \<notin> set x" "wf_reply r"
  shows "\<exists>bs. buf_contents (cout (dispatch c)) = buf_contents (cout c) @ bs \<and>
    decode_replies 2 bs = Some ([RError (''ERR unknown command '' @ [SQUOTE] @ x), r],
      y @ [SQUOTE] @ '', with args beginning with: '' @
      concat (map (\<lambda>a. quoted (take 32 a) @ '', '') (take 3 args)) @ CRLF)"
proof -
  let ?e = "''ERR unknown command '' @ [SQUOTE] @ x" and ?m = "unknown_command_msg (cargv c)"
  let ?t = "y @ [SQUOTE] @ '', with args beginning with: '' @ concat (map (\<lambda>a. quoted (take 32 a) @ '', '') (take 3 args)) @ CRLF"
  have m: "''-'' @ ?m @ CRLF = encode_reply (RError ?e) @ encode_reply r @ ?t"
    using assms(2) by (simp add: unknown_command_msg_def quoted_def)
  have "table_find (cargv c ! 0) = None" using assms(2) by (intro table_find_no_CR) simp
  then have "buf_contents (cout (dispatch c)) = buf_contents (cout c) @ ''-'' @ ?m @ CRLF"
    using assms(1) by (simp add: dispatch_def say_def reply_error_def Let_def)
  moreover have "wf_reply (RError ?e)" using assms(3) by (simp add: crlf_pos_no_CR_whole)
  then have "decode_replies 2 (''-'' @ ?m @ CRLF) = Some ([RError ?e, r], ?t)"
    unfolding m using assms(4) by (simp add: numeral_2_eq_2 decode_encode_reply del: encode_reply.simps wf_reply.simps)
  ultimately show ?thesis by blast
qed

theorem unknown_command_splits_reply_witness:
  "\<exists>bs. buf_contents (cout (dispatch \<lparr>cargv = [''x'' @ CRLF @ ''+OK'' @ CRLF], cout = new_buffer,
      cdb = new_db 1 (\<lambda>i. 500), close_after_reply = False\<rparr>)) = bs \<and>
    decode_replies 2 bs = Some ([RError (''ERR unknown command '' @ [SQUOTE] @ ''x''), RSimple ''OK''],
      [SQUOTE] @ '', with args beginning with: '' @ CRLF)"
  using unknown_command_splits_reply [of "\<lparr>cargv = [''x'' @ CRLF @ ''+OK'' @ CRLF], cout = new_buffer,
      cdb = new_db 1 (\<lambda>i. 500), close_after_reply = False\<rparr>" "''x''" "RSimple ''OK''" "[]" "[]"] by simp

text \<open>
  A time to live becomes a deadline without overflow. For a positive amount of seconds or
  milliseconds and any clock reading from the epoch on, the result is the exact sum, and it is
  refused exactly when that sum does not fit \<^verbatim>\<open>int64_t\<close>.
\<close>

theorem ttl_to_deadline_correct:
  assumes "0 < amount" "in_int64 amount" "unit_ms = 1000 \<or> unit_ms = 1" "0 \<le> now" "in_int64 now"
  shows "ttl_to_deadline amount unit_ms now =
    (if now + amount * unit_ms \<le> INT64_MAX then Some (now + amount * unit_ms) else None)"
  using assms by (rule ttl_to_deadline_exact)

theorem ttl_to_deadline_correct_witness:
  "ttl_to_deadline 9223372036854775807 1000 1700000000000 = None"
  using ttl_to_deadline_correct [of 9223372036854775807 1000 1700000000000] by (simp add: in_int64_def)

text \<open>
  The command table. It has 16 commands, finds each of them in any mixture of upper and lower
  case, and finds nothing else.
\<close>

theorem command_table_exact:
  "table_size = 16 \<and> (table_find nm \<noteq> None \<longleftrightarrow> to_lower_ascii nm \<in>
     {''ping'', ''echo'', ''quit'', ''set'', ''get'', ''incr'', ''decr'', ''del'', ''exists'', ''type'',
      ''expire'', ''ttl'', ''persist'', ''dbsize'', ''flushall'', ''command''})"
  by (simp add: table_size_16 table_find_def map_of_eq_None_iff the_table_eq)

end
