(* ===== verification/Incremental.thy ===== *)
theory Incremental
  imports Parser
begin

text \<open>
  The parser does not depend on how TCP cuts the stream: what it does on a prefix it does on
  every extension of that prefix. The one exception is an inline line of exactly
  \<open>max_inline_len\<close> bytes whose CR arrives before its LF (\<open>inline_edge\<close>).
\<close>

subsection \<open>One step on a longer input\<close>

lemma memchr_append_Some: "memchr c r = Some i \<Longrightarrow> memchr c (r @ q) = Some i"
  by (simp add: memchr_append)

lemma find_crlf_append: "find_crlf r = Some i \<Longrightarrow> find_crlf (r @ q) = Some i"
  by (simp add: find_crlf_eq_crlf_pos crlf_pos_append)

lemma find_crlf_later: "find_crlf r = None \<Longrightarrow> find_crlf (r @ q) = Some i \<Longrightarrow> length r \<le> i + 1"
  unfolding find_crlf_eq_crlf_pos by (rule crlf_pos_later)

lemma string_to_int64_too_long: "20 < length s \<Longrightarrow> string_to_int64 s = None"
  by (simp add: string_to_int64_def)

text \<open>
  The input is \<^emph>\<open>decided\<close> when it holds the whole token the current state waits for. A decided
  step looks at that token only, so bytes behind it do not matter.
\<close>

definition decided :: "resp_parser \<Rightarrow> bytes \<Rightarrow> bool" where
  "decided p r \<longleftrightarrow>
     (case pstate p of
        Start \<Rightarrow> r \<noteq> [] \<and> (if r ! 0 = CHR ''*'' then find_crlf r \<noteq> None else memchr LF r \<noteq> None)
      | ArgLen \<Rightarrow> find_crlf r \<noteq> None
      | ArgData \<Rightarrow> nat (arg_len p) + 2 \<le> length r)"

lemma header_same:
  assumes "find_crlf r = Some i"
  shows "(r @ q) ! 0 = r ! 0" "take (i - 1) (drop 1 (r @ q)) = take (i - 1) (drop 1 r)"
    "find_crlf (r @ q) = Some i"
proof -
  have i: "i + 1 < length r" using assms by (rule find_crlf_length)
  then show "(r @ q) ! 0 = r ! 0" by (intro nth_append_left) linarith
  show "take (i - 1) (drop 1 (r @ q)) = take (i - 1) (drop 1 r)" using i by simp
  show "find_crlf (r @ q) = Some i" using assms by (rule find_crlf_append)
qed

lemma parse_inline_same:
  assumes "memchr LF r = Some nl" shows "parse_inline p (r @ q) = parse_inline p r"
proof -
  have nl: "nl < length r" using assms by (auto dest: memchr_SomeD)
  then have "(r @ q) ! (nl - 1) = r ! (nl - 1)" by (simp add: nth_append_left)
  moreover have "take m (r @ q) = take m r" if "m = (if nl > 0 \<and> r ! (nl - 1) = CR then nl - 1 else nl)" for m
    using nl that by auto
  ultimately show ?thesis
    unfolding parse_inline_def assms memchr_append_Some [OF assms] option.case Let_def
    by (simp only: refl)
qed

lemma parse_case_decided:
  assumes "decided p r" shows "parse_case p (r @ q) = parse_case p r"
proof (cases "pstate p")
  case Start
  show ?thesis
  proof (cases "r ! 0 = CHR ''*''")
    case True
    with assms Start obtain i where i: "find_crlf r = Some i" by (auto simp: decided_def)
    have ne: "(r = []) = False" "(r @ q = []) = False" using assms Start by (auto simp: decided_def)
    have "parse_start p (r @ q) = parse_start p r"
      unfolding parse_start_def header_same [OF i, of q] i option.case ne True by (simp only: simp_thms if_False)
    with Start show ?thesis by (simp add: parse_case_def)
  next
    case False
    with assms Start obtain nl where nl: "memchr LF r = Some nl" by (auto simp: decided_def)
    with assms Start False have "parse_start p (r @ q) = parse_start p r"
      by (simp add: parse_start_def decided_def parse_inline_same nth_append_left)
    with Start show ?thesis by (simp add: parse_case_def)
  qed
next
  case ArgLen
  with assms obtain i where i: "find_crlf r = Some i" by (auto simp: decided_def)
  have "parse_arg_len p (r @ q) = parse_arg_len p r"
    unfolding parse_arg_len_def header_same [OF i, of q] i option.case by (simp only: refl)
  with ArgLen show ?thesis by (simp add: parse_case_def)
next
  case ArgData
  with assms show ?thesis
    by (simp add: decided_def parse_case_def parse_arg_data_def nth_append_left Let_def)
qed

text \<open>An undecided step waits, unless the unfinished line is already too long.\<close>

definition overlong :: "resp_parser \<Rightarrow> bytes \<Rightarrow> bool" where
  "overlong p r \<longleftrightarrow>
     (case pstate p of
        Start \<Rightarrow> r \<noteq> [] \<and> (if r ! 0 = CHR ''*'' then 64 else max_inline_len (limits p)) < length r
      | ArgLen \<Rightarrow> 64 < length r
      | ArgData \<Rightarrow> False)"

lemma parse_case_undecided:
  assumes "\<not> decided p r"
  shows "if overlong p r then \<exists>e. parse_case p r = (Some (ParseError e), parser_reset p, None)
         else parse_case p r = (Some Incomplete, p, None)"
  using assms
  by (cases "pstate p") (auto simp: decided_def overlong_def parse_case_defs split: if_splits)

lemma parse_case_mono:
  assumes "parse_case p r = (st, p', k)" "st = None \<or> st = Some (Complete a)"
  shows "parse_case p (r @ q) = (st, p', k)"
proof (cases "decided p r")
  case True
  then show ?thesis using assms(1) by (simp add: parse_case_decided)
next
  case False
  then show ?thesis using assms parse_case_undecided [OF False] by (auto split: if_splits)
qed

text \<open>Waiting changes nothing: no byte is consumed and no member is written.\<close>

lemma parse_case_incomplete:
  "parse_case p r = (Some Incomplete, p', k) \<Longrightarrow> p' = p \<and> k = None"
  by (auto simp: parse_case_defs split: if_splits option.splits parser_state.splits)

lemma parse_case_limits: "parse_case p r = (st, p', k) \<Longrightarrow> limits p' = limits p"
  by (auto simp: parse_case_defs parser_reset_def split: if_splits option.splits parser_state.splits)

lemma parse_case_error_reset: "parse_case p r = (Some (ParseError e), p', k) \<Longrightarrow> p' = parser_reset p"
  by (auto simp: parse_case_defs split: if_splits option.splits parser_state.splits)

subsection \<open>A failed step fails on every longer input\<close>

definition inline_edge :: "proto_limits \<Rightarrow> bytes \<Rightarrow> bool" where
  "inline_edge l r \<longleftrightarrow> r \<noteq> [] \<and> r ! 0 \<noteq> CHR ''*'' \<and> LF \<notin> set r \<and>
     length r = max_inline_len l + 1 \<and> last r = CR"

text \<open>An overlong line does not become acceptable when the rest of it arrives.\<close>

lemma overlong_inline_mono:
  assumes "pstate p = Start" "r \<noteq> []" "r ! 0 \<noteq> CHR ''*''" "memchr LF r = None"
    "max_inline_len (limits p) < length r" "\<not> inline_edge (limits p) r"
  shows "\<exists>e. parse_inline p (r @ q) = (Some (ParseError e), parser_reset p, None)"
proof (cases "memchr LF (r @ q)")
  case None
  then show ?thesis using assms by (simp add: parse_inline_def fail_def)
next
  case (Some nl)
  then have nl: "length r \<le> nl" using assms by (auto simp: memchr_append split: option.splits)
  have "last r \<noteq> CR" if "length r = max_inline_len (limits p) + 1"
    using assms that by (simp add: inline_edge_def memchr_None_iff)
  moreover have "(r @ q) ! (nl - 1) = last r" if "nl = length r"
    using that assms(2) by (simp add: nth_append last_conv_nth)
  ultimately have "max_inline_len (limits p) <
      (if nl > 0 \<and> (r @ q) ! (nl - 1) = CR then nl - 1 else nl)"
    using assms(5) nl by (cases "nl = length r"; cases "length r = max_inline_len (limits p) + 1") auto
  then show ?thesis using Some by (simp add: parse_inline_def fail_def Let_def)
qed

lemma overlong_header_mono:
  assumes "find_crlf r = None" "64 < length r" "pstate p = ArgLen \<or> (pstate p = Start \<and> r ! 0 = CHR ''*'')"
  shows "\<exists>e. parse_case p (r @ q) = (Some (ParseError e), parser_reset p, None)"
proof -
  have r0: "(r @ q) ! 0 = r ! 0" "r @ q \<noteq> []"
    using assms(2) nth_append_left [of 0 r q] by fastforce+
  show ?thesis
  proof (cases "find_crlf (r @ q)")
    case None
    then show ?thesis using assms r0 by (auto simp: parse_case_defs)
  next
    case (Some i)
    then have "length r \<le> i + 1" "i + 1 < length (r @ q)"
      using assms(1) by (auto dest: find_crlf_later find_crlf_length)
    then have "string_to_int64 (take (i - 1) (drop 1 (r @ q))) = None"
      using assms(2) by (intro string_to_int64_too_long) simp
    then show ?thesis using Some assms(3) r0 by (auto simp: parse_case_defs)
  qed
qed

lemma parse_case_error_mono:
  assumes "parse_case p r = (Some (ParseError e), p', k)"
    "\<not> (pstate p = Start \<and> inline_edge (limits p) r)"
  shows "\<exists>e' k'. parse_case p (r @ q) = (Some (ParseError e'), p', k')"
proof (cases "decided p r")
  case True
  then show ?thesis using assms(1) by (simp add: parse_case_decided)
next
  case False
  then have "overlong p r" and k: "k = None" "p' = parser_reset p"
    using assms(1) parse_case_undecided [OF False] by (auto split: if_splits)
  then consider "find_crlf r = None" "64 < length r" "pstate p = ArgLen \<or> (pstate p = Start \<and> r ! 0 = CHR ''*'')"
    | "pstate p = Start" "r \<noteq> []" "r ! 0 \<noteq> CHR ''*''" "memchr LF r = None"
      "max_inline_len (limits p) < length r"
    using False by (auto simp: overlong_def decided_def split: parser_state.splits if_splits)
  then show ?thesis
  proof cases
    case 1
    then show ?thesis using overlong_header_mono [of r p q] k by blast
  next
    case 2
    then show ?thesis
      using overlong_inline_mono [OF 2, of q] assms(2) k
      by (auto simp: parse_case_def parse_start_def nth_append_left)
  qed
qed

subsection \<open>The whole stream\<close>

lemma parse_bytes_cases:
  obtains st p' k where "parse_case p r = (Some st, p', k)" "parse_bytes p r = (st, p', drop_opt k r)"
  | p' k where "parse_case p r = (None, p', k)" "parse_bytes p r = parse_bytes p' (drop_opt k r)"
proof -
  obtain o1 p1 k where step: "parse_case p r = (o1, p1, k)" by (metis prod_cases3)
  show ?thesis
    using step that by (cases o1) (auto simp: parse_bytes_return parse_bytes_again)
qed

lemma drop_opt_append:
  "k = None \<or> (\<exists>n. k = Some n \<and> n \<le> length r) \<Longrightarrow> drop_opt k (r @ q) = drop_opt k r @ q"
  by auto

lemma parse_case_again_append:
  assumes "parse_case p r = (None, p', k)"
  shows "parse_bytes p (r @ q) = parse_bytes p' (drop_opt k r @ q)"
proof -
  have "parse_case p (r @ q) = (None, p', k)" using parse_case_mono [OF assms] by simp
  moreover have "drop_opt k (r @ q) = drop_opt k r @ q"
    using parse_case_continues [OF assms] by (intro drop_opt_append) auto
  ultimately show ?thesis by (simp add: parse_bytes_again)
qed

lemma parse_bytes_incomplete_append:
  "parse_bytes p r = (Incomplete, p', r') \<Longrightarrow> parse_bytes p (r @ q) = parse_bytes p' (r' @ q)"
proof (induction p r rule: parse_bytes.induct)
  case (1 p r)
  show ?case
  proof (cases rule: parse_bytes_cases [of p r])
    case (1 st p1 k)
    with "1.prems" show ?thesis using parse_case_incomplete by fastforce
  next
    case (2 p1 k)
    with "1.IH" "1.prems" show ?thesis by (auto simp: parse_case_again_append)
  qed
qed

lemma parse_bytes_incomplete_idem:
  "parse_bytes p r = (Incomplete, p', r') \<Longrightarrow> parse_bytes p' r' = (Incomplete, p', r')"
  using parse_bytes_incomplete_append [of p r p' r' "[]"] by simp

lemma parse_bytes_complete_append:
  "parse_bytes p r = (Complete a, p', r') \<Longrightarrow> parse_bytes p (r @ q) = (Complete a, p', r' @ q)"
proof (induction p r rule: parse_bytes.induct)
  case (1 p r)
  show ?case
  proof (cases rule: parse_bytes_cases [of p r])
    case (1 st p1 k)
    with "1.prems" have c: "parse_case p r = (Some (Complete a), p', k)" and r': "r' = drop_opt k r"
      by auto
    have "drop_opt k (r @ q) = drop_opt k r @ q"
      using parse_case_complete_consumes [OF c] by (intro drop_opt_append) auto
    then show ?thesis
      using parse_case_mono [OF c, of a q] r' by (simp add: parse_bytes_return)
  next
    case (2 p1 k)
    with "1.IH" "1.prems" show ?thesis by (auto simp: parse_case_again_append)
  qed
qed

lemma parse_bytes_limits: "parse_bytes p r = (st, p', r') \<Longrightarrow> limits p' = limits p"
proof (induction p r rule: parse_bytes.induct)
  case (1 p r)
  show ?case
    using "1.IH" "1.prems"
    by (cases rule: parse_bytes_cases [of p r]) (auto dest: parse_case_limits)
qed

lemma parse_case_again_state: "parse_case p r = (None, p', k) \<Longrightarrow> pstate p' \<noteq> Start"
  by (auto simp: parse_case_defs split: if_splits option.splits parser_state.splits)

lemma parse_bytes_error_append:
  "parse_bytes p r = (ParseError e, p', r') \<Longrightarrow> \<not> (pstate p = Start \<and> inline_edge (limits p) r) \<Longrightarrow>
     \<exists>e' r''. parse_bytes p (r @ q) = (ParseError e', p', r'')"
proof (induction p r rule: parse_bytes.induct)
  case (1 p r)
  show ?case
  proof (cases rule: parse_bytes_cases [of p r])
    case (1 st p1 k)
    with "1.prems" have c: "parse_case p r = (Some (ParseError e), p', k)" by auto
    then obtain e' k' where "parse_case p (r @ q) = (Some (ParseError e'), p', k')"
      using parse_case_error_mono [OF c] "1.prems"(2) by blast
    then show ?thesis by (auto simp: parse_bytes_return)
  next
    case (2 p1 k)
    then show ?thesis
      using "1.IH" [OF 2(1) [symmetric] refl refl] "1.prems" parse_case_again_state [OF 2(1)]
      by (simp add: parse_case_again_append)
  qed
qed

text \<open>At the edge the parser gives up with the line still in the buffer.\<close>

lemma inline_edge_fails:
  assumes "pstate p = Start" "inline_edge (limits p) r"
  shows "parse_bytes p r = (ParseError ''Protocol error: too big inline request'', parser_reset p, r)"
proof -
  have "memchr LF r = None" using assms by (simp add: inline_edge_def memchr_None_iff)
  then have "parse_case p r =
      (Some (ParseError ''Protocol error: too big inline request''), parser_reset p, None)"
    using assms by (simp add: parse_case_defs inline_edge_def)
  then show ?thesis by (simp add: parse_bytes_return)
qed

subsection \<open>Draining and feeding\<close>

lemma drain_Complete:
  "parse_bytes p r = (Complete a, p', r') \<Longrightarrow>
     drain p r = (case drain p' r' of (cmds, fin) \<Rightarrow> (a # cmds, fin))"
  by (simp add: drain.simps [of p r])

lemma drain_stop:
  "parse_bytes p r = (st, p', r') \<Longrightarrow> \<forall>a. st \<noteq> Complete a \<Longrightarrow> drain p r = ([], st, p', r')"
  by (cases st) (auto simp: drain.simps [of p r])

lemma drain_cases:
  obtains a p' r' where "parse_bytes p r = (Complete a, p', r')"
      "drain p r = (case drain p' r' of (cmds, fin) \<Rightarrow> (a # cmds, fin))"
  | st p' r' where "parse_bytes p r = (st, p', r')" "st = Incomplete \<or> (\<exists>e. st = ParseError e)"
      "drain p r = ([], st, p', r')"
proof -
  obtain st p' r' where s: "parse_bytes p r = (st, p', r')" by (metis prod_cases3)
  show ?thesis
    using s that by (cases st) (auto simp: drain_Complete drain_stop)
qed

lemma drain_status: "drain p r = (cmds, st, p', r') \<Longrightarrow> st \<noteq> Complete a"
proof (induction p r arbitrary: cmds rule: drain.induct)
  case (1 p r)
  then show ?case by (cases rule: drain_cases [of p r]) (auto split: prod.splits)
qed

text \<open>What was drained from a prefix is what the whole stream starts with.\<close>

lemma drain_append:
  "drain p r = (cmds, Incomplete, p', r') \<Longrightarrow>
     drain p (r @ q) = (case drain p' (r' @ q) of (cmds', fin) \<Rightarrow> (cmds @ cmds', fin))"
proof (induction p r arbitrary: cmds rule: drain.induct)
  case (1 p r)
  show ?case
  proof (cases rule: drain_cases [of p r])
    case (1 a p1 r1)
    then obtain cs where cs: "drain p1 r1 = (cs, Incomplete, p', r')" "cmds = a # cs"
      using "1.prems" by (auto split: prod.splits)
    have "drain p1 (r1 @ q) = (case drain p' (r' @ q) of (cmds', fin) \<Rightarrow> (cs @ cmds', fin))"
      using "1.IH" [OF 1(1) [symmetric] refl refl cs(1)] by auto
    then show ?thesis
      using cs drain_Complete [OF parse_bytes_complete_append [OF 1(1), of q]]
      by (auto split: prod.splits)
  next
    case (2 st p1 r1)
    with "1.prems" have "parse_bytes p r = (Incomplete, p', r')" "cmds = []" by auto
    then show ?thesis
      using parse_bytes_incomplete_append [of p r p' r' q]
      by (simp add: drain.simps [of p "r @ q"] drain.simps [of p' "r' @ q"])
  qed
qed

lemma drain_idem: "drain p r = (cmds, Incomplete, p', r') \<Longrightarrow> drain p' r' = ([], Incomplete, p', r')"
proof (induction p r arbitrary: cmds rule: drain.induct)
  case (1 p r)
  show ?case
  proof (cases rule: drain_cases [of p r])
    case (1 a p1 r1)
    with "1.IH" [OF 1(1) [symmetric] refl refl] "1.prems" show ?thesis by (auto split: prod.splits)
  next
    case (2 st p1 r1)
    with "1.prems" have "parse_bytes p r = (Incomplete, p', r')" by auto
    then show ?thesis by (auto intro!: drain_stop dest: parse_bytes_incomplete_idem)
  qed
qed

lemma drain_limits: "drain p r = (cmds, st, p', r') \<Longrightarrow> limits p' = limits p"
proof (induction p r arbitrary: cmds rule: drain.induct)
  case (1 p r)
  show ?case
    using "1.IH" "1.prems"
    by (cases rule: drain_cases [of p r])
       (fastforce split: prod.splits dest: parse_bytes_limits)+
qed

lemma drain_error_append:
  "drain p r = (cmds, ParseError e, p', r') \<Longrightarrow> \<not> inline_edge (limits p) r' \<Longrightarrow>
     \<exists>e' r''. drain p (r @ q) = (cmds, ParseError e', p', r'')"
proof (induction p r arbitrary: cmds rule: drain.induct)
  case (1 p r)
  show ?case
  proof (cases rule: drain_cases [of p r])
    case (1 a p1 r1)
    then obtain cs where cs: "drain p1 r1 = (cs, ParseError e, p', r')" "cmds = a # cs"
      using "1.prems" by (auto split: prod.splits)
    have "limits p1 = limits p" using 1(1) by (rule parse_bytes_limits)
    then obtain e' r'' where "drain p1 (r1 @ q) = (cs, ParseError e', p', r'')"
      using "1.IH" [OF 1(1) [symmetric] refl refl cs(1)] "1.prems"(2) by auto
    then show ?thesis
      using cs drain_Complete [OF parse_bytes_complete_append [OF 1(1), of q]] by auto
  next
    case (2 st p1 r1)
    with "1.prems" have e: "parse_bytes p r = (ParseError e, p', r')" "cmds = []" by auto
    then have "\<not> (pstate p = Start \<and> inline_edge (limits p) r)"
      using "1.prems"(2) inline_edge_fails by auto
    then obtain e' r'' where "parse_bytes p (r @ q) = (ParseError e', p', r'')"
      using parse_bytes_error_append [OF e(1)] by blast
    then show ?thesis using e(2) by (auto simp: drain_stop)
  qed
qed

text \<open>Delivery in pieces against delivery at once.\<close>

lemma feed_incomplete:
  "drain p r = ([], Incomplete, p, r) \<Longrightarrow> feed p r cs = (cmds, Incomplete, p', r') \<Longrightarrow>
     drain p (r @ concat cs) = (cmds, Incomplete, p', r')"
proof (induction p r cs arbitrary: cmds rule: feed.induct)
  case (2 p r c cs)
  obtain cmds1 st1 p1 r1 where d: "drain p (r @ c) = (cmds1, st1, p1, r1)" by (metis prod_cases4)
  with "2.prems"(2) have st1: "st1 = Incomplete" by (cases st1) auto
  with d "2.prems"(2) obtain cmds2 where
    f: "feed p1 r1 cs = (cmds2, Incomplete, p', r')" "cmds = cmds1 @ cmds2"
    by (auto split: prod.splits)
  have "drain p1 (r1 @ concat cs) = (cmds2, Incomplete, p', r')"
    using "2.IH" [OF d [symmetric] refl _ refl _ f(1)] st1 drain_idem d by auto
  then show ?case
    using drain_append [of p "r @ c" cmds1 p1 r1 "concat cs"] d st1 f(2) by simp
qed simp

lemma feed_error:
  "feed p r cs = (cmds, ParseError e, p', r') \<Longrightarrow> \<not> inline_edge (limits p) r' \<Longrightarrow>
     \<exists>e' r''. drain p (r @ concat cs) = (cmds, ParseError e', p', r'')"
proof (induction p r cs arbitrary: cmds rule: feed.induct)
  case (2 p r c cs)
  obtain cmds1 st1 p1 r1 where d: "drain p (r @ c) = (cmds1, st1, p1, r1)" by (metis prod_cases4)
  show ?case
  proof (cases st1)
    case Incomplete
    with d "2.prems"(1) obtain cmds2 where
      f: "feed p1 r1 cs = (cmds2, ParseError e, p', r')" "cmds = cmds1 @ cmds2"
      by (auto split: prod.splits)
    have "limits p1 = limits p" using d by (rule drain_limits)
    then obtain e' r'' where "drain p1 (r1 @ concat cs) = (cmds2, ParseError e', p', r'')"
      using "2.IH" [OF d [symmetric] refl _ refl f(1)] Incomplete "2.prems"(2) by auto
    then show ?thesis
      using drain_append [of p "r @ c" cmds1 p1 r1 "concat cs"] d Incomplete f(2) by simp
  next
    case (Complete a)
    with d show ?thesis by (auto dest: drain_status)
  next
    case (ParseError e1)
    with d "2.prems"(1) have "drain p (r @ c) = (cmds, ParseError e, p', r')" by simp
    then show ?thesis
      using drain_error_append [of p "r @ c" cmds e p' r' "concat cs"] "2.prems"(2) by simp
  qed
qed simp

text \<open>A failure in the middle of the pieces is the failure of the bytes delivered until then.\<close>

lemma feed_error_prefix:
  "feed p r cs = (cmds, ParseError e, p', r') \<Longrightarrow>
     \<exists>n. drain p (r @ concat (take n cs)) = (cmds, ParseError e, p', r')"
proof (induction p r cs arbitrary: cmds rule: feed.induct)
  case (2 p r c cs)
  obtain cmds1 st1 p1 r1 where d: "drain p (r @ c) = (cmds1, st1, p1, r1)" by (metis prod_cases4)
  show ?case
  proof (cases st1)
    case Incomplete
    with d "2.prems"(1) obtain cmds2 where
      f: "feed p1 r1 cs = (cmds2, ParseError e, p', r')" "cmds = cmds1 @ cmds2"
      by (auto split: prod.splits)
    then obtain n where "drain p1 (r1 @ concat (take n cs)) = (cmds2, ParseError e, p', r')"
      using "2.IH" [OF d [symmetric] refl _ refl f(1)] Incomplete by auto
    then have "drain p (r @ concat (take (Suc n) (c # cs))) = (cmds, ParseError e, p', r')"
      using drain_append [of p "r @ c" cmds1 p1 r1 "concat (take n cs)"] d Incomplete f(2) by simp
    then show ?thesis by blast
  next
    case (Complete a)
    with d show ?thesis by (auto dest: drain_status)
  next
    case (ParseError e1)
    with d "2.prems"(1) have "drain p (r @ concat (take 1 (c # cs))) = (cmds, ParseError e, p', r')" by simp
    then show ?thesis by blast
  qed
qed simp

lemma feed_status: "feed p r cs = (cmds, st, p', r') \<Longrightarrow> st \<noteq> Complete a"
proof (induction p r cs arbitrary: cmds rule: feed.induct)
  case (2 p r c cs)
  obtain cmds1 st1 p1 r1 where d: "drain p (r @ c) = (cmds1, st1, p1, r1)" by (metis prod_cases4)
  then have "st1 \<noteq> Complete a" by (rule drain_status)
  with d 2 show ?case by (cases st1) (auto split: prod.splits)
qed simp

subsection \<open>Properties\<close>

text \<open>
  C11: where the reads fall does not matter. If a stream delivered in pieces leaves the parser
  waiting, it has handed out exactly the commands of the undivided stream and is in the same
  state. If it breaks off with a protocol error, the undivided stream yields the same commands
  and then an error too, save for the one boundary case \<open>inline_edge\<close>: a line of exactly the
  maximal length whose CR has arrived and whose LF has not.
\<close>

theorem chunking_transparent:
  assumes "feed (new_parser l) [] cs = (cmds, st, p', r')"
  shows "(st = Incomplete \<and> drain (new_parser l) (concat cs) = (cmds, st, p', r')) \<or>
    (\<exists>e. st = ParseError e \<and>
       (inline_edge l r' \<or> (\<exists>e' r''. drain (new_parser l) (concat cs) = (cmds, ParseError e', p', r''))))"
proof (cases st)
  case Incomplete
  have "drain (new_parser l) [] = ([], Incomplete, new_parser l, [])"
    by (simp add: drain.simps [of _ "[]"] parse_bytes.simps [of _ "[]"] parse_case_def parse_start_def new_parser_def)
  then show ?thesis using feed_incomplete [of "new_parser l" "[]" cs cmds p' r'] assms Incomplete by simp
next
  case (Complete a)
  then show ?thesis using feed_status [OF assms] by simp
next
  case (ParseError e)
  have "limits (new_parser l) = l" by (simp add: new_parser_def)
  then show ?thesis using feed_error [of "new_parser l" "[]" cs cmds e p' r'] assms ParseError by auto
qed

theorem chunking_transparent_witness:
  "\<exists>cmds st p' r'. feed (new_parser default_limits) [] [''PI'', ''NG''] = (cmds, st, p', r') \<and>
     ((st = Incomplete \<and> drain (new_parser default_limits) (concat [''PI'', ''NG'']) = (cmds, st, p', r')) \<or>
      (\<exists>e. st = ParseError e \<and> (inline_edge default_limits r' \<or>
         (\<exists>e' r''. drain (new_parser default_limits) (concat [''PI'', ''NG'']) = (cmds, ParseError e', p', r'')))))"
proof -
  obtain cmds st p' r' where f: "feed (new_parser default_limits) [] [''PI'', ''NG''] = (cmds, st, p', r')"
    by (metis prod_cases4)
  show ?thesis using chunking_transparent [OF f] f by blast
qed

end
