(* ===== verification/Roundtrip.thy ===== *)
theory Roundtrip
  imports Incremental
begin

text \<open>
  The multibulk encoding a client sends, and the round trip through the parser: every stream
  of well-formed commands, cut into reads in any way, comes out as exactly those commands.
\<close>

subsection \<open>The client's encoding\<close>

definition encode_len :: "byte \<Rightarrow> nat \<Rightarrow> bytes" where
  "encode_len c n = c # std_to_string (int n) @ CRLF"

definition encode_arg :: "bytes \<Rightarrow> bytes" where
  "encode_arg a = encode_len (CHR ''$'') (length a) @ a @ CRLF"

definition encode_command :: "bytes list \<Rightarrow> bytes" where
  "encode_command argv = encode_len (CHR ''*'') (length argv) @ concat (map encode_arg argv)"

definition encode_pipeline :: "bytes list list \<Rightarrow> bytes" where
  "encode_pipeline cmds = concat (map encode_command cmds)"

text \<open>The commands a client may send under the configured ceilings.\<close>

definition valid_command :: "proto_limits \<Rightarrow> bytes list \<Rightarrow> bool" where
  "valid_command l argv \<longleftrightarrow> argv \<noteq> [] \<and> length argv \<le> max_multibulk_args l \<and>
     (\<forall>a \<in> set argv. length a \<le> max_bulk_len l)"

text \<open>The ceilings are converted to \<^verbatim>\<open>int64_t\<close> before they are compared.\<close>

definition limits_ok :: "proto_limits \<Rightarrow> bool" where
  "limits_ok l \<longleftrightarrow> int (max_multibulk_args l) \<le> INT64_MAX \<and> int (max_bulk_len l) \<le> INT64_MAX"

lemma limits_ok_default [simp]: "limits_ok default_limits"
  by (simp add: limits_ok_def default_limits_def)

subsection \<open>Reading one header line\<close>

lemma encode_len_parts:
  assumes "int n \<le> INT64_MAX" "c \<noteq> CR"
  shows "find_crlf (encode_len c n @ r) = Some (length (encode_len c n) - 2)"
    and "string_to_int64 (take (length (encode_len c n) - 2 - 1) (drop 1 (encode_len c n @ r))) = Some (int n)"
    and "drop (length (encode_len c n) - 2 + 2) (encode_len c n @ r) = r"
    and "(encode_len c n @ r) ! 0 = c" and "0 < length (encode_len c n) - 2"
    and "encode_len c n @ r \<noteq> []"
proof -
  let ?s = "std_to_string (int n)"
  have len: "length (encode_len c n) = length ?s + 3" by (simp add: encode_len_def)
  have "CR \<notin> set (c # ?s)" using assms(2) std_to_string_no_crlf by simp
  then have "crlf_pos ((c # ?s) @ CR # LF # r) = Some (length (c # ?s))" by (rule crlf_pos_line)
  then show "find_crlf (encode_len c n @ r) = Some (length (encode_len c n) - 2)"
    by (simp add: find_crlf_eq_crlf_pos encode_len_def)
  have "in_int64 (int n)" using assms(1) by (simp add: in_int64_def)
  then show "string_to_int64 (take (length (encode_len c n) - 2 - 1) (drop 1 (encode_len c n @ r))) = Some (int n)"
    by (simp add: encode_len_def)
  show "drop (length (encode_len c n) - 2 + 2) (encode_len c n @ r) = r"
    using len by (simp add: add.commute)
  show "(encode_len c n @ r) ! 0 = c" "0 < length (encode_len c n) - 2" "encode_len c n @ r \<noteq> []"
    by (simp_all add: encode_len_def)
qed

subsection \<open>One command\<close>

lemma parse_bytes_command_header:
  assumes "pstate p = Start" "0 < n" "n \<le> max_multibulk_args (limits p)" "limits_ok (limits p)"
  shows "parse_bytes p (encode_len (CHR ''*'') n @ r) =
    parse_bytes (p\<lparr>args_remaining := int n, pargv := [], pstate := ArgLen\<rparr>) r"
proof -
  have n: "int n \<le> INT64_MAX" using assms by (simp add: limits_ok_def)
  have "CHR ''*'' \<noteq> CR" by simp
  note h = encode_len_parts [OF n this]
  have "parse_case p (encode_len (CHR ''*'') n @ r) =
      (None, p\<lparr>args_remaining := int n, pargv := [], pstate := ArgLen\<rparr>,
       Some (length (encode_len (CHR ''*'') n) - 2 + 2))"
    using assms h by (simp add: parse_case_def parse_start_def)
  then show ?thesis using h by (simp add: parse_bytes_again)
qed

lemma parse_bytes_arg_header:
  assumes "pstate p = ArgLen" "n \<le> max_bulk_len (limits p)" "limits_ok (limits p)"
  shows "parse_bytes p (encode_len (CHR ''$'') n @ r) =
    parse_bytes (p\<lparr>arg_len := int n, pstate := ArgData\<rparr>) r"
proof -
  have n: "int n \<le> INT64_MAX" using assms by (simp add: limits_ok_def)
  have "CHR ''$'' \<noteq> CR" by simp
  note h = encode_len_parts [OF n this]
  have "parse_case p (encode_len (CHR ''$'') n @ r) =
      (None, p\<lparr>arg_len := int n, pstate := ArgData\<rparr>,
       Some (length (encode_len (CHR ''$'') n) - 2 + 2))"
    using assms h by (simp add: parse_case_def parse_arg_len_def)
  then show ?thesis using h by (simp add: parse_bytes_again)
qed

lemma parse_case_arg_data:
  assumes "pstate p = ArgData" "arg_len p = int (length a)"
  shows "parse_case p (a @ CRLF @ r) =
    (if args_remaining p = 1 then (Some (Complete (pargv p @ [a])), parser_reset p, Some (length a + 2))
     else (None, p\<lparr>pargv := pargv p @ [a], arg_len := - 1, args_remaining := args_remaining p - 1,
                    pstate := ArgLen\<rparr>, Some (length a + 2)))"
  using assms by (simp add: parse_case_def parse_arg_data_def Let_def nth_append)

lemma parse_bytes_args:
  assumes "args \<noteq> []" "pstate p = ArgLen" "args_remaining p = int (length args)"
    "\<forall>a \<in> set args. length a \<le> max_bulk_len (limits p)" "limits_ok (limits p)"
  shows "parse_bytes p (concat (map encode_arg args) @ r) = (Complete (pargv p @ args), parser_reset p, r)"
  using assms
proof (induction args arbitrary: p)
  case (Cons a args)
  let ?p = "p\<lparr>arg_len := int (length a), pstate := ArgData\<rparr>"
  let ?rest = "concat (map encode_arg args) @ r"
  have "parse_bytes p (concat (map encode_arg (a # args)) @ r) = parse_bytes ?p (a @ CRLF @ ?rest)"
    using Cons.prems parse_bytes_arg_header [of p "length a" "a @ CRLF @ ?rest"]
    by (simp add: encode_arg_def)
  also have "\<dots> = (Complete (pargv p @ a # args), parser_reset p, r)"
  proof (cases "args = []")
    case True
    then have "args_remaining ?p = 1" using Cons.prems by simp
    then show ?thesis
      using parse_bytes_return [OF trans [OF parse_case_arg_data [of ?p a ?rest]]] True
      by (simp add: parser_reset_def)
  next
    case False
    let ?q = "?p\<lparr>pargv := pargv p @ [a], arg_len := - 1, args_remaining := args_remaining p - 1, pstate := ArgLen\<rparr>"
    have "args_remaining ?p \<noteq> 1" using Cons.prems False by simp
    then have "parse_bytes ?p (a @ CRLF @ ?rest) = parse_bytes ?q ?rest"
      using parse_bytes_again [OF trans [OF parse_case_arg_data [of ?p a ?rest]]] by simp
    also have "\<dots> = (Complete (pargv ?q @ args), parser_reset ?q, r)"
      using Cons.prems False by (intro Cons.IH) auto
    finally show ?thesis by (simp add: parser_reset_def)
  qed
  finally show ?case .
qed simp

lemma parser_reset_eq: "parser_reset p = new_parser (limits p)"
  by (cases p) (simp add: parser_reset_def new_parser_def)

lemma new_parser_fields [simp]: "pstate (new_parser l) = Start" "limits (new_parser l) = l"
  by (simp_all add: new_parser_def)

lemma parse_bytes_encode_command:
  assumes "valid_command l argv" "limits_ok l"
  shows "parse_bytes (new_parser l) (encode_command argv @ r) = (Complete argv, new_parser l, r)"
proof -
  let ?p = "(new_parser l)\<lparr>args_remaining := int (length argv), pargv := [], pstate := ArgLen\<rparr>"
  have "parse_bytes (new_parser l) (encode_command argv @ r) =
      parse_bytes ?p (concat (map encode_arg argv) @ r)"
    using assms parse_bytes_command_header [of "new_parser l" "length argv"]
    by (simp add: encode_command_def valid_command_def)
  also have "\<dots> = (Complete (pargv ?p @ argv), parser_reset ?p, r)"
    using assms by (intro parse_bytes_args) (auto simp: valid_command_def)
  finally show ?thesis by (simp add: parser_reset_eq)
qed

subsection \<open>A pipeline, and every way of cutting it\<close>

lemma parse_bytes_empty_start [simp]: "parse_bytes (new_parser l) [] = (Incomplete, new_parser l, [])"
  by (simp add: parse_bytes.simps [of _ "[]"] parse_case_def parse_start_def)

lemma drain_empty_start [simp]: "drain (new_parser l) [] = ([], Incomplete, new_parser l, [])"
  by (simp add: drain_stop)

lemma drain_pipeline:
  assumes "\<forall>c \<in> set cmds. valid_command l c" "limits_ok l"
  shows "drain (new_parser l) (encode_pipeline cmds) = (cmds, Incomplete, new_parser l, [])"
  using assms
proof (induction cmds)
  case Nil
  then show ?case by (simp add: encode_pipeline_def)
next
  case (Cons c cmds)
  then have "parse_bytes (new_parser l) (encode_pipeline (c # cmds)) =
      (Complete c, new_parser l, encode_pipeline cmds)"
    by (simp add: encode_pipeline_def parse_bytes_encode_command)
  with Cons show ?case by (simp add: drain_Complete)
qed

text \<open>No prefix of a well-formed pipeline is rejected, however much of a line is missing.\<close>

lemma encode_command_first: "encode_command argv \<noteq> []" "encode_command argv ! 0 = CHR ''*''"
  by (simp_all add: encode_command_def encode_len_def)

lemma parse_bytes_command_prefix:
  assumes "valid_command l c" "limits_ok l" "r @ q = encode_command c" "q \<noteq> []"
  shows "\<exists>p' r'. parse_bytes (new_parser l) r = (Incomplete, p', r')"
proof (cases "r = []")
  case False
  let ?p = "new_parser l"
  have whole: "parse_bytes ?p (r @ q) = (Complete c, ?p, [])"
    using parse_bytes_encode_command [OF assms(1,2), of "[]"] assms(3) by simp
  have "r ! 0 = CHR ''*''"
    using False assms(3) encode_command_first(2) [of c] nth_append_left [of 0 r q] by simp
  obtain st p' r' where s: "parse_bytes ?p r = (st, p', r')" by (metis prod_cases3)
  show ?thesis
  proof (cases st)
    case (Complete a)
    with s have "parse_bytes ?p (r @ q) = (Complete a, p', r' @ q)"
      by (simp add: parse_bytes_complete_append)
    with whole assms(4) show ?thesis by simp
  next
    case (ParseError e)
    have "\<not> inline_edge l r" using \<open>r ! 0 = _\<close> by (simp add: inline_edge_def)
    then have "\<exists>e' r''. parse_bytes ?p (r @ q) = (ParseError e', p', r'')"
      using s ParseError parse_bytes_error_append [of ?p r e p' r' q] by simp
    with whole show ?thesis by auto
  qed (use s in auto)
qed (simp)

lemma drain_pipeline_prefix:
  assumes "\<forall>c \<in> set cmds. valid_command l c" "limits_ok l" "r @ q = encode_pipeline cmds"
  shows "\<exists>cs p' r'. drain (new_parser l) r = (cs, Incomplete, p', r')"
  using assms
proof (induction cmds arbitrary: r)
  case Nil
  then show ?case by (simp add: encode_pipeline_def)
next
  case (Cons c cmds)
  then have split: "r @ q = encode_command c @ encode_pipeline cmds"
    by (simp add: encode_pipeline_def)
  then consider (inside) q' where "r @ q' = encode_command c" "q' \<noteq> []"
    | (beyond) r2 where "r = encode_command c @ r2" "r2 @ q = encode_pipeline cmds"
  proof -
    from split obtain us where "r @ us = encode_command c \<and> q = us @ encode_pipeline cmds \<or>
        r = encode_command c @ us \<and> us @ q = encode_pipeline cmds"
      by (auto simp: append_eq_append_conv2)
    then show thesis using that by (cases "us = []") auto
  qed
  then show ?case
  proof cases
    case inside
    then obtain p' r' where "parse_bytes (new_parser l) r = (Incomplete, p', r')"
      using parse_bytes_command_prefix Cons.prems by fastforce
    then have "drain (new_parser l) r = ([], Incomplete, p', r')" by (simp add: drain_stop)
    then show ?thesis by blast
  next
    case beyond
    then obtain cs p' r' where "drain (new_parser l) r2 = (cs, Incomplete, p', r')"
      using Cons.IH [OF _ Cons.prems(2) beyond(2)] Cons.prems(1) by auto
    moreover have "parse_bytes (new_parser l) r = (Complete c, new_parser l, r2)"
      using Cons.prems beyond(1) by (simp add: parse_bytes_encode_command)
    ultimately show ?thesis by (simp add: drain_Complete)
  qed
qed

lemma feed_pipeline:
  assumes "\<forall>c \<in> set cmds. valid_command l c" "limits_ok l" "concat chunks = encode_pipeline cmds"
  shows "feed (new_parser l) [] chunks = (cmds, Incomplete, new_parser l, [])"
proof -
  obtain cs st p' r' where f: "feed (new_parser l) [] chunks = (cs, st, p', r')"
    by (metis prod_cases4)
  show ?thesis
  proof (cases st)
    case Incomplete
    then have "drain (new_parser l) (concat chunks) = (cs, Incomplete, p', r')"
      using f feed_incomplete [of "new_parser l" "[]"] by simp
    then show ?thesis using f Incomplete assms drain_pipeline by simp
  next
    case (Complete a)
    with f show ?thesis by (auto dest: feed_status)
  next
    case (ParseError e)
    then obtain n where e: "drain (new_parser l) (concat (take n chunks)) = (cs, ParseError e, p', r')"
      using f feed_error_prefix [of "new_parser l" "[]" chunks cs e p' r'] by auto
    have "concat (take n chunks) @ concat (drop n chunks) = encode_pipeline cmds"
      using assms(3) by (metis append_take_drop_id concat_append)
    then show ?thesis using drain_pipeline_prefix [OF assms(1,2)] e by fastforce
  qed
qed

subsection \<open>Inline commands\<close>

lemma hex_digit_safe: "n < 16 \<Longrightarrow> hex_digit n \<noteq> LF \<and> hex_digit n \<noteq> CR"
  by (auto simp: hex_digit_def char_of_eq_iff take_bit_eq_mod)

lemma inline_line_safe: "LF \<notin> set (inline_line args)" "CR \<notin> set (inline_line args)"
proof -
  have "LF \<notin> set (hex_escape c) \<and> CR \<notin> set (hex_escape c)" for c
    using hex_digit_safe [of "byte_val c div 16"] hex_digit_safe [of "byte_val c mod 16"] byte_val_bound [of c]
    by (auto simp: hex_escape_def less_mult_imp_div_less)
  then show "LF \<notin> set (inline_line args)" "CR \<notin> set (inline_line args)"
    by (auto simp: inline_line_def quote_arg_def)
qed

lemma memchr_line: "c \<notin> set l \<Longrightarrow> memchr c (l @ c # r) = Some (length l)"
  by (induction l) auto

lemma parse_bytes_inline_line:
  assumes "t \<noteq> []" "t ! 0 \<noteq> CHR ''*''" "LF \<notin> set t" "length t \<le> max_inline_len l" "split_inline t = Some args"
  shows "parse_bytes (new_parser l) (t @ CRLF @ r) = (Complete args, new_parser l, r)"
proof -
  have m: "memchr LF (t @ CRLF @ r) = Some (length t + 1)"
    using memchr_line [of LF "t @ [CR]" r] assms(3) by simp
  have n: "(t @ CRLF @ r) ! 0 = t ! 0" "(t @ CRLF @ r) ! length t = CR" using assms(1) by (simp_all add: nth_append)
  have "parse_case (new_parser l) (t @ CRLF @ r) = (Some (Complete args), parser_reset (new_parser l), Some (length t + 2))"
    using assms m n by (simp add: parse_case_def parse_start_def parse_inline_def Let_def)
  then show ?thesis by (simp add: parse_bytes_return parser_reset_eq)
qed

subsection \<open>Properties\<close>

text \<open>
  C10: every pipeline of well-formed commands, encoded in RESP and cut into reads in any way at all,
  is parsed back to exactly the commands that were sent, with nothing left over and the parser
  ready for the next command.
\<close>

theorem pipeline_round_trip:
  assumes "\<forall>c \<in> set cmds. valid_command l c" "limits_ok l" "concat chunks = encode_pipeline cmds"
  shows "feed (new_parser l) [] chunks = (cmds, Incomplete, new_parser l, [])"
  using assms by (rule feed_pipeline)

theorem pipeline_round_trip_witness:
  "\<exists>chunks. length chunks = 3 \<and>
     feed (new_parser default_limits) [] chunks = ([[''GET'', ''a''], [''PING'']], Incomplete, new_parser default_limits, [])"
proof -
  let ?cmds = "[[''GET'', ''a''], [''PING'']]"
  let ?e = "encode_pipeline ?cmds"
  let ?chunks = "[take 5 ?e, take 7 (drop 5 ?e), drop 7 (drop 5 ?e)]"
  have "\<forall>c \<in> set ?cmds. valid_command default_limits c"
    by (simp add: valid_command_def default_limits_def)
  moreover have "concat ?chunks = ?e" by (simp only: concat.simps append_Nil2 append_take_drop_id)
  ultimately have "feed (new_parser default_limits) [] ?chunks = (?cmds, Incomplete, new_parser default_limits, [])"
    by (intro pipeline_round_trip limits_ok_default)
  then show ?thesis by (intro exI [of _ ?chunks]) simp
qed

text \<open>
  C31: the telnet form loses nothing either. Any arguments, with any bytes in them, written as quoted
  words with hexadecimal escapes on one line, are parsed back to those arguments, as long as the
  line keeps to the limit.
\<close>

theorem inline_round_trip:
  assumes "args \<noteq> []" "length (inline_line args) \<le> max_inline_len l"
  shows "parse_bytes (new_parser l) (inline_line args @ CRLF @ r) = (Complete args, new_parser l, r)"
proof (rule parse_bytes_inline_line)
  show "inline_line args \<noteq> []" "inline_line args ! 0 \<noteq> CHR ''*''"
    using assms(1) by (cases args; simp add: inline_line_def quote_arg_def)+
  show "split_inline (inline_line args) = Some args"
    using split_loop_inline_line [of "[]" args] by (simp add: split_inline_def)
qed (use inline_line_safe assms in simp_all)

theorem inline_round_trip_witness:
  "parse_bytes (new_parser default_limits) (inline_line [''SET'', [CR, LF], []] @ CRLF @ ''x'') =
     (Complete [''SET'', [CR, LF], []], new_parser default_limits, ''x'')"
  by (rule inline_round_trip) (simp_all add: inline_line_def quote_arg_def hex_escape_def default_limits_def)

text \<open>
  C38: the exception to chunk transparency is real. A line of exactly \<^verbatim>\<open>max_inline_len\<close> bytes is a
  command when its CRLF arrives with it, and a protocol error when a read ends between the CR and
  the LF, because the length test of the unfinished line counts the CR.
\<close>

theorem inline_edge_depends_on_reads:
  assumes "t \<noteq> []" "t ! 0 \<noteq> CHR ''*''" "LF \<notin> set t" "length t = max_inline_len l" "split_inline t = Some args"
  shows "feed (new_parser l) [] [t @ CRLF] = ([args], Incomplete, new_parser l, []) \<and>
    feed (new_parser l) [] [t @ [CR], [LF]] =
      ([], ParseError ''Protocol error: too big inline request'', new_parser l, t @ [CR])"
proof -
  have "parse_bytes (new_parser l) (t @ CRLF) = (Complete args, new_parser l, [])"
    using parse_bytes_inline_line [OF assms(1-3) _ assms(5), of l "[]"] assms(4) by simp
  then have one: "drain (new_parser l) (t @ CRLF) = ([args], Incomplete, new_parser l, [])"
    using drain_Complete [of "new_parser l" "t @ CRLF"] by simp
  have "inline_edge l (t @ [CR])" using assms(1-4) by (simp add: inline_edge_def nth_append)
  then have "parse_bytes (new_parser l) (t @ [CR]) =
      (ParseError ''Protocol error: too big inline request'', new_parser l, t @ [CR])"
    using inline_edge_fails [of "new_parser l" "t @ [CR]"] by (simp add: parser_reset_eq)
  then have "drain (new_parser l) (t @ [CR]) =
      ([], ParseError ''Protocol error: too big inline request'', new_parser l, t @ [CR])"
    by (simp add: drain_stop)
  with one show ?thesis by simp
qed

theorem inline_edge_depends_on_reads_witness:
  "feed (new_parser \<lparr>max_multibulk_args = 1, max_bulk_len = 1, max_inline_len = 1\<rparr>) [] [''a'' @ [CR], [LF]] =
     ([], ParseError ''Protocol error: too big inline request'',
      new_parser \<lparr>max_multibulk_args = 1, max_bulk_len = 1, max_inline_len = 1\<rparr>, ''a'' @ [CR])"
proof -
  have "split_inline ''a'' = Some [''a'']" by code_simp
  then show ?thesis
    using inline_edge_depends_on_reads [of "''a''" "\<lparr>max_multibulk_args = 1, max_bulk_len = 1, max_inline_len = 1\<rparr>" "[''a'']"]
    by simp
qed

end
