(* ===== verification/Parser_Bounds.thy ===== *)
theory Parser_Bounds
  imports Roundtrip
begin

text \<open>
  The ceilings of \<^verbatim>\<open>ProtocolLimits\<close> at work: the invariant of the parser's members, the size of
  every command it hands out, and the number of bytes it can leave waiting in the buffer.
\<close>

definition parser_ok :: "resp_parser \<Rightarrow> bool" where
  "parser_ok p \<longleftrightarrow>
     (case pstate p of
        Start \<Rightarrow> args_remaining p = 0 \<and> arg_len p = - 1 \<and> pargv p = []
      | _ \<Rightarrow> 0 < args_remaining p \<and>
             int (length (pargv p)) + args_remaining p \<le> int (max_multibulk_args (limits p)) \<and>
             (\<forall>a \<in> set (pargv p). length a \<le> max_bulk_len (limits p)) \<and>
             (if pstate p = ArgData
              then 0 \<le> arg_len p \<and> arg_len p \<le> int (max_bulk_len (limits p))
              else True))"

definition command_bounded :: "proto_limits \<Rightarrow> bytes list \<Rightarrow> bool" where
  "command_bounded l argv \<longleftrightarrow>
     length argv \<le> max (max_multibulk_args l) (max_inline_len l) \<and>
     (\<forall>a \<in> set argv. length a \<le> max (max_bulk_len l) (max_inline_len l))"

definition max_pending :: "proto_limits \<Rightarrow> nat" where
  "max_pending l = max 64 (max (max_inline_len l) (max_bulk_len l + 1))"

lemma parser_ok_new [simp]: "parser_ok (new_parser l)"
  by (simp add: parser_ok_def new_parser_def)

lemma parser_ok_reset [simp]: "parser_ok (parser_reset p)"
  by (simp add: parser_reset_eq)

lemma parse_inline_bounded:
  assumes "parse_inline p r = (Some (Complete a), p', k)"
  shows "command_bounded (limits p) a"
proof -
  obtain line where s: "split_inline line = Some a" and l: "length line \<le> max_inline_len (limits p)"
    using assms
    by (auto simp: parse_inline_def fail_def Let_def split: option.splits if_splits)
  have "length a \<le> length line" "\<forall>w \<in> set a. length w \<le> length line"
    using split_inline_bounds [OF s] by auto
  with l show ?thesis by (fastforce simp: command_bounded_def)
qed

lemma parse_case_ok:
  assumes "parser_ok p" "parse_case p r = (st, p', k)"
  shows "parser_ok p'"
proof (cases "pstate p")
  case Start
  then have "p' = p \<or> p' = parser_reset p \<or>
      (\<exists>n. p' = p\<lparr>args_remaining := n, pargv := [], pstate := ArgLen\<rparr> \<and> 0 < n \<and>
           n \<le> int (max_multibulk_args (limits p)))"
    using assms(2) by (auto simp: parse_case_defs split: if_splits option.splits)
  then show ?thesis
    using assms(1) by (elim disjE exE) (simp_all add: parser_ok_def [of "_\<lparr>pstate := _\<rparr>"])
next
  case ArgLen
  then have "p' = p \<or> p' = parser_reset p \<or>
      (\<exists>n. p' = p\<lparr>arg_len := n, pstate := ArgData\<rparr> \<and> 0 \<le> n \<and> n \<le> int (max_bulk_len (limits p)))"
    using assms(2) by (auto simp: parse_case_defs split: if_splits option.splits)
  then show ?thesis
    using assms(1) ArgLen by (elim disjE exE) (simp_all, simp add: parser_ok_def)
next
  case ArgData
  let ?q = "p\<lparr>pargv := pargv p @ [take (nat (arg_len p)) r], arg_len := - 1,
      args_remaining := args_remaining p - 1, pstate := ArgLen\<rparr>"
  from ArgData have "p' = p \<or> p' = parser_reset p \<or> (p' = ?q \<and> args_remaining p \<noteq> 1)"
    using assms(2) by (auto simp: parse_case_defs split: if_splits)
  moreover have "parser_ok ?q" if "args_remaining p \<noteq> 1"
    using assms(1) ArgData that by (auto simp: parser_ok_def)
  ultimately show ?thesis using assms(1) by auto
qed

lemma parse_case_complete_bounded:
  assumes "parser_ok p" "parse_case p r = (Some (Complete a), p', k)"
  shows "command_bounded (limits p) a"
proof (cases "pstate p")
  case Start
  with assms(2) show ?thesis
    using parse_inline_bounded [of p r a p' k]
    by (auto simp: parse_case_def parse_start_def fail_def command_bounded_def
        split: if_splits option.splits)
next
  case ArgLen
  with assms(2) show ?thesis by (auto simp: parse_case_defs split: if_splits option.splits)
next
  case ArgData
  with assms show ?thesis
    by (fastforce simp: parse_case_defs parser_ok_def command_bounded_def split: if_splits)
qed

lemma parse_case_incomplete_bounded:
  assumes "parser_ok p" "parse_case p r = (Some Incomplete, p', k)"
  shows "length r \<le> max_pending (limits p)"
  using assms
  by (cases "pstate p")
     (auto simp: parse_case_defs parser_ok_def max_pending_def split: if_splits option.splits)

lemma parse_bytes_bounded:
  "parser_ok p \<Longrightarrow> parse_bytes p r = (st, p', r') \<Longrightarrow>
     parser_ok p' \<and> (\<forall>a. st = Complete a \<longrightarrow> command_bounded (limits p) a) \<and>
     (st = Incomplete \<longrightarrow> length r' \<le> max_pending (limits p))"
proof (induction p r rule: parse_bytes.induct)
  case (1 p r)
  show ?case
  proof (cases rule: parse_bytes_cases [of p r])
    case (1 st1 p1 k)
    with "1.prems" have "st1 = st" "p1 = p'" "r' = drop_opt k r" by auto
    with 1 "1.prems"(1) show ?thesis
      using parse_case_ok parse_case_complete_bounded parse_case_incomplete_bounded
        parse_case_incomplete by fastforce
  next
    case (2 p1 k)
    with "1.prems" have "parser_ok p1" "parse_bytes p1 (drop_opt k r) = (st, p', r')" "limits p1 = limits p"
      by (auto intro: parse_case_ok parse_case_limits)
    then show ?thesis using "1.IH" [OF 2(1) [symmetric] refl refl] by simp
  qed
qed

subsection \<open>Properties\<close>

text \<open>
  C22: the protocol limits hold on every path. From any state the parser can be in, a call leaves it
  in a consistent state, a command it hands out has no more and no longer arguments than the
  limits allow, and when it waits for more, no more than one bulk string, one inline line or one
  header is buffered.
\<close>

theorem parser_respects_limits:
  assumes "parser_ok p" "parse_bytes p r = (st, p', r')"
  shows "parser_ok p' \<and> limits p' = limits p \<and>
    (case st of Complete a \<Rightarrow> command_bounded (limits p) a
              | Incomplete \<Rightarrow> length r' \<le> max_pending (limits p)
              | ParseError e \<Rightarrow> p' = new_parser (limits p))"
proof -
  have "p' = new_parser (limits p)" if "st = ParseError e" for e
    using assms(2) that
  proof (induction p r rule: parse_bytes.induct)
    case (1 p r)
    show ?case
    proof (cases rule: parse_bytes_cases [of p r])
      case (1 st1 p1 k)
      with "1.prems" have "parse_case p r = (Some (ParseError e), p', k)" by auto
      then show ?thesis by (auto dest: parse_case_error_reset simp: parser_reset_eq)
    next
      case (2 p1 k)
      with "1.IH" "1.prems" show ?thesis by (auto dest: parse_case_limits)
    qed
  qed
  then show ?thesis
    using parse_bytes_bounded [OF assms] parse_bytes_limits [OF assms(2)] by (cases st) auto
qed

theorem parser_respects_limits_witness:
  "\<exists>st p' r'. parse_bytes (new_parser default_limits) ''*1'' = (st, p', r') \<and> parser_ok p'"
proof -
  obtain st p' r' where r: "parse_bytes (new_parser default_limits) ''*1'' = (st, p', r')"
    by (metis prod_cases3)
  show ?thesis using parser_respects_limits [OF parser_ok_new r] r by blast
qed

end
