(* ===== verification/Exec.thy ===== *)
theory Exec
  imports Framing Parser_Bounds
begin

text \<open>
  Running a list of commands against the keyspace, without a connection: what the commands write
  and what they leave behind. A command's output does not depend on what is already in the
  output buffer, which is what lets the write path drain it at any pace.
\<close>

subsection \<open>What every command keeps, without any condition on its arguments\<close>

definition raw_reply :: "reply \<Rightarrow> bytes" where
  "raw_reply r = buf_contents (write_reply new_buffer r)"

lemma contents_write_reply_raw: "buf_ok out \<Longrightarrow> buf_contents (write_reply out r) = buf_contents out @ raw_reply r"
  by (cases r) (simp_all add: raw_reply_def reply_defs append_int_crlf_def)

lemma raw_reply_wf: "wf_reply r \<Longrightarrow> raw_reply r = encode_reply r"
  using contents_write_reply [of new_buffer r] by (simp add: raw_reply_def)

definition raw_ok :: bytes where
  "raw_ok = encode_reply (RSimple ''OK'')"

text \<open>
  \<open>speaks c c' x\<close>: \<open>c'\<close> is what a handler makes of \<open>c\<close> if it appends \<open>x\<close> to the output. The
  keyspace and the flags of the result are those it has when the output starts out empty.
\<close>

definition speaks :: "(cmd_ctx \<Rightarrow> cmd_ctx) \<Rightarrow> cmd_ctx \<Rightarrow> bool" where
  "speaks f c \<longleftrightarrow> (\<exists>x d q. \<forall>b. buf_ok b \<longrightarrow>
     buf_ok (cout (f (c\<lparr>cout := b\<rparr>))) \<and> buf_contents (cout (f (c\<lparr>cout := b\<rparr>))) = buf_contents b @ x \<and>
     cdb (f (c\<lparr>cout := b\<rparr>)) = d \<and> close_after_reply (f (c\<lparr>cout := b\<rparr>)) = q)"

datatype utterance = Say reply | SayOk

fun utter :: "cmd_ctx \<Rightarrow> db \<Rightarrow> utterance \<Rightarrow> cmd_ctx" where
  "utter c d (Say r) = say (c\<lparr>cdb := d\<rparr>) r"
| "utter c d SayOk = say_ok (c\<lparr>cdb := d\<rparr>)"

lemma speaks_utter:
  assumes "\<And>b. f (c\<lparr>cout := b\<rparr>) = utter (c\<lparr>cout := b\<rparr>) d u"
  shows "speaks f c"
proof (cases u)
  case (Say r)
  show ?thesis
    unfolding speaks_def assms Say
    by (rule exI [of _ "raw_reply r"], rule exI [of _ d], rule exI [of _ "close_after_reply c"])
       (simp add: say_def contents_write_reply_raw buf_ok_write_reply)
next
  case SayOk
  show ?thesis
    unfolding speaks_def assms SayOk
    by (rule exI [of _ raw_ok], rule exI [of _ d], rule exI [of _ "close_after_reply c"])
       (simp add: say_ok_def reply_ok_eq raw_ok_def)
qed

text \<open>
  Each handler: on every path it utters one thing, chosen by the arguments and the keyspace. The
  rules follow the shape of the handlers' bodies.
\<close>

definition uttered :: "cmd_ctx \<Rightarrow> (buffer \<Rightarrow> cmd_ctx) \<Rightarrow> bool" where
  "uttered c t \<longleftrightarrow> (\<exists>d u. \<forall>b. t b = utter (c\<lparr>cout := b\<rparr>) d u)"

lemma uttered_speaks: "uttered c (\<lambda>b. f (c\<lparr>cout := b\<rparr>)) \<Longrightarrow> speaks f c"
  using speaks_utter unfolding uttered_def by metis

lemma uttered_end:
  "uttered c (\<lambda>b. say (c\<lparr>cout := b, cdb := d\<rparr>) r)" "uttered c (\<lambda>b. say (c\<lparr>cout := b\<rparr>) r)"
  "uttered c (\<lambda>b. say_ok (c\<lparr>cout := b, cdb := d\<rparr>))" "uttered c (\<lambda>b. say_ok (c\<lparr>cout := b\<rparr>))"
proof -
  show "uttered c (\<lambda>b. say (c\<lparr>cout := b, cdb := d\<rparr>) r)"
    unfolding uttered_def by (rule exI [of _ d], rule exI [of _ "Say r"]) simp
  show "uttered c (\<lambda>b. say (c\<lparr>cout := b\<rparr>) r)"
    unfolding uttered_def by (rule exI [of _ "cdb c"], rule exI [of _ "Say r"]) (cases c, simp)
  show "uttered c (\<lambda>b. say_ok (c\<lparr>cout := b, cdb := d\<rparr>))"
    unfolding uttered_def by (rule exI [of _ d], rule exI [of _ SayOk]) simp
  show "uttered c (\<lambda>b. say_ok (c\<lparr>cout := b\<rparr>))"
    unfolding uttered_def by (rule exI [of _ "cdb c"], rule exI [of _ SayOk]) (cases c, simp)
qed

lemma uttered_if: "uttered c t1 \<Longrightarrow> uttered c t2 \<Longrightarrow> uttered c (\<lambda>b. if P then t1 b else t2 b)"
  by (cases P) simp_all

lemma uttered_option:
  "uttered c t1 \<Longrightarrow> (\<And>v. uttered c (t2 v)) \<Longrightarrow> uttered c (\<lambda>b. case x of None \<Rightarrow> t1 b | Some v \<Rightarrow> t2 v b)"
  by (cases x) simp_all

lemma uttered_prod: "(\<And>u v. uttered c (t u v)) \<Longrightarrow> uttered c (\<lambda>b. case x of (u, v) \<Rightarrow> t u v b)"
  by (cases x) simp

lemma uttered_sum:
  "(\<And>v. uttered c (t1 v)) \<Longrightarrow> (\<And>v. uttered c (t2 v)) \<Longrightarrow>
     uttered c (\<lambda>b. case x of Inl v \<Rightarrow> t1 v b | Inr v \<Rightarrow> t2 v b)"
  by (cases x) simp_all

lemmas uttered_intros = uttered_end uttered_if uttered_option uttered_prod uttered_sum

lemmas handler_defs =
  cmd_ping_def cmd_echo_def cmd_set_def cmd_get_def cmd_incr_def cmd_decr_def incr_by_def cmd_del_def
  cmd_exists_def cmd_type_def cmd_expire_def cmd_ttl_def cmd_persist_def cmd_dbsize_def
  cmd_flushall_def cmd_command_def Let_def

lemma handler_speaks: "speaks (run_handler h) c"
proof (cases "h = CmdQuit")
  case True
  then show ?thesis
    unfolding speaks_def
    by (intro exI [of _ raw_ok] exI [of _ "cdb c"] exI [of _ True])
       (simp add: cmd_quit_def say_ok_def reply_ok_eq raw_ok_def)
next
  case False
  then show ?thesis
    by (cases h) (auto simp: handler_defs intro!: uttered_speaks uttered_intros)
qed

lemma dispatch_speaks: "speaks dispatch c"
proof (cases "table_find (cargv c ! 0)")
  case None
  then show ?thesis by (auto simp: dispatch_def intro!: uttered_speaks uttered_intros)
next
  case (Some cmd)
  show ?thesis
  proof (cases "arity_ok (cmd_arity cmd) (length (cargv c))")
    case True
    then have "dispatch (c\<lparr>cout := b\<rparr>) = run_handler (cmd_handler cmd) (c\<lparr>cout := b\<rparr>)" for b
      using Some by (simp add: dispatch_def)
    then show ?thesis using handler_speaks [of "cmd_handler cmd" c] by (simp add: speaks_def)
  next
    case False
    then show ?thesis using Some by (auto simp: dispatch_def intro!: uttered_speaks uttered_intros)
  qed
qed

lemma dispatch_db_ok:
  assumes "ctx_ok c" shows "db_ok (cdb (dispatch c))"
proof (cases "table_find (cargv c ! 0)")
  case None
  then show ?thesis using assms by (simp add: dispatch_def say_def ctx_ok_def)
next
  case (Some cmd)
  note t = table_find_cases [OF Some]
  show ?thesis
  proof (cases "arity_ok (cmd_arity cmd) (length (cargv c)) \<and> to_lower_ascii (cargv c ! 0) \<noteq> ''dbsize''")
    case True
    then show ?thesis
      using run_handler_one_reply [OF assms t(1)] Some by (auto simp: dispatch_def one_reply_def)
  next
    case False
    then have "\<not> arity_ok (cmd_arity cmd) (length (cargv c)) \<or> cmd_handler cmd = CmdDbsize"
      using t(1) by (auto simp: the_table_eq)
    then show ?thesis
      using Some assms by (auto simp: dispatch_def say_def ctx_ok_def cmd_dbsize_def)
  qed
qed

subsection \<open>A list of commands\<close>

definition fresh_ctx :: "bytes list \<Rightarrow> buffer \<Rightarrow> db \<Rightarrow> cmd_ctx" where
  "fresh_ctx argv out d = \<lparr>cargv = argv, cout = out, cdb = d, close_after_reply = False\<rparr>"

lemma fresh_ctx_sel [simp]:
  "cargv (fresh_ctx argv out d) = argv" "cout (fresh_ctx argv out d) = out" "cdb (fresh_ctx argv out d) = d"
  "close_after_reply (fresh_ctx argv out d) = False" "(fresh_ctx argv out d)\<lparr>cout := b\<rparr> = fresh_ctx argv b d"
  by (simp_all add: fresh_ctx_def)

lemma dispatch_output:
  assumes "buf_ok b"
  shows "buf_ok (cout (dispatch (fresh_ctx argv b d)))"
    "buf_contents (cout (dispatch (fresh_ctx argv b d))) =
       buf_contents b @ buf_contents (cout (dispatch (fresh_ctx argv new_buffer d)))"
    "cdb (dispatch (fresh_ctx argv b d)) = cdb (dispatch (fresh_ctx argv new_buffer d))"
    "close_after_reply (dispatch (fresh_ctx argv b d)) = close_after_reply (dispatch (fresh_ctx argv new_buffer d))"
proof -
  obtain x e q where *: "\<forall>b. buf_ok b \<longrightarrow>
     buf_ok (cout (dispatch (fresh_ctx argv b d))) \<and>
     buf_contents (cout (dispatch (fresh_ctx argv b d))) = buf_contents b @ x \<and>
     cdb (dispatch (fresh_ctx argv b d)) = e \<and> close_after_reply (dispatch (fresh_ctx argv b d)) = q"
    using dispatch_speaks [of "fresh_ctx argv new_buffer d"] unfolding speaks_def by auto
  show "buf_ok (cout (dispatch (fresh_ctx argv b d)))"
    "buf_contents (cout (dispatch (fresh_ctx argv b d))) =
       buf_contents b @ buf_contents (cout (dispatch (fresh_ctx argv new_buffer d)))"
    "cdb (dispatch (fresh_ctx argv b d)) = cdb (dispatch (fresh_ctx argv new_buffer d))"
    "close_after_reply (dispatch (fresh_ctx argv b d)) = close_after_reply (dispatch (fresh_ctx argv new_buffer d))"
    using assms * [rule_format, of b] * [rule_format, of new_buffer] by auto
qed

text \<open>
  The commands of a stream, one after the other: the bytes they write, the keyspace they leave and
  whether one of them asked for the connection to end. Empty argument vectors are skipped.
\<close>

fun exec :: "bytes list list \<Rightarrow> db \<Rightarrow> bytes \<times> db \<times> bool" where
  "exec [] d = ([], d, False)"
| "exec (argv # cmds) d =
     (if argv = [] then exec cmds d
      else let x = dispatch (fresh_ctx argv new_buffer d) in
        if close_after_reply x then (buf_contents (cout x), cdb x, True)
        else case exec cmds (cdb x) of (bs, d', q) \<Rightarrow> (buf_contents (cout x) @ bs, d', q))"

lemma exec_append:
  "exec cmds d = (bs, d', False) \<Longrightarrow>
     exec (cmds @ rest) d = (case exec rest d' of (bs', d'', q) \<Rightarrow> (bs @ bs', d'', q))"
  by (induction cmds d arbitrary: bs rule: exec.induct)
     (auto simp: Let_def split: if_splits prod.splits)

lemma exec_quit_append: "exec cmds d = (bs, d', True) \<Longrightarrow> exec (cmds @ rest) d = (bs, d', True)"
  by (induction cmds d arbitrary: bs rule: exec.induct)
     (auto simp: Let_def split: if_splits prod.splits)

lemma command_argv_ok:
  assumes "command_bounded l argv" "limits_ok l" "int (max_inline_len l) \<le> INT64_MAX"
  shows "argv_ok argv"
proof -
  have "int (max (max_multibulk_args l) (max_inline_len l)) \<le> INT64_MAX"
    "int (max (max_bulk_len l) (max_inline_len l)) \<le> INT64_MAX"
    using assms(2,3) by (auto simp: limits_ok_def)
  with assms(1) show ?thesis unfolding command_bounded_def argv_ok_def by (meson dual_order.trans of_nat_mono)
qed

subsection \<open>Properties\<close>

text \<open>
  QUIT ends a pipeline. Whatever commands precede and follow it, the commands before it are
  executed and answered, QUIT itself is answered with OK, and nothing behind it is executed.
\<close>

theorem quit_ends_pipeline:
  assumes "exec before d = (bs, d', False)" "to_lower_ascii q = ''quit''"
  shows "exec (before @ [q] # behind) d = (bs @ encode_reply (RSimple ''OK''), d', True)"
proof -
  have "table_find q = Some \<lparr>cmd_name = ''quit'', cmd_handler = CmdQuit, cmd_arity = 1\<rparr>"
    using assms(2) by (simp add: table_find_def the_table_eq)
  then have "dispatch (fresh_ctx [q] new_buffer d') = cmd_quit (fresh_ctx [q] new_buffer d')"
    by (simp add: dispatch_def arity_ok_def)
  then have "exec ([q] # behind) d' = (encode_reply (RSimple ''OK''), d', True)"
    by (simp add: cmd_quit_def say_ok_def reply_ok_eq del: encode_reply.simps)
  then show ?thesis using exec_append [OF assms(1), of "[q] # behind"] by simp
qed

theorem quit_ends_pipeline_witness:
  "exec ([] @ [''QUIT''] # [[''SET'', ''a'', ''b'']]) (new_db 1 (\<lambda>i. 1000)) =
     ([] @ encode_reply (RSimple ''OK''), new_db 1 (\<lambda>i. 1000), True)"
proof (rule quit_ends_pipeline)
  show "to_lower_ascii ''QUIT'' = ''quit''" by code_simp
qed simp

end
