(* ===== verification/Logging.thy ===== *)
theory Logging
  imports Integers
begin

text \<open>
  The log of \<^verbatim>\<open>src/util/log.h\<close> and \<^verbatim>\<open>src/util/log.cpp\<close>: the levels, the minimal level that is a global of
  the process, and the lines that go to \<^verbatim>\<open>stderr\<close>. The broken-down local time and the microseconds
  come from a script, since they are what \<^verbatim>\<open>localtime_r\<close> and \<^verbatim>\<open>gettimeofday\<close> answer; a message is
  the text after \<^verbatim>\<open>printf\<close> has filled it in. The time stamp goes through an array of 32 bytes, and
  both calls that write to it are bounded.
\<close>

subsection \<open>Levels\<close>

datatype log_level = Debug | Info | Warn | Error

fun level_no :: "log_level \<Rightarrow> nat" where
  "level_no Debug = 0"
| "level_no Info = 1"
| "level_no Warn = 2"
| "level_no Error = 3"

instantiation log_level :: linorder
begin

definition less_eq_log_level :: "log_level \<Rightarrow> log_level \<Rightarrow> bool" where
  "less_eq_log_level a b \<longleftrightarrow> level_no a \<le> level_no b"

definition less_log_level :: "log_level \<Rightarrow> log_level \<Rightarrow> bool" where
  "less_log_level a b \<longleftrightarrow> level_no a < level_no b"

instance
proof
  fix a b :: log_level
  show "a \<le> b \<Longrightarrow> b \<le> a \<Longrightarrow> a = b"
    by (cases a; cases b) (auto simp: less_eq_log_level_def)
qed (auto simp: less_eq_log_level_def less_log_level_def)

end

fun level_tag :: "log_level \<Rightarrow> bytes" where
  "level_tag Debug = ''DEBUG''"
| "level_tag Info = ''INFO ''"
| "level_tag Warn = ''WARN ''"
| "level_tag Error = ''ERROR''"

subsection \<open>The time stamp\<close>

record tm =
  tm_year :: int
  tm_mon :: int
  tm_mday :: int
  tm_hour :: int
  tm_min :: int
  tm_sec :: int

text \<open>\<open>%0wd\<close> for numbers that are not negative.\<close>

definition pad0 :: "nat \<Rightarrow> int \<Rightarrow> bytes" where
  "pad0 w n = (let s = std_to_string n in replicate (w - length s) (CHR ''0'') @ s)"

text \<open>
  \<^verbatim>\<open>strftime\<close> writes the text if it fits with its terminator, and reports how much; otherwise it
  reports zero. \<^verbatim>\<open>snprintf\<close> writes what fits.
\<close>

definition strftime_stamp :: "nat \<Rightarrow> tm \<Rightarrow> bytes" where
  "strftime_stamp room t =
     (let s = std_to_string (1900 + tm_year t) @ ''-'' @ pad0 2 (tm_mon t + 1) @ ''-'' @ pad0 2 (tm_mday t) @ '' '' @
              pad0 2 (tm_hour t) @ '':'' @ pad0 2 (tm_min t) @ '':'' @ pad0 2 (tm_sec t)
      in if length s < room then s else [])"

definition snprintf_bytes :: "nat \<Rightarrow> bytes \<Rightarrow> bytes" where
  "snprintf_bytes room s = take (room - 1) s"

definition log_stamp :: "tm \<Rightarrow> int \<Rightarrow> bytes" where
  "log_stamp t usec =
     (let s = strftime_stamp 32 t
      in s @ snprintf_bytes (32 - length s) (''.'' @ pad0 3 (usec sdiv 1000)))"

subsection \<open>The log\<close>

text \<open>A line is kept in its parts: the time stamp, the level and the message.\<close>

type_synonym log_line = "bytes \<times> log_level \<times> bytes"

record logger =
  g_min_level :: log_level
  log_times :: "nat \<Rightarrow> tm \<times> int"
  stderr :: "log_line list"

definition new_logger :: "(nat \<Rightarrow> tm \<times> int) \<Rightarrow> logger" where
  "new_logger ts = \<lparr>g_min_level = Info, log_times = ts, stderr = []\<rparr>"

definition set_min_level :: "log_level \<Rightarrow> logger \<Rightarrow> logger" where
  "set_min_level level L = L\<lparr>g_min_level := level\<rparr>"

definition line_text :: "log_line \<Rightarrow> bytes" where
  "line_text l = (case l of (stamp, level, msg) \<Rightarrow> stamp @ '' '' @ level_tag level @ '' '' @ msg @ [LF])"

definition vwrite :: "log_level \<Rightarrow> bytes \<Rightarrow> logger \<Rightarrow> logger" where
  "vwrite level msg L =
     (if level < g_min_level L then L
      else let (t, usec) = log_times L 0
           in L\<lparr>log_times := (\<lambda>i. log_times L (Suc i)), stderr := stderr L @ [(log_stamp t usec, level, msg)]\<rparr>)"

definition log_debug :: "bytes \<Rightarrow> logger \<Rightarrow> logger" where
  "log_debug msg L = vwrite Debug msg L"

definition log_info :: "bytes \<Rightarrow> logger \<Rightarrow> logger" where
  "log_info msg L = vwrite Info msg L"

definition log_warn :: "bytes \<Rightarrow> logger \<Rightarrow> logger" where
  "log_warn msg L = vwrite Warn msg L"

definition log_error :: "bytes \<Rightarrow> logger \<Rightarrow> logger" where
  "log_error msg L = vwrite Error msg L"

text \<open>What is on \<^verbatim>\<open>stderr\<close>.\<close>

definition stderr_text :: "logger \<Rightarrow> bytes" where
  "stderr_text L = concat (map line_text (stderr L))"

text \<open>What \<^verbatim>\<open>%s\<close> prints of a string handed over by \<^verbatim>\<open>c_str\<close>, and what \<^verbatim>\<open>%zu\<close> prints.\<close>

definition c_str :: "bytes \<Rightarrow> bytes" where
  "c_str s = takeWhile (\<lambda>c. c \<noteq> CHR 0x00) s"

lemma c_str_append: "CHR 0x00 \<notin> set b \<Longrightarrow> c_str (b @ a) = b @ c_str a"
  by (induction b) (auto simp: c_str_def)

definition fmt_zu :: "nat \<Rightarrow> bytes" where
  "fmt_zu n = std_to_string (int n)"

subsection \<open>Bounds of the time stamp\<close>

text \<open>Fields of an ordinary date; a leap second is second 60.\<close>

definition tm_ok :: "tm \<Rightarrow> bool" where
  "tm_ok t \<longleftrightarrow> 1000 \<le> 1900 + tm_year t \<and> 1900 + tm_year t \<le> 9999 \<and> 0 \<le> tm_mon t \<and> tm_mon t \<le> 11 \<and>
     1 \<le> tm_mday t \<and> tm_mday t \<le> 31 \<and> 0 \<le> tm_hour t \<and> tm_hour t \<le> 23 \<and> 0 \<le> tm_min t \<and> tm_min t \<le> 59 \<and>
     0 \<le> tm_sec t \<and> tm_sec t \<le> 60"

lemma length_dec_digits_le: "n < 10 ^ Suc k \<Longrightarrow> length (dec_digits n) \<le> Suc k"
proof (induction k arbitrary: n)
  case (Suc k)
  then have "n div 10 < 10 ^ Suc k" by (simp add: less_mult_imp_div_less mult.commute)
  then show ?case using Suc.IH [of "n div 10"] by (simp add: dec_digits.simps [of n])
qed (simp add: dec_digits.simps)

lemma length_dec_digits_4: "1000 \<le> n \<Longrightarrow> n \<le> 9999 \<Longrightarrow> length (dec_digits n) = 4"
proof -
  assume n: "1000 \<le> n" "n \<le> 9999"
  then have "\<not> n < 10" "\<not> n div 10 < 10" "\<not> n div 10 div 10 < 10" "n div 10 div 10 div 10 < 10" by linarith+
  then show ?thesis
    by (simp add: dec_digits.simps [of n] dec_digits.simps [of "n div 10"] dec_digits.simps [of "n div 10 div 10"]
        dec_digits.simps [of "n div 10 div 10 div 10"])
qed

lemma length_pad0: "0 \<le> n \<Longrightarrow> n < 10 ^ Suc k \<Longrightarrow> length (pad0 (Suc k) n) = Suc k"
  using length_dec_digits_le [of "nat n" k] by (auto simp: pad0_def std_to_string_def Let_def nat_less_iff)

lemma length_pad0_2: "0 \<le> n \<Longrightarrow> n < 100 \<Longrightarrow> length (pad0 2 n) = 2"
  using length_pad0 [of n 1] by (simp add: numeral_2_eq_2)

lemma length_log_stamp: "length (log_stamp t usec) < 32"
  by (auto simp: log_stamp_def strftime_stamp_def snprintf_bytes_def Let_def)

lemma length_log_stamp_ok:
  assumes "tm_ok t" "0 \<le> usec" "usec < 1000000"
  shows "length (log_stamp t usec) = 23"
proof -
  have y: "1000 \<le> nat (1900 + tm_year t)" "nat (1900 + tm_year t) \<le> 9999" using assms(1) by (auto simp: tm_ok_def)
  then have "length (std_to_string (1900 + tm_year t)) = 4"
    using length_dec_digits_4 [OF y] assms(1) by (simp add: std_to_string_def tm_ok_def)
  moreover have "length (pad0 2 (tm_mon t + 1)) = 2" "length (pad0 2 (tm_mday t)) = 2" "length (pad0 2 (tm_hour t)) = 2"
    "length (pad0 2 (tm_min t)) = 2" "length (pad0 2 (tm_sec t)) = 2"
    using assms(1) by (simp_all add: tm_ok_def length_pad0_2)
  ultimately have "length (strftime_stamp 32 t) = 19" by (simp add: strftime_stamp_def Let_def)
  moreover have "length (pad0 3 (usec sdiv 1000)) = 3"
    using assms(2,3) length_pad0 [of "usec div 1000" 2] by (simp add: sdiv_pos_eq numeral_3_eq_3)
  ultimately show ?thesis by (simp add: log_stamp_def snprintf_bytes_def Let_def)
qed

lemma length_level_tag [simp]: "length (level_tag l) = 5"
  by (cases l) simp_all

subsection \<open>Properties\<close>

text \<open>
  C33: a log line is laid out in fixed columns. Whatever the clock says, the time stamp stays within
  its array of 32 bytes. For an ordinary date nothing of it is cut off: a line at or above the
  minimal level has 23 bytes of time stamp, then the level in five, and the whole message up to
  the line end; a line below the level is not written at all.
\<close>

theorem log_line_layout:
  assumes "log_times L 0 = (t, usec)" "tm_ok t" "0 \<le> usec" "usec < 1000000"
  shows "length (log_stamp t' usec') < 32 \<and>
    (if level < g_min_level L then vwrite level msg L = L
     else \<exists>line. stderr_text (vwrite level msg L) = stderr_text L @ line \<and>
       take 5 (drop 24 line) = level_tag level \<and> drop 30 line = msg @ [LF])"
  using length_log_stamp [of t' usec'] length_log_stamp_ok [OF assms(2-4)] assms(1)
  by (auto simp: vwrite_def stderr_text_def line_text_def)

theorem log_line_layout_witness:
  "\<exists>line. stderr_text (vwrite Warn ''paused''
       (new_logger (\<lambda>i. (\<lparr>tm_year = 125, tm_mon = 0, tm_mday = 2, tm_hour = 3, tm_min = 4, tm_sec = 5\<rparr>, 6000)))) = line \<and>
     drop 30 line = ''paused'' @ [LF]"
proof -
  let ?t = "\<lparr>tm_year = 125, tm_mon = 0, tm_mday = 2, tm_hour = 3, tm_min = 4, tm_sec = 5\<rparr>"
  have "tm_ok ?t" "log_times (new_logger (\<lambda>i. (?t, 6000))) 0 = (?t, 6000)" by (simp_all add: tm_ok_def new_logger_def)
  from log_line_layout [OF this(2,1), of _ _ Warn "''paused''"] show ?thesis
    by (auto simp: new_logger_def less_log_level_def stderr_text_def [of "\<lparr>g_min_level = Info, log_times = _, stderr = []\<rparr>"])
qed

end
