(* ===== verification/Kernel.thy ===== *)
theory Kernel
  imports Logging "HOL-Library.FSet"
begin

text \<open>
  The operating system as the server sees it. The record \<open>kernel\<close> is the environment: what each
  system call is going to answer, and what a call has done to the descriptors. Whether a call
  succeeds is read off a script; which descriptor a call hands out is the function \<open>alloc\<close> of the
  descriptors in use. \<open>kernel_ok\<close> states all that is relied on: a new descriptor is a number
  not below zero that is not in use. Any call may fail. The record \<open>platform\<close> has what the C library and the headers fix.
\<close>

unbundle bit_operations_syntax

datatype backend = Epoll | Kqueue

datatype sockopt = ReuseAddr | TcpNodelay | NoSigpipe

record platform =
  O_NONBLOCK :: "32 word"
  little_endian :: bool
  has_nosigpipe :: bool
  poll_backend :: backend
  getpid :: int
  strerror :: "int \<Rightarrow> bytes"
  inet_pton :: "bytes \<Rightarrow> 32 word option"
  inet_ntop :: "32 word \<Rightarrow> bytes option"

datatype accept_outcome =
  AcceptReady | AcceptAgain | AcceptIntr | AcceptAborted | AcceptNoFd | AcceptOther

datatype send_outcome = SendTook nat | SendIntr | SendAgain | SendFail

datatype read_outcome = ReadBytes bytes | ReadAgain | ReadIntr | ReadFail

text \<open>
  \<open>calls\<close> has the outcomes of the
  calls that set up sockets: zero for success, otherwise the value \<^verbatim>\<open>errno\<close> gets. An address is an
  IPv4 address with a port in network byte order; \<open>ephemeral\<close> is the port the system picks for
  a socket bound to port zero. \<open>mod_refused\<close> records for each descriptor whether the last change of its
  write interest failed; no definition reads it. \<open>errnos\<close> has the values that \<^verbatim>\<open>errno\<close> turns out to have when the server
  reads it for a message after \<^verbatim>\<open>open\<close>, \<^verbatim>\<open>accept\<close>, \<^verbatim>\<open>read\<close> or \<^verbatim>\<open>send\<close>. \<open>klog\<close> is the log of the process.
\<close>

record kernel =
  plat :: platform
  open_fds :: "int fset"
  alloc :: "int fset \<Rightarrow> int"
  errno :: int
  calls :: "nat \<Rightarrow> int"
  accepts :: "nat \<Rightarrow> accept_outcome"
  opens :: "nat \<Rightarrow> bool"
  ctl_adds :: "nat \<Rightarrow> bool"
  ctl_mods :: "nat \<Rightarrow> bool"
  mod_refused :: "int \<Rightarrow> bool"
  sends :: "send_outcome list"
  interest :: "int \<rightharpoonup> bool"
  wire :: "int \<Rightarrow> bytes"
  status_flags :: "int \<Rightarrow> 32 word"
  fresh_flags :: "32 word"
  ephemeral :: "16 word"
  bound_to :: "int \<rightharpoonup> 32 word \<times> 16 word"
  peers :: "int \<Rightarrow> 32 word \<times> 16 word"
  listening :: "int \<rightharpoonup> int"
  sockopts :: "(int \<times> sockopt) fset"
  errnos :: "nat \<Rightarrow> int"
  klog :: logger

definition kernel_ok :: "kernel \<Rightarrow> bool" where
  "kernel_ok k \<longleftrightarrow> (\<forall>S. 0 \<le> alloc k S \<and> alloc k S |\<notin>| S)"

definition nonblocking :: "kernel \<Rightarrow> int \<Rightarrow> bool" where
  "nonblocking k fd \<longleftrightarrow> status_flags k fd AND O_NONBLOCK (plat k) = O_NONBLOCK (plat k)"

subsection \<open>Descriptors\<close>

text \<open>
  \<open>open("/dev/null")\<close>, \<open>accept\<close> and \<open>close\<close>. A fresh connection has received nothing yet and has the
  status flags of a new socket; closing a socket ends its registration and its settings.
\<close>

definition sys_open :: "kernel \<Rightarrow> int \<times> kernel" where
  "sys_open k =
     (let k' = k\<lparr>opens := (\<lambda>i. opens k (Suc i))\<rparr>; fd = alloc k (open_fds k) in
      if opens k 0 then (fd, k'\<lparr>open_fds := finsert fd (open_fds k)\<rparr>) else (- 1, k'))"

definition sys_accept :: "kernel \<Rightarrow> accept_outcome \<times> int \<times> kernel" where
  "sys_accept k =
     (let k' = k\<lparr>accepts := (\<lambda>i. accepts k (Suc i))\<rparr>; fd = alloc k (open_fds k) in
      if accepts k 0 = AcceptReady
      then (AcceptReady, fd, k'\<lparr>open_fds := finsert fd (open_fds k), wire := (wire k)(fd := []),
              status_flags := (status_flags k)(fd := fresh_flags k)\<rparr>)
      else (accepts k 0, - 1, k'))"

definition sys_close :: "int \<Rightarrow> kernel \<Rightarrow> kernel" where
  "sys_close fd k =
     k\<lparr>open_fds := open_fds k |-| {|fd|}, interest := (interest k)(fd := None),
       bound_to := (bound_to k)(fd := None), listening := (listening k)(fd := None),
       sockopts := ffilter (\<lambda>o1. fst o1 \<noteq> fd) (sockopts k)\<rparr>"

subsection \<open>Sockets\<close>

definition sys_call :: "kernel \<Rightarrow> bool \<times> kernel" where
  "sys_call k =
     (let r = calls k 0; k' = k\<lparr>calls := (\<lambda>i. calls k (Suc i))\<rparr> in
      if r = 0 then (True, k') else (False, k'\<lparr>errno := r\<rparr>))"

definition sys_socket :: "kernel \<Rightarrow> int \<times> kernel" where
  "sys_socket k =
     (let (ok, k) = sys_call k; fd = alloc k (open_fds k) in
      if ok
      then (fd, k\<lparr>open_fds := finsert fd (open_fds k), status_flags := (status_flags k)(fd := fresh_flags k)\<rparr>)
      else (- 1, k))"

definition sys_setsockopt :: "int \<Rightarrow> sockopt \<Rightarrow> kernel \<Rightarrow> bool \<times> kernel" where
  "sys_setsockopt fd opt k =
     (let (ok, k) = sys_call k in
      if ok then (True, k\<lparr>sockopts := finsert (fd, opt) (sockopts k)\<rparr>) else (False, k))"

text \<open>Byte order: \<^verbatim>\<open>htons\<close> and \<^verbatim>\<open>ntohs\<close> swap on a little-endian machine.\<close>

definition swap16 :: "16 word \<Rightarrow> 16 word" where
  "swap16 w = push_bit 8 w OR drop_bit 8 w"

definition htons :: "platform \<Rightarrow> 16 word \<Rightarrow> 16 word" where
  "htons P w = (if little_endian P then swap16 w else w)"

definition ntohs :: "platform \<Rightarrow> 16 word \<Rightarrow> 16 word" where
  "ntohs P w = (if little_endian P then swap16 w else w)"

definition sys_bind :: "int \<Rightarrow> 32 word \<Rightarrow> 16 word \<Rightarrow> kernel \<Rightarrow> bool \<times> kernel" where
  "sys_bind fd addr port k =
     (let (ok, k) = sys_call k in
      if ok
      then (True, k\<lparr>bound_to := (bound_to k)(fd \<mapsto> (addr, if port = 0 then htons (plat k) (ephemeral k) else port))\<rparr>)
      else (False, k))"

definition sys_listen :: "int \<Rightarrow> int \<Rightarrow> kernel \<Rightarrow> bool \<times> kernel" where
  "sys_listen fd backlog k =
     (let (ok, k) = sys_call k in
      if ok then (True, k\<lparr>listening := (listening k)(fd \<mapsto> backlog)\<rparr>) else (False, k))"

definition sys_getfl :: "int \<Rightarrow> kernel \<Rightarrow> 32 word option \<times> kernel" where
  "sys_getfl fd k = (let (ok, k) = sys_call k in (if ok then Some (status_flags k fd) else None, k))"

definition sys_setfl :: "int \<Rightarrow> 32 word \<Rightarrow> kernel \<Rightarrow> bool \<times> kernel" where
  "sys_setfl fd flags k =
     (let (ok, k) = sys_call k in
      if ok then (True, k\<lparr>status_flags := (status_flags k)(fd := flags)\<rparr>) else (False, k))"

definition sys_getsockname :: "int \<Rightarrow> kernel \<Rightarrow> (32 word \<times> 16 word) option \<times> kernel" where
  "sys_getsockname fd k =
     (let (ok, k) = sys_call k
      in (if ok then Some (case bound_to k fd of None \<Rightarrow> (0, 0) | Some a \<Rightarrow> a) else None, k))"

definition sys_getpeername :: "int \<Rightarrow> kernel \<Rightarrow> (32 word \<times> 16 word) option \<times> kernel" where
  "sys_getpeername fd k = (let (ok, k) = sys_call k in (if ok then Some (peers k fd) else None, k))"

lemma swap16_swap16 [simp]: "swap16 (swap16 w) = w"
  by (rule bit_word_eqI) (auto simp: swap16_def bit_simps)

lemma ntohs_htons [simp]: "ntohs P (htons P w) = w"
  by (simp add: ntohs_def htons_def)

lemma swap16_0 [simp]: "swap16 w = 0 \<longleftrightarrow> w = 0"
  by (metis swap16_swap16 swap16_def drop_bit_of_0 push_bit_of_0 or.right_neutral)

lemma htons_0 [simp]: "htons P w = 0 \<longleftrightarrow> w = 0"
  by (simp add: htons_def)

text \<open>The text for the current value of \<^verbatim>\<open>errno\<close>.\<close>

definition strerror_errno :: "kernel \<Rightarrow> bytes \<times> kernel" where
  "strerror_errno k = (strerror (plat k) (errnos k 0), k\<lparr>errnos := (\<lambda>i. errnos k (Suc i))\<rparr>)"

declare strerror_errno_def [simp]

lemma kernel_ok_log [simp]: "kernel_ok (k\<lparr>klog := L\<rparr>) = kernel_ok k" "kernel_ok (k\<lparr>errnos := E\<rparr>) = kernel_ok k"
  by (simp_all add: kernel_ok_def)

lemma nonblocking_log [simp]: "nonblocking (k\<lparr>klog := L\<rparr>) = nonblocking k" "nonblocking (k\<lparr>errnos := E\<rparr>) = nonblocking k"
  by (simp_all add: nonblocking_def fun_eq_iff)

subsection \<open>What the calls leave alone\<close>

text \<open>
  Setting up a socket changes neither which descriptors are open nor what is polled, sent or
  scripted for the data path; only the flags of the descriptor at hand may change.
\<close>

definition quiet :: "int \<Rightarrow> kernel \<Rightarrow> kernel \<Rightarrow> bool" where
  "quiet fd k k' \<longleftrightarrow> plat k' = plat k \<and> open_fds k' = open_fds k \<and> alloc k' = alloc k \<and>
     accepts k' = accepts k \<and> opens k' = opens k \<and> ctl_adds k' = ctl_adds k \<and> ctl_mods k' = ctl_mods k \<and>
     mod_refused k' = mod_refused k \<and>
     sends k' = sends k \<and> interest k' = interest k \<and> wire k' = wire k \<and> fresh_flags k' = fresh_flags k \<and>
     ephemeral k' = ephemeral k \<and> peers k' = peers k \<and>
     (\<forall>fd'. fd' \<noteq> fd \<longrightarrow> status_flags k' fd' = status_flags k fd')"

lemma quiet_refl [simp]: "quiet fd k k"
  by (simp add: quiet_def)

lemma quiet_trans: "quiet fd k k' \<Longrightarrow> quiet fd k' k'' \<Longrightarrow> quiet fd k k''"
  by (simp add: quiet_def)

lemma sys_call_quiet: "sys_call k = (ok, k') \<Longrightarrow> quiet fd k k'"
  by (auto simp: sys_call_def quiet_def Let_def split: if_splits)

lemma quiet_calls:
  "quiet fd k (snd (sys_call k))" "quiet fd k (snd (sys_setsockopt fd' opt k))" "quiet fd k (snd (sys_bind fd' a p k))"
  "quiet fd k (snd (sys_listen fd' b k))" "quiet fd k (snd (sys_getfl fd' k))" "quiet fd k (snd (sys_setfl fd fl k))"
  "quiet fd k (snd (sys_getsockname fd' k))" "quiet fd k (snd (sys_getpeername fd' k))"
  by (auto simp: sys_setsockopt_def sys_bind_def sys_listen_def sys_getfl_def sys_setfl_def sys_getsockname_def
      sys_getpeername_def sys_call_def quiet_def Let_def)

lemma quiet_kernel_ok: "quiet fd k k' \<Longrightarrow> kernel_ok k' = kernel_ok k"
  by (simp add: quiet_def kernel_ok_def)

end
