(* ===== verification/Event_Loop.thy ===== *)
theory Event_Loop
  imports Kernel
begin

text \<open>
  The registration side of the event loop (\<^verbatim>\<open>src/net/event_loop.h\<close>, \<^verbatim>\<open>event_loop.cpp\<close>) and of the
  poller (\<^verbatim>\<open>src/net/poller.h\<close>) the interest list and the descriptor behind it. The interest list is
  kept here as the kernel keeps it, one entry per registered descriptor that says whether
  writability is wanted; theory \<open>Backends\<close> shows how the two backends implement it.
\<close>

subsection \<open>The poller's interest list\<close>

definition poller_add :: "int \<Rightarrow> bool \<Rightarrow> kernel \<Rightarrow> bool \<times> kernel" where
  "poller_add fd want_write k =
     (let k' = k\<lparr>ctl_adds := (\<lambda>i. ctl_adds k (Suc i))\<rparr> in
      if ctl_adds k 0
      then (True, k'\<lparr>interest := (interest k)(fd \<mapsto> want_write), mod_refused := (mod_refused k)(fd := False)\<rparr>)
      else (False, k'))"

definition poller_set_write_interest :: "int \<Rightarrow> bool \<Rightarrow> kernel \<Rightarrow> bool \<times> kernel" where
  "poller_set_write_interest fd want_write k =
     (let k' = k\<lparr>ctl_mods := (\<lambda>i. ctl_mods k (Suc i))\<rparr> in
      if ctl_mods k 0 \<and> interest k fd \<noteq> None
      then (True, k'\<lparr>interest := (interest k)(fd \<mapsto> want_write), mod_refused := (mod_refused k)(fd := False)\<rparr>)
      else (False, k'\<lparr>mod_refused := (mod_refused k)(fd := True)\<rparr>))"

definition poller_del :: "int \<Rightarrow> kernel \<Rightarrow> bool \<times> kernel" where
  "poller_del fd k = (interest k fd \<noteq> None, k\<lparr>interest := (interest k)(fd := None)\<rparr>)"

text \<open>
  The poller's own descriptor, by backend; an epoll instance is close-on-exec when it is created, a kqueue
  is marked by a second call, whose result is ignored.
\<close>

definition epoll_create :: "kernel \<Rightarrow> int \<times> kernel" where
  "epoll_create k =
     (let (ok, k) = sys_call k; fd = alloc k (open_fds k) in
      if ok then (fd, k\<lparr>open_fds := finsert fd (open_fds k)\<rparr>) else (- 1, k))"

definition kqueue_create :: "kernel \<Rightarrow> int \<times> kernel" where
  "kqueue_create k =
     (let (ok, k) = sys_call k; fd = alloc k (open_fds k);
          (kq, k) = (if ok then (fd, k\<lparr>open_fds := finsert fd (open_fds k)\<rparr>) else (- 1, k))
      in if kq \<ge> 0 then (kq, snd (sys_call k)) else (kq, k))"

definition poller_create :: "kernel \<Rightarrow> int \<times> kernel" where
  "poller_create k = (case poll_backend (plat k) of Epoll \<Rightarrow> epoll_create k | Kqueue \<Rightarrow> kqueue_create k)"

lemmas poller_create_defs = poller_create_def epoll_create_def kqueue_create_def

definition poller_destroy :: "int \<Rightarrow> kernel \<Rightarrow> kernel" where
  "poller_destroy fd k = (if fd \<ge> 0 then sys_close fd k else k)"

definition backend_name :: "backend \<Rightarrow> bytes" where
  "backend_name b = (case b of Epoll \<Rightarrow> ''epoll'' | Kqueue \<Rightarrow> ''kqueue'')"

subsection \<open>The event loop's registrations\<close>

text \<open>A callback is one of the two lambdas the server registers.\<close>

datatype callback = ListenerCb | ConnCb

record event_loop =
  poller_fd :: int
  handlers :: "int \<rightharpoonup> callback"
  retired :: "callback list"
  running :: bool
  tick_interval :: int

definition new_loop :: "int \<Rightarrow> event_loop" where
  "new_loop pfd = \<lparr>poller_fd = pfd, handlers = Map.empty, retired = [], running = False, tick_interval = 100\<rparr>"

definition loop_add :: "int \<Rightarrow> bool \<Rightarrow> callback \<Rightarrow> event_loop \<Rightarrow> kernel \<Rightarrow> bool \<times> event_loop \<times> kernel" where
  "loop_add fd want_write cb l k =
     (let (ok, k) = poller_add fd want_write k in
      if \<not> ok then (False, l, k) else (True, l\<lparr>handlers := (handlers l)(fd \<mapsto> cb)\<rparr>, k))"

definition loop_set_write_interest :: "int \<Rightarrow> bool \<Rightarrow> kernel \<Rightarrow> bool \<times> kernel" where
  "loop_set_write_interest fd want_write k = poller_set_write_interest fd want_write k"

definition loop_remove :: "int \<Rightarrow> event_loop \<Rightarrow> kernel \<Rightarrow> event_loop \<times> kernel" where
  "loop_remove fd l k =
     (case handlers l fd of
        None \<Rightarrow> (l, k)
      | Some cb \<Rightarrow>
          (let (ok, k) = poller_del fd k
           in (l\<lparr>retired := retired l @ [cb], handlers := (handlers l)(fd := None)\<rparr>, k)))"

definition loop_valid :: "event_loop \<Rightarrow> bool" where
  "loop_valid l \<longleftrightarrow> poller_fd l \<ge> 0"

definition loop_set_tick_interval_ms :: "int \<Rightarrow> event_loop \<Rightarrow> event_loop" where
  [simp]: "loop_set_tick_interval_ms ms l = l\<lparr>tick_interval := ms\<rparr>"

definition loop_stop :: "event_loop \<Rightarrow> event_loop" where
  "loop_stop l = l\<lparr>running := False\<rparr>"

definition registered_count :: "event_loop \<Rightarrow> nat" where
  "registered_count l = card (dom (handlers l))"

subsection \<open>The interest list is the handler table\<close>

text \<open>
  The loop and the poller agree on which descriptors are registered. With that, an event the
  poller reports finds a handler, and a descriptor that was removed is not polled.
\<close>

definition loop_synced :: "event_loop \<Rightarrow> kernel \<Rightarrow> bool" where
  "loop_synced l k \<longleftrightarrow> (\<forall>fd. interest k fd = None \<longleftrightarrow> handlers l fd = None)"

text \<open>A descriptor is polled, and as wanted unless the last change of its write interest was refused.\<close>

definition polled_as :: "kernel \<Rightarrow> int \<Rightarrow> bool \<Rightarrow> bool" where
  "polled_as k fd w \<longleftrightarrow> interest k fd \<noteq> None \<and> (\<not> mod_refused k fd \<longrightarrow> interest k fd = Some w)"

lemma polled_as_frame [simp]:
  "polled_as (k\<lparr>klog := L\<rparr>) = polled_as k" "polled_as (k\<lparr>errnos := E\<rparr>) = polled_as k"
  "polled_as (k\<lparr>sends := os\<rparr>) = polled_as k" "polled_as (k\<lparr>wire := W\<rparr>) = polled_as k"
  by (simp_all add: polled_as_def fun_eq_iff)

lemma loop_synced_new: "interest k = Map.empty \<Longrightarrow> loop_synced (new_loop pfd) k"
  by (simp add: loop_synced_def new_loop_def)

lemma loop_add_synced:
  assumes "loop_synced l k" "loop_add fd w cb l k = (ok, l', k')"
  shows "loop_synced l' k'" "handlers l' = (if ok then (handlers l)(fd \<mapsto> cb) else handlers l)"
    "interest k' = (if ok then (interest k)(fd \<mapsto> w) else interest k)"
    "mod_refused k' = (if ok then (mod_refused k)(fd := False) else mod_refused k)"
  using assms by (auto simp: loop_add_def poller_add_def loop_synced_def Let_def split: if_splits)

lemma loop_remove_synced:
  assumes "loop_synced l k" "loop_remove fd l k = (l', k')"
  shows "loop_synced l' k'" "handlers l' = (handlers l)(fd := None)" "interest k' = (interest k)(fd := None)"
    "mod_refused k' = mod_refused k"
proof -
  have "interest k fd = None" if "handlers l fd = None"
    using assms(1) that by (simp add: loop_synced_def)
  then show "handlers l' = (handlers l)(fd := None)" "interest k' = (interest k)(fd := None)" "mod_refused k' = mod_refused k"
    using assms(2) by (auto simp: loop_remove_def poller_del_def split: option.splits)
  then show "loop_synced l' k'" using assms(1) by (simp add: loop_synced_def)
qed

lemma loop_set_write_interest_synced:
  assumes "loop_synced l k" "handlers l fd \<noteq> None" "loop_set_write_interest fd w k = (ok, k')"
  shows "ok \<longleftrightarrow> ctl_mods k 0" "loop_synced l k'" "interest k' = (if ok then (interest k)(fd \<mapsto> w) else interest k)"
    "mod_refused k' = (mod_refused k)(fd := \<not> ok)" "polled_as k' fd w"
proof -
  have "interest k fd \<noteq> None" using assms(1,2) by (simp add: loop_synced_def)
  with assms(3) show "ok \<longleftrightarrow> ctl_mods k 0" "interest k' = (if ok then (interest k)(fd \<mapsto> w) else interest k)"
    "mod_refused k' = (mod_refused k)(fd := \<not> ok)" "polled_as k' fd w"
    by (auto simp: loop_set_write_interest_def poller_set_write_interest_def polled_as_def Let_def split: if_splits)
  then show "loop_synced l k'" using assms(1,2) by (auto simp: loop_synced_def)
qed

text \<open>What the calls leave alone.\<close>

lemma kernel_ok_calls [simp]:
  "kernel_ok k \<Longrightarrow> kernel_ok (snd (sys_open k))"
  "kernel_ok k \<Longrightarrow> kernel_ok (snd (snd (sys_accept k)))"
  "kernel_ok k \<Longrightarrow> kernel_ok (sys_close fd k)"
  "kernel_ok k \<Longrightarrow> kernel_ok (snd (snd (loop_add fd w cb l k)))"
  "kernel_ok k \<Longrightarrow> kernel_ok (snd (loop_set_write_interest fd w k))"
  "kernel_ok k \<Longrightarrow> kernel_ok (snd (loop_remove fd l k))"
  by (auto simp: kernel_ok_def sys_open_def sys_accept_def sys_close_def loop_add_def
      poller_add_def loop_set_write_interest_def poller_set_write_interest_def loop_remove_def
      poller_del_def Let_def split: option.split)

lemma open_fds_calls [simp]:
  "open_fds (snd (snd (loop_add fd w cb l k))) = open_fds k"
  "open_fds (snd (loop_set_write_interest fd w k)) = open_fds k"
  "open_fds (snd (loop_remove fd l k)) = open_fds k"
  by (auto simp: loop_add_def poller_add_def loop_set_write_interest_def
      poller_set_write_interest_def loop_remove_def poller_del_def Let_def split: option.split)

lemma wire_calls [simp]:
  "wire (snd (sys_open k)) = wire k" "wire (sys_close fd k) = wire k"
  "wire (snd (snd (loop_add fd w cb l k))) = wire k"
  "wire (snd (loop_set_write_interest fd w k)) = wire k" "wire (snd (loop_remove fd l k)) = wire k"
  by (auto simp: sys_open_def sys_close_def loop_add_def poller_add_def
      loop_set_write_interest_def poller_set_write_interest_def loop_remove_def poller_del_def Let_def
      split: option.split)

text \<open>What a call leaves of the descriptors: which are open, and their settings.\<close>

definition fd_state :: "kernel \<Rightarrow> platform \<times> int fset \<times> (int \<Rightarrow> 32 word)" where
  "fd_state k = (plat k, open_fds k, status_flags k)"

lemma fd_state_calls [simp]:
  "fd_state (snd (snd (loop_add fd w cb l k))) = fd_state k"
  "fd_state (snd (loop_set_write_interest fd w k)) = fd_state k" "fd_state (snd (loop_remove fd l k)) = fd_state k"
  by (auto simp: fd_state_def loop_add_def poller_add_def loop_set_write_interest_def
      poller_set_write_interest_def loop_remove_def poller_del_def Let_def split: option.split)

lemma poller_fd_calls [simp]:
  "poller_fd (fst (snd (loop_add fd w cb l k))) = poller_fd l" "poller_fd (fst (loop_remove fd l k)) = poller_fd l"
  "running (fst (snd (loop_add fd w cb l k))) = running l" "running (fst (loop_remove fd l k)) = running l"
  "tick_interval (fst (snd (loop_add fd w cb l k))) = tick_interval l" "tick_interval (fst (loop_remove fd l k)) = tick_interval l"
  by (auto simp: loop_add_def loop_remove_def Let_def case_prod_beta split: option.split)

end
