(* ===== verification/Poller.thy ===== *)
theory Poller
  imports Prelude
begin

text \<open>
  What the two poller backends make of the events of one wait: \<^verbatim>\<open>src/net/poller_epoll.cpp\<close> and
  \<^verbatim>\<open>src/net/poller_kqueue.cpp\<close> behind \<^verbatim>\<open>src/net/poller.h\<close>. The system's flag values are
  parameters, a record per backend. The kqueue backend gets one event per filter and has to merge
  them; it does so through a table of slots indexed by descriptor that lives across waits.
\<close>

unbundle bit_operations_syntax

record poll_event =
  ev_fd :: int
  ev_readable :: bool
  ev_writable :: bool
  ev_error :: bool

definition new_event :: "int \<Rightarrow> poll_event" where
  "new_event fd = \<lparr>ev_fd = fd, ev_readable = False, ev_writable = False, ev_error = False\<rparr>"

definition kInitialEventCapacity :: nat where
  "kInitialEventCapacity = 64"

definition kMaxEventCapacity :: nat where
  "kMaxEventCapacity = 4096"

text \<open>The result of \<^verbatim>\<open>epoll_wait\<close> or \<^verbatim>\<open>kevent\<close>.\<close>

datatype 'e wait_outcome = WaitReturned "'e list" | WaitIntr | WaitError

text \<open>The array grows when a wait has filled it.\<close>

definition grow_events :: "nat \<Rightarrow> nat \<Rightarrow> nat" where
  "grow_events n cap = (if n = cap \<and> cap < kMaxEventCapacity then cap * 2 else cap)"

subsection \<open>epoll\<close>

record epoll_flags =
  EPOLLIN :: "32 word"
  EPOLLOUT :: "32 word"
  EPOLLRDHUP :: "32 word"
  EPOLLERR :: "32 word"
  EPOLLHUP :: "32 word"

definition interest_mask :: "epoll_flags \<Rightarrow> bool \<Rightarrow> 32 word" where
  "interest_mask F want_write =
     (let m = EPOLLIN F OR EPOLLRDHUP F in if want_write then m OR EPOLLOUT F else m)"

definition epoll_report :: "epoll_flags \<Rightarrow> int \<times> 32 word \<Rightarrow> poll_event" where
  "epoll_report F e =
     (let (fd, events) = e;
          pe = (new_event fd)\<lparr>ev_readable := events AND (EPOLLIN F OR EPOLLRDHUP F) \<noteq> 0,
                              ev_writable := events AND EPOLLOUT F \<noteq> 0,
                              ev_error := events AND (EPOLLERR F OR EPOLLHUP F) \<noteq> 0\<rparr>
      in if ev_error pe then pe\<lparr>ev_readable := True\<rparr> else pe)"

definition epoll_poller_wait ::
  "epoll_flags \<Rightarrow> nat \<Rightarrow> (int \<times> 32 word) wait_outcome \<Rightarrow> int \<times> poll_event list \<times> nat" where
  "epoll_poller_wait F cap w =
     (case w of
        WaitIntr \<Rightarrow> (0, [], cap)
      | WaitError \<Rightarrow> (- 1, [], cap)
      | WaitReturned es \<Rightarrow>
          (int (length es), map (epoll_report F) es, grow_events (length es) cap))"

subsection \<open>kqueue\<close>

record kq_consts =
  EVFILT_READ :: int
  EVFILT_WRITE :: int
  EV_ERROR :: "16 word"
  EV_EOF :: "16 word"

record kevent =
  ident :: int
  kfilter :: int
  kflags :: "16 word"

definition merge_event :: "kq_consts \<Rightarrow> kevent \<Rightarrow> poll_event \<Rightarrow> poll_event" where
  "merge_event K e pe =
     (let pe = (if kflags e AND EV_ERROR K \<noteq> 0 then pe\<lparr>ev_error := True\<rparr> else pe);
          pe = (if kflags e AND EV_EOF K \<noteq> 0 then pe\<lparr>ev_error := True, ev_readable := True\<rparr> else pe);
          pe = (if kfilter e = EVFILT_READ K then pe\<lparr>ev_readable := True\<rparr> else pe);
          pe = (if kfilter e = EVFILT_WRITE K then pe\<lparr>ev_writable := True\<rparr> else pe)
      in if ev_error pe then pe\<lparr>ev_readable := True\<rparr> else pe)"

text \<open>The body of the coalescing loop, on the slot table and the events emitted so far.\<close>

definition coalesce :: "kq_consts \<Rightarrow> int list \<times> poll_event list \<Rightarrow> kevent \<Rightarrow> int list \<times> poll_event list" where
  "coalesce K so e =
     (let (slot, out) = so; fd = ident e in
      if fd < 0 then (slot, out)
      else let slot = (if nat fd \<ge> length slot then slot @ replicate (nat fd + 1 - length slot) (- 1) else slot);
               idx = slot ! nat fd;
               (slot, out, idx) =
                 (if idx < 0 then (slot[nat fd := int (length out)], out @ [new_event fd], int (length out))
                  else (slot, out, idx))
           in (slot, out[nat idx := merge_event K e (out ! nat idx)]))"

definition reset_slots :: "int list \<Rightarrow> poll_event list \<Rightarrow> int list" where
  "reset_slots slot out = foldl (\<lambda>slot pe. slot[nat (ev_fd pe) := - 1]) slot out"

definition kqueue_poller_wait ::
  "kq_consts \<Rightarrow> int list \<Rightarrow> nat \<Rightarrow> kevent wait_outcome \<Rightarrow> int \<times> poll_event list \<times> int list \<times> nat" where
  "kqueue_poller_wait K slot cap w =
     (case w of
        WaitIntr \<Rightarrow> (0, [], slot, cap)
      | WaitError \<Rightarrow> (- 1, [], slot, cap)
      | WaitReturned es \<Rightarrow>
          (let (slot, out) = foldl (coalesce K) (slot, []) es
           in (int (length out), out, reset_slots slot out, grow_events (length es) cap)))"

subsection \<open>The reference: one report per descriptor\<close>

definition slots_clear :: "int list \<Rightarrow> bool" where
  "slots_clear slot \<longleftrightarrow> (\<forall>x \<in> set slot. x = - 1)"

text \<open>The descriptors in the order in which they first appear.\<close>

fun firsts :: "int list \<Rightarrow> int list" where
  "firsts [] = []"
| "firsts (f # fs) = f # filter (\<lambda>x. x \<noteq> f) (firsts fs)"

definition reported_fds :: "kevent list \<Rightarrow> int list" where
  "reported_fds es = firsts (filter (\<lambda>fd. 0 \<le> fd) (map ident es))"

definition bad_flags :: "kq_consts \<Rightarrow> kevent \<Rightarrow> bool" where
  "bad_flags K e \<longleftrightarrow> kflags e AND EV_ERROR K \<noteq> 0 \<or> kflags e AND EV_EOF K \<noteq> 0"

definition merged :: "kq_consts \<Rightarrow> kevent list \<Rightarrow> int \<Rightarrow> poll_event" where
  "merged K es fd =
     \<lparr>ev_fd = fd,
      ev_readable = (\<exists>e \<in> set es. ident e = fd \<and> (kfilter e = EVFILT_READ K \<or> bad_flags K e)),
      ev_writable = (\<exists>e \<in> set es. ident e = fd \<and> kfilter e = EVFILT_WRITE K),
      ev_error = (\<exists>e \<in> set es. ident e = fd \<and> bad_flags K e)\<rparr>"

lemma firsts_snoc: "firsts (fs @ [f]) = (if f \<in> set fs then firsts fs else firsts fs @ [f])"
  by (induction fs) auto

lemma set_firsts [simp]: "set (firsts fs) = set fs"
  by (induction fs) auto

lemma distinct_firsts [simp]: "distinct (firsts fs)"
  by (induction fs) auto

lemma merged_snoc:
  "merged K (es @ [e]) fd = (if ident e = fd then merge_event K e (merged K es fd) else merged K es fd)"
  by (auto simp: merged_def merge_event_def bad_flags_def Let_def)

lemma merged_new: "fd \<notin> ident ` set es \<Longrightarrow> merged K es fd = new_event fd"
  by (auto simp: merged_def new_event_def)

text \<open>The slot table points at the report of each descriptor seen so far, and nowhere else.\<close>

definition slots_point :: "int list \<Rightarrow> int list \<Rightarrow> bool" where
  "slots_point slot fds \<longleftrightarrow>
     (\<forall>i < length fds. nat (fds ! i) < length slot \<and> slot ! nat (fds ! i) = int i) \<and>
     (\<forall>f < length slot. int f \<notin> set fds \<longrightarrow> slot ! f = - 1)"

lemma slots_point_grow:
  "slots_point slot fds \<Longrightarrow> slots_point (slot @ replicate n (- 1)) fds"
  by (auto simp: slots_point_def nth_append)

lemma slots_point_new:
  assumes "slots_point slot fds" "0 \<le> fd" "nat fd < length slot" "fd \<notin> set fds" "\<forall>f \<in> set fds. 0 \<le> f"
  shows "slots_point (slot[nat fd := int (length fds)]) (fds @ [fd])"
proof -
  have ne: "nat (fds ! i) \<noteq> nat fd" "nat fd \<noteq> nat (fds ! i)" if "i < length fds" for i
    using that assms(2,4,5) by (metis eq_nat_nat_iff nth_mem)+
  then show ?thesis
    using assms by (auto simp: slots_point_def nth_append nth_list_update less_Suc_eq)
qed

lemma coalesce_state:
  assumes "slots_clear slot" "foldl (coalesce K) (slot, []) es = (slot', out)"
  shows "out = map (merged K es) (reported_fds es) \<and> slots_point slot' (reported_fds es)"
  using assms(2)
proof (induction es arbitrary: slot' out rule: rev_induct)
  case Nil
  then show ?case using assms(1) by (auto simp: reported_fds_def slots_point_def slots_clear_def)
next
  case (snoc e es)
  obtain slot1 out1 where one: "foldl (coalesce K) (slot, []) es = (slot1, out1)" by fastforce
  let ?fds = "reported_fds es" and ?fd = "ident e"
  have ih: "out1 = map (merged K es) ?fds" "slots_point slot1 ?fds" using snoc.IH [OF one] by auto
  have step: "coalesce K (slot1, out1) e = (slot', out)" using snoc.prems one by simp
  have nn: "\<forall>f \<in> set ?fds. 0 \<le> f" by (simp add: reported_fds_def)
  have fds: "reported_fds (es @ [e]) = (if ?fd < 0 \<or> ?fd \<in> set ?fds then ?fds else ?fds @ [?fd])"
    by (auto simp: reported_fds_def firsts_snoc)
  define slot2 where
    "slot2 = (if nat ?fd \<ge> length slot1 then slot1 @ replicate (nat ?fd + 1 - length slot1) (- 1) else slot1)"
  have p2: "slots_point slot2 ?fds" "nat ?fd < length slot2"
    using slots_point_grow [OF ih(2)] ih(2) by (auto simp: slot2_def)
  consider "?fd < 0" | i where "0 \<le> ?fd" "i < length ?fds" "?fds ! i = ?fd" | "0 \<le> ?fd" "?fd \<notin> set ?fds"
    by (metis in_set_conv_nth not_le)
  then show ?case
  proof cases
    case 1
    then have "merged K (es @ [e]) f = merged K es f" if "f \<in> set ?fds" for f
      using that nn by (auto simp: merged_snoc)
    then have "map (merged K (es @ [e])) ?fds = map (merged K es) ?fds" by simp
    then show ?thesis using step ih fds 1 by (auto simp: coalesce_def)
  next
    case (2 i)
    then have "slot2 ! nat ?fd = int i" using p2(1) by (auto simp: slots_point_def)
    then have so: "slot' = slot2" "out = out1[i := merge_event K e (out1 ! i)]"
      using step 2(1) by (auto simp: coalesce_def Let_def slot2_def [symmetric])
    have "out = map (merged K (es @ [e])) ?fds"
    proof (rule nth_equalityI)
      show "length out = length (map (merged K (es @ [e])) ?fds)" by (simp add: so(2) ih(1))
      fix j
      assume "j < length out"
      then have j: "j < length ?fds" by (simp add: so(2) ih(1))
      have "?fds ! j = ?fd \<longleftrightarrow> j = i" using j 2(2,3) distinct_firsts by (metis nth_eq_iff_index_eq reported_fds_def)
      then show "out ! j = map (merged K (es @ [e])) ?fds ! j"
        using j 2(2,3) by (auto simp: so(2) ih(1) merged_snoc nth_list_update)
    qed
    then show ?thesis using so(1) p2(1) fds 2 by (auto simp: in_set_conv_nth)
  next
    case 3
    then have "slot2 ! nat ?fd = - 1" using p2 by (auto simp: slots_point_def)
    then have so: "slot' = slot2[nat ?fd := int (length ?fds)]" "out = out1 @ [merge_event K e (new_event ?fd)]"
      using step 3(1) ih(1) by (auto simp: coalesce_def Let_def slot2_def [symmetric])
    have "?fd \<notin> ident ` set es" using 3 by (auto simp: reported_fds_def)
    then have "merged K (es @ [e]) ?fd = merge_event K e (new_event ?fd)" by (simp add: merged_snoc merged_new)
    moreover have "merged K (es @ [e]) f = merged K es f" if "f \<in> set ?fds" for f
      using that 3(2) by (auto simp: merged_snoc)
    ultimately show ?thesis
      using so ih(1) fds 3 slots_point_new [OF p2(1) 3(1) p2(2) 3(2) nn] by simp
  qed
qed

lemma reset_slots_nth:
  "f < length slot \<Longrightarrow> \<forall>pe \<in> set out. 0 \<le> ev_fd pe \<Longrightarrow>
     reset_slots slot out ! f = (if int f \<in> ev_fd ` set out then - 1 else slot ! f)"
  unfolding reset_slots_def
proof (induction out arbitrary: slot)
  case (Cons pe out)
  then show ?case by (auto simp: nth_list_update)
qed simp

lemma length_reset_slots [simp]: "length (reset_slots slot out) = length slot"
  unfolding reset_slots_def by (induction out arbitrary: slot) simp_all

lemma reset_slots_clear:
  assumes "slots_point slot fds" "map ev_fd out = fds" "\<forall>f \<in> set fds. 0 \<le> f"
  shows "slots_clear (reset_slots slot out)"
  unfolding slots_clear_def
proof
  fix x
  assume "x \<in> set (reset_slots slot out)"
  then obtain f where f: "f < length slot" "x = reset_slots slot out ! f" by (auto simp: in_set_conv_nth)
  have "ev_fd ` set out = set fds" using assms(2) by (metis set_map)
  moreover have "\<forall>pe \<in> set out. 0 \<le> ev_fd pe" using assms(2,3) by auto
  ultimately show "x = - 1" using f reset_slots_nth [of f slot out] assms(1) by (auto simp: slots_point_def)
qed

lemma merged_fd [simp]: "ev_fd (merged K es fd) = fd"
  by (simp add: merged_def)

lemma kqueue_wait_exact:
  assumes "slots_clear slot" "kqueue_poller_wait K slot cap (WaitReturned es) = (n, out, slot', cap')"
  shows "out = map (merged K es) (reported_fds es)" "slots_clear slot'" "n = int (length out)"
    "distinct (map ev_fd out)"
proof -
  obtain slot1 out1 where one: "foldl (coalesce K) (slot, []) es = (slot1, out1)" by fastforce
  note c = coalesce_state [OF assms(1) one]
  have eq: "out = out1" "slot' = reset_slots slot1 out1" "n = int (length out1)"
    using assms(2) one by (auto simp: kqueue_poller_wait_def Let_def)
  show "out = map (merged K es) (reported_fds es)" "n = int (length out)" using c eq by auto
  have m: "map ev_fd out1 = reported_fds es" using c by (simp add: comp_def)
  then show "slots_clear slot'"
    unfolding eq using c by (intro reset_slots_clear) (auto simp: reported_fds_def)
  show "distinct (map ev_fd out)" using m eq(1) by (simp add: reported_fds_def)
qed

text \<open>The array of events never leaves its bounds.\<close>

lemma grow_events_bounds:
  assumes "cap \<le> kMaxEventCapacity" "\<exists>j. cap = kInitialEventCapacity * 2 ^ j"
  shows "grow_events n cap \<le> kMaxEventCapacity" "cap \<le> grow_events n cap"
    "\<exists>j. grow_events n cap = kInitialEventCapacity * 2 ^ j"
proof -
  obtain j where j: "cap = 64 * 2 ^ j" using assms(2) by (auto simp: kInitialEventCapacity_def)
  have "cap * 2 \<le> 4096" if "cap < 4096"
  proof -
    have "(2::nat) ^ j < 2 ^ 6" using that j by simp
    then have "j < 6" using power_less_imp_less_exp [of "2::nat" j 6] by simp
    then have "(2::nat) ^ Suc j \<le> 2 ^ 6" by (intro power_increasing) simp_all
    then show ?thesis using j by simp
  qed
  then show "grow_events n cap \<le> kMaxEventCapacity" "cap \<le> grow_events n cap"
    using assms(1) by (auto simp: grow_events_def kMaxEventCapacity_def)
  show "\<exists>j. grow_events n cap = kInitialEventCapacity * 2 ^ j"
  proof (cases "n = cap \<and> cap < kMaxEventCapacity")
    case True
    then show ?thesis
      using j by (intro exI [of _ "Suc j"]) (simp add: grow_events_def kInitialEventCapacity_def)
  next
    case False
    then show ?thesis
      using j by (intro exI [of _ j]) (simp add: grow_events_def kInitialEventCapacity_def)
  qed
qed

subsection \<open>Properties\<close>

text \<open>
  C18: the kqueue backend hides its filters. From a clear slot table, the events of one wait are merged
  into one report per descriptor, in order of first appearance, readable, writable and in error
  exactly if some event of that descriptor says so; an error is always reported as readable too;
  and the slot table is clear again for the next wait.
\<close>

theorem kqueue_coalesces:
  assumes "slots_clear slot" "kqueue_poller_wait K slot cap (WaitReturned es) = (n, out, slot', cap')"
  shows "out = map (merged K es) (reported_fds es) \<and> distinct (map ev_fd out) \<and> n = int (length out) \<and>
    slots_clear slot' \<and> (\<forall>pe \<in> set out. ev_error pe \<longrightarrow> ev_readable pe)"
  using kqueue_wait_exact [OF assms] by (auto simp: merged_def)

theorem kqueue_coalesces_witness:
  "\<exists>n out slot' cap'. kqueue_poller_wait \<lparr>EVFILT_READ = - 1, EVFILT_WRITE = - 2, EV_ERROR = 0x4000, EV_EOF = 0x8000\<rparr> [] 64
     (WaitReturned [\<lparr>ident = 5, kfilter = - 1, kflags = 0\<rparr>, \<lparr>ident = 5, kfilter = - 2, kflags = 0\<rparr>]) = (n, out, slot', cap') \<and>
     map ev_fd out = [5] \<and> slots_clear slot'"
proof -
  let ?K = "\<lparr>EVFILT_READ = - 1, EVFILT_WRITE = - 2, EV_ERROR = 0x4000, EV_EOF = 0x8000\<rparr>"
  let ?es = "[\<lparr>ident = 5, kfilter = - 1, kflags = 0\<rparr>, \<lparr>ident = 5, kfilter = - 2, kflags = 0\<rparr>]"
  obtain n out slot' cap' where w: "kqueue_poller_wait ?K [] 64 (WaitReturned ?es) = (n, out, slot', cap')"
    by (metis prod_cases4)
  have "slots_clear []" by (simp add: slots_clear_def)
  from kqueue_coalesces [OF this w] w show ?thesis by (auto simp: reported_fds_def)
qed

text \<open>
  The event array of both backends starts at 64 entries and only ever doubles, and whatever the
  waits return it never has more than 4096.
\<close>

theorem event_array_bounded:
  "kInitialEventCapacity \<le> foldl (\<lambda>cap n. grow_events n cap) kInitialEventCapacity ns \<and>
   foldl (\<lambda>cap n. grow_events n cap) kInitialEventCapacity ns \<le> kMaxEventCapacity"
proof -
  let ?cap = "\<lambda>ns. foldl (\<lambda>cap n. grow_events n cap) kInitialEventCapacity ns"
  have "kInitialEventCapacity \<le> ?cap ns \<and> ?cap ns \<le> kMaxEventCapacity \<and> (\<exists>j. ?cap ns = kInitialEventCapacity * 2 ^ j)"
  proof (induction ns rule: rev_induct)
    case Nil
    show ?case by (auto simp: kInitialEventCapacity_def kMaxEventCapacity_def intro: exI [of _ 0])
  next
    case (snoc n ns)
    then have a: "?cap ns \<le> kMaxEventCapacity" "\<exists>j. ?cap ns = kInitialEventCapacity * 2 ^ j" by auto
    show ?case using grow_events_bounds [OF a, of n] snoc by simp
  qed
  then show ?thesis by blast
qed

end
