(* ===== verification/Sockets.thy ===== *)
theory Sockets
  imports Kernel Integers
begin

text \<open>
  The socket helpers of \<^verbatim>\<open>src/net/socket.h\<close> and \<^verbatim>\<open>src/net/socket.cpp\<close>. A function that returns false or
  \<^verbatim>\<open>-1\<close> and stores a reason in \<^verbatim>\<open>*err\<close> returns the reason here. The results the source ignores
  (of \<^verbatim>\<open>setsockopt\<close>) are ignored.
\<close>

definition errno_str :: "bytes \<Rightarrow> kernel \<Rightarrow> bytes" where
  "errno_str what k = what @ '': '' @ strerror (plat k) (errno k)"

definition set_nonblocking :: "int \<Rightarrow> kernel \<Rightarrow> bytes option \<times> kernel" where
  "set_nonblocking fd k =
     (let (flags, k) = sys_getfl fd k in
      case flags of
        None \<Rightarrow> (Some (errno_str ''fcntl(O_NONBLOCK)'' k), k)
      | Some flags \<Rightarrow>
          let (ok, k) = sys_setfl fd (flags OR O_NONBLOCK (plat k)) k
          in if \<not> ok then (Some (errno_str ''fcntl(O_NONBLOCK)'' k), k) else (None, k))"

definition set_tcp_nodelay :: "int \<Rightarrow> kernel \<Rightarrow> bool \<times> kernel" where
  "set_tcp_nodelay fd k = sys_setsockopt fd TcpNodelay k"

definition listen_on :: "bytes \<Rightarrow> 16 word \<Rightarrow> int \<Rightarrow> kernel \<Rightarrow> (bytes + int) \<times> kernel" where
  "listen_on bind_addr port backlog k =
     (let (fd, k) = sys_socket k in
      if fd < 0 then (Inl (errno_str ''socket'' k), k)
      else let (_, k) = sys_setsockopt fd ReuseAddr k in
        case inet_pton (plat k) bind_addr of
          None \<Rightarrow> (Inl (''invalid bind address: '' @ bind_addr), sys_close fd k)
        | Some addr \<Rightarrow>
            let (ok, k) = sys_bind fd addr (htons (plat k) port) k in
            if \<not> ok then (Inl (errno_str ''bind'' k), sys_close fd k)
            else let (ok, k) = sys_listen fd backlog k in
              if \<not> ok then (Inl (errno_str ''listen'' k), sys_close fd k)
              else let (e, k) = set_nonblocking fd k in
                case e of
                  Some e \<Rightarrow> (Inl e, sys_close fd k)
                | None \<Rightarrow> (Inr fd, k))"

definition local_port :: "int \<Rightarrow> kernel \<Rightarrow> 16 word \<times> kernel" where
  "local_port fd k =
     (let (a, k) = sys_getsockname fd k in
      case a of None \<Rightarrow> (0, k) | Some a \<Rightarrow> (ntohs (plat k) (snd a), k))"

definition suppress_sigpipe :: "int \<Rightarrow> kernel \<Rightarrow> bool \<times> kernel" where
  "suppress_sigpipe fd k = (if has_nosigpipe (plat k) then sys_setsockopt fd NoSigpipe k else (True, k))"

definition peer_name :: "int \<Rightarrow> kernel \<Rightarrow> bytes \<times> kernel" where
  "peer_name fd k =
     (let (a, k) = sys_getpeername fd k in
      case a of
        None \<Rightarrow> (''?'', k)
      | Some (ip, port) \<Rightarrow>
          (case inet_ntop (plat k) ip of
             None \<Rightarrow> (''?'', k)
           | Some s \<Rightarrow> (s @ '':'' @ std_to_string (int (unat (ntohs (plat k) port))), k)))"

subsection \<open>What the helpers do to the system\<close>

lemma set_nonblocking_quiet: "quiet fd k (snd (set_nonblocking fd k))"
proof -
  obtain fl k1 where g: "sys_getfl fd k = (fl, k1)" by fastforce
  have q: "quiet fd k k1" using quiet_calls(5) [of fd k fd] g by simp
  have "quiet fd k (snd (sys_setfl fd v k1))" for v using quiet_trans [OF q quiet_calls(6)] .
  then show ?thesis using g q by (simp add: set_nonblocking_def Let_def case_prod_beta split: option.split)
qed

lemma set_nonblocking_sets: "set_nonblocking fd k = (None, k') \<Longrightarrow> nonblocking k' fd"
  by (auto simp: set_nonblocking_def sys_getfl_def sys_setfl_def sys_call_def nonblocking_def Let_def bit_eq_iff bit_simps
      split: if_splits)

lemma set_tcp_nodelay_quiet: "quiet fd k (snd (set_tcp_nodelay fd k))"
  by (simp add: set_tcp_nodelay_def quiet_calls)

lemma suppress_sigpipe_quiet: "quiet fd k (snd (suppress_sigpipe fd k))"
  by (simp add: suppress_sigpipe_def quiet_calls)

lemma peer_name_quiet: "quiet fd k (snd (peer_name fd k))"
  using quiet_calls(8) [of fd k fd]
  by (auto simp: peer_name_def Let_def split: prod.splits option.splits)

lemma local_port_quiet: "quiet fd k (snd (local_port fd k))"
  using quiet_calls(7) [of fd k fd]
  by (auto simp: local_port_def Let_def split: prod.splits option.splits)

lemmas socket_quiet = set_nonblocking_quiet set_tcp_nodelay_quiet suppress_sigpipe_quiet peer_name_quiet local_port_quiet

lemma flags_frame:
  "status_flags (snd (sys_setsockopt fd' opt k)) = status_flags k"
  "status_flags (snd (set_tcp_nodelay fd' k)) = status_flags k"
  "status_flags (snd (suppress_sigpipe fd' k)) = status_flags k" "status_flags (snd (peer_name fd' k)) = status_flags k"
  by (auto simp: set_tcp_nodelay_def suppress_sigpipe_def peer_name_def sys_getpeername_def sys_setsockopt_def
      sys_call_def Let_def split: option.split prod.split)

text \<open>The settings of a socket that a call does not touch.\<close>

lemma settings_frame:
  "bound_to (snd (sys_listen fd b k)) = bound_to k" "bound_to (snd (set_nonblocking fd k)) = bound_to k"
  "listening (snd (set_nonblocking fd k)) = listening k"
  by (auto simp: sys_listen_def set_nonblocking_def sys_getfl_def sys_setfl_def sys_call_def Let_def split: option.split)

text \<open>While \<open>listen_on\<close> works, one more descriptor is open and nothing else has changed.\<close>

definition opened :: "int \<Rightarrow> kernel \<Rightarrow> kernel \<Rightarrow> bool" where
  "opened fd k k' \<longleftrightarrow> 0 \<le> fd \<and> fd |\<notin>| open_fds k \<and> quiet fd (k\<lparr>open_fds := finsert fd (open_fds k)\<rparr>) k'"

lemma opened_quiet: "opened fd k k' \<Longrightarrow> quiet fd k' k'' \<Longrightarrow> opened fd k k''"
  unfolding opened_def using quiet_trans by blast

lemma sys_socket_opens:
  assumes "kernel_ok k" "sys_socket k = (fd, k')"
  shows "0 \<le> fd \<Longrightarrow> opened fd k k'" "fd < 0 \<Longrightarrow> quiet fd k k'"
proof -
  have fresh: "0 \<le> alloc k (open_fds k)" "alloc k (open_fds k) |\<notin>| open_fds k" using assms(1) by (simp_all add: kernel_ok_def)
  show "0 \<le> fd \<Longrightarrow> opened fd k k'" "fd < 0 \<Longrightarrow> quiet fd k k'"
    using assms(2) fresh
    by (auto simp: sys_socket_def sys_call_def opened_def quiet_def Let_def split: if_splits)
qed

lemma opened_close:
  assumes "opened fd k k'" "k'' = sys_close fd k'"
  shows "open_fds k'' = open_fds k" "kernel_ok k \<Longrightarrow> kernel_ok k''"
    "\<And>f. f |\<in>| open_fds k \<Longrightarrow> interest k'' f = interest k f \<and> status_flags k'' f = status_flags k f"
  using assms by (auto simp: opened_def quiet_def sys_close_def kernel_ok_def)

text \<open>Once there is a socket, each further step keeps it open.\<close>

lemma listen_on_steps:
  "opened fd k k1 \<Longrightarrow> opened fd k (snd (sys_setsockopt fd opt k1))"
  "opened fd k k1 \<Longrightarrow> opened fd k (snd (sys_bind fd a p k1))"
  "opened fd k k1 \<Longrightarrow> opened fd k (snd (sys_listen fd b k1))"
  "opened fd k k1 \<Longrightarrow> opened fd k (snd (set_nonblocking fd k1))"
  by (erule opened_quiet, rule quiet_calls set_nonblocking_quiet)+

lemma listen_on_fails:
  assumes "kernel_ok k" "listen_on a p b k = (Inl e, k')"
  obtains (closed) fd k1 where "opened fd k k1" "k' = sys_close fd k1" | (none) fd where "quiet fd k k'"
proof -
  obtain fd k1 where s: "sys_socket k = (fd, k1)" by fastforce
  show thesis
  proof (cases "fd < 0")
    case True
    then show thesis using assms(2) s sys_socket_opens(2) [OF assms(1) s True] none by (simp add: listen_on_def)
  next
    case False
    then have o1: "opened fd k k1" using sys_socket_opens(1) [OF assms(1) s] by simp
    have "\<exists>k2. opened fd k k2 \<and> k' = sys_close fd k2"
      using assms(2) s False listen_on_steps [OF listen_on_steps(1) [OF o1, of ReuseAddr]]
        listen_on_steps(1) [OF o1, of ReuseAddr]
        listen_on_steps(3) [OF listen_on_steps(2) [OF listen_on_steps(1) [OF o1, of ReuseAddr]]]
        listen_on_steps(4) [OF listen_on_steps(3) [OF listen_on_steps(2) [OF listen_on_steps(1) [OF o1, of ReuseAddr]]]]
      by (fastforce simp: listen_on_def Let_def case_prod_beta split: option.splits if_splits)
    then show thesis using closed by blast
  qed
qed

lemma listen_on_leaks_nothing:
  assumes "kernel_ok k" "listen_on a p b k = (Inl e, k')"
  shows "open_fds k' = open_fds k" "kernel_ok k'"
    "\<And>fd. fd |\<in>| open_fds k \<Longrightarrow> interest k' fd = interest k fd"
proof -
  have "open_fds k' = open_fds k \<and> kernel_ok k' \<and>
    (\<forall>fd. fd |\<in>| open_fds k \<longrightarrow> interest k' fd = interest k fd)"
    using assms
  proof (cases rule: listen_on_fails)
    case (closed fd k1)
    then show ?thesis using opened_close [OF closed] assms(1) by blast
  next
    case (none fd)
    then show ?thesis using assms(1) quiet_kernel_ok [OF none] by (simp add: quiet_def)
  qed
  then show "open_fds k' = open_fds k" "kernel_ok k'"
    "\<And>fd. fd |\<in>| open_fds k \<Longrightarrow> interest k' fd = interest k fd" by blast+
qed

lemma listen_on_succeeds:
  assumes "kernel_ok k" "listen_on a p b k = (Inr fd, k')"
  shows "opened fd k k'" "nonblocking k' fd" "listening k' fd = Some b"
    "\<exists>addr. inet_pton (plat k) a = Some addr \<and>
       bound_to k' fd = Some (addr, htons (plat k) (if p = 0 then ephemeral k else p))"
proof -
  obtain fd1 k1 where s: "sys_socket k = (fd1, k1)" by fastforce
  have pos: "0 \<le> fd1" using assms(2) s by (auto simp: listen_on_def split: if_splits)
  let ?k2 = "snd (sys_setsockopt fd1 ReuseAddr k1)"
  obtain addr where a: "inet_pton (plat ?k2) a = Some addr"
    using assms(2) s pos by (auto simp: listen_on_def Let_def case_prod_beta split: option.splits if_splits)
  let ?b = "sys_bind fd1 addr (htons (plat ?k2) p) ?k2"
  let ?l = "sys_listen fd1 b (snd ?b)"
  let ?n = "set_nonblocking fd1 (snd ?l)"
  have o2: "opened fd1 k ?k2" using listen_on_steps(1) sys_socket_opens(1) [OF assms(1) s pos] .
  have c: "fst ?b" "fst ?l" "fst ?n = None" "fd = fd1" "k' = snd ?n"
    using assms(2) s pos a by (auto simp: listen_on_def Let_def case_prod_beta split: option.splits if_splits)
  show "opened fd k k'" using listen_on_steps(4) [OF listen_on_steps(3) [OF listen_on_steps(2) [OF o2]]] c by simp
  show "nonblocking k' fd" using set_nonblocking_sets [of fd1 "snd ?l" "snd ?n"] c by (simp add: prod_eq_iff)
  have l: "listening (snd ?l) fd1 = Some b" using c(2) by (auto simp: sys_listen_def Let_def case_prod_beta split: if_splits)
  then show "listening k' fd = Some b" using c(4,5) by (simp add: settings_frame)
  have p2: "plat ?k2 = plat k" "ephemeral ?k2 = ephemeral k" using o2 by (simp_all add: opened_def quiet_def)
  have "bound_to (snd ?b) fd1 = Some (addr, htons (plat k) (if p = 0 then ephemeral k else p))"
    using c(1) p2 quiet_calls(1) [of fd1 ?k2] by (auto simp: sys_bind_def Let_def case_prod_beta quiet_def split: if_splits)
  then show "\<exists>addr. inet_pton (plat k) a = Some addr \<and>
       bound_to k' fd = Some (addr, htons (plat k) (if p = 0 then ephemeral k else p))"
    using a c(4,5) p2 by (simp add: settings_frame)
qed

lemma local_port_bound:
  "bound_to k fd = Some (addr, htons (plat k) p) \<Longrightarrow> calls k 0 = 0 \<Longrightarrow> fst (local_port fd k) = p"
  by (simp add: local_port_def sys_getsockname_def sys_call_def Let_def)

end
