(* ===== verification/Server.thy ===== *)
theory Server
  imports Exec Event_Loop Poller Sockets
begin

text \<open>
  The server of \<^verbatim>\<open>src/net/server.h\<close> and \<^verbatim>\<open>src/net/server.cpp\<close> with the connection state of
  \<^verbatim>\<open>src/net/conn.h\<close> and the loop body of \<^verbatim>\<open>src/net/event_loop.cpp\<close>. The members of \<^verbatim>\<open>Server\<close> are
  the fields of the record, with the operating system (\<open>kern\<close>) beside them. A function of the
  source that takes a \<^verbatim>\<open>Conn&\<close> and returns false after destroying it returns the connection it
  leaves as an option here. Descriptors are integers and \<^verbatim>\<open>-1\<close> is no descriptor. The lines written
  to the log go to the log of the process, which is part of \<open>kern\<close>.
\<close>

subsection \<open>State\<close>

record conn =
  conn_fd :: int
  conn_peer :: bytes
  conn_in :: buffer
  conn_out :: buffer
  conn_parser :: resp_parser
  close_after_write :: bool
  write_armed :: bool

definition new_conn :: "int \<Rightarrow> bytes \<Rightarrow> conn" where
  "new_conn fd peer =
     \<lparr>conn_fd = fd, conn_peer = peer, conn_in = new_buffer, conn_out = new_buffer, conn_parser = new_parser default_limits,
      close_after_write = False, write_armed = False\<rparr>"

record server_config =
  bind_addr :: bytes
  port :: nat
  backlog :: int
  max_output_buffer :: nat
  tick_interval_ms :: int
  active_expire_samples :: nat

definition default_config :: server_config where
  "default_config =
     \<lparr>bind_addr = ''127.0.0.1'', port = 6380, backlog = 511, max_output_buffer = 64 * 1024 * 1024,
      tick_interval_ms = 100, active_expire_samples = 20\<rparr>"

record server =
  cfg :: server_config
  sloop :: event_loop
  sdb :: db
  listen_fd :: int
  spare_fd :: int
  listener_paused :: bool
  conns :: "int \<rightharpoonup> conn"
  kern :: kernel

text \<open>The constructor; its members construct the event loop and that the poller.\<close>

definition new_server :: "server_config \<Rightarrow> db \<Rightarrow> kernel \<Rightarrow> server" where
  "new_server c d k =
     (let (pfd, k) = poller_create k in
      \<lparr>cfg = c, sloop = new_loop pfd, sdb = d, listen_fd = - 1, spare_fd = - 1, listener_paused = False,
       conns = Map.empty, kern = k\<rparr>)"

text \<open>Writing to the log, and what is written.\<close>

abbreviation logs :: "(logger \<Rightarrow> logger) \<Rightarrow> server \<Rightarrow> server" where
  "logs f s \<equiv> s\<lparr>kern := (kern s)\<lparr>klog := f (klog (kern s))\<rparr>\<rparr>"

definition paused_msg :: bytes where
  "paused_msg = ''listener paused: no file descriptors available to accept with''"

definition not_resumed_msg :: bytes where
  "not_resumed_msg = ''failed to re-register the listener after pausing''"

definition resumed_msg :: bytes where
  "resumed_msg = ''listener resumed''"

definition shed_msg :: "nat \<Rightarrow> bytes" where
  "shed_msg n = ''out of file descriptors: rejected a connection ('' @ fmt_zu n @ '' open)''"

definition rejected_msg :: "bytes \<Rightarrow> bytes" where
  "rejected_msg err = ''rejecting connection: '' @ c_str err"

definition unregistered_msg :: "bytes \<Rightarrow> bytes" where
  "unregistered_msg peer = ''failed to register '' @ c_str peer @ '' with the poller''"

definition accepted_msg :: "bytes \<Rightarrow> int \<Rightarrow> nat \<Rightarrow> bytes" where
  "accepted_msg peer fd n = ''accepted '' @ c_str peer @ '' (fd '' @ std_to_string fd @ '', '' @ fmt_zu n @ '' open)''"

definition accept_failed_msg :: "bytes \<Rightarrow> bytes" where
  "accept_failed_msg why = ''accept failed: '' @ why"

definition closing_msg :: "bytes \<Rightarrow> int \<Rightarrow> bytes \<Rightarrow> bytes" where
  "closing_msg peer fd reason = ''closing '' @ c_str peer @ '' (fd '' @ std_to_string fd @ ''): '' @ reason"

definition protocol_msg :: "bytes \<Rightarrow> bytes \<Rightarrow> bytes" where
  "protocol_msg peer err = ''protocol error from '' @ c_str peer @ '': '' @ c_str err"

definition overflow_msg :: "bytes \<Rightarrow> nat \<Rightarrow> nat \<Rightarrow> bytes" where
  "overflow_msg peer n limit =
     ''closing '' @ c_str peer @ '': output buffer '' @ fmt_zu n @ '' bytes exceeds the '' @ fmt_zu limit @ '' byte limit''"

definition reclaimed_msg :: "nat \<Rightarrow> bytes" where
  "reclaimed_msg n = ''active expiry reclaimed '' @ fmt_zu n @ '' keys''"

definition shutdown_msg :: "nat \<Rightarrow> bytes" where
  "shutdown_msg n = ''shutdown requested; closing '' @ fmt_zu n @ '' connection(s)''"

definition no_spare_msg :: "bytes \<Rightarrow> bytes" where
  "no_spare_msg why = ''could not reserve a spare file descriptor: '' @ why"

definition listening_msg :: "bytes \<Rightarrow> 16 word \<Rightarrow> bytes \<Rightarrow> int \<Rightarrow> bytes" where
  "listening_msg addr p backend pid =
     ''kvsd listening on '' @ c_str addr @ '':'' @ fmt_zu (unat p) @ '' ('' @ backend @ '', pid '' @ std_to_string pid @ '')''"

definition connection_count :: "server \<Rightarrow> nat" where
  "connection_count s = card (dom (conns s))"

definition kReadChunk :: nat where
  "kReadChunk = 16 * 1024"

definition kMaxAcceptsPerEvent :: nat where
  "kMaxAcceptsPerEvent = 1000"

subsection \<open>The listener\<close>

definition reopen_spare_fd :: "server \<Rightarrow> bool \<times> server" where
  "reopen_spare_fd s =
     (if spare_fd s \<ge> 0 then (True, s)
      else let (fd, k) = sys_open (kern s) in (fd \<ge> 0, s\<lparr>spare_fd := fd, kern := k\<rparr>))"

definition register :: "int \<Rightarrow> callback \<Rightarrow> server \<Rightarrow> bool \<times> server" where
  "register fd cb s =
     (let (ok, l, k) = loop_add fd False cb (sloop s) (kern s) in (ok, s\<lparr>sloop := l, kern := k\<rparr>))"

definition unregister :: "int \<Rightarrow> server \<Rightarrow> server" where
  "unregister fd s = (let (l, k) = loop_remove fd (sloop s) (kern s) in s\<lparr>sloop := l, kern := k\<rparr>)"

definition pause_listener :: "server \<Rightarrow> server" where
  "pause_listener s =
     (if listener_paused s then s
      else let s = (unregister (listen_fd s) s)\<lparr>listener_paused := True\<rparr>
           in logs (log_warn paused_msg) s)"

definition resume_listener :: "server \<Rightarrow> server" where
  "resume_listener s =
     (if \<not> listener_paused s then s
      else let (ok, s) = reopen_spare_fd s in
        if \<not> ok then s
        else let (ok, s) = register (listen_fd s) ListenerCb s in
          if \<not> ok then logs (log_error not_resumed_msg) s
          else logs (log_info resumed_msg) (s\<lparr>listener_paused := False\<rparr>))"

definition shed_connection :: "server \<Rightarrow> server" where
  "shed_connection s =
     (if spare_fd s \<ge> 0
      then let s = s\<lparr>kern := sys_close (spare_fd s) (kern s), spare_fd := - 1\<rparr>;
               (r, fd, k) = sys_accept (kern s);
               s = s\<lparr>kern := (if fd \<ge> 0 then sys_close fd k else k)\<rparr>;
               s = logs (log_warn (shed_msg (connection_count s))) s;
               (ok, s) = reopen_spare_fd s
           in if ok then s else pause_listener s
      else pause_listener s)"

definition add_connection :: "server \<Rightarrow> int \<Rightarrow> server" where
  "add_connection s fd =
     (let (err, k) = set_nonblocking fd (kern s); s = s\<lparr>kern := k\<rparr> in
      case err of
        Some err \<Rightarrow>
          (let s = logs (log_error (rejected_msg err)) s
           in s\<lparr>kern := sys_close fd (kern s)\<rparr>)
      | None \<Rightarrow>
          (let (_, k) = set_tcp_nodelay fd (kern s);
               (_, k) = suppress_sigpipe fd k;
               (peer, k) = peer_name fd k;
               (ok, s) = register fd ConnCb (s\<lparr>kern := k\<rparr>)
           in if \<not> ok
              then let s = logs (log_error (unregistered_msg peer)) s
                   in s\<lparr>kern := sys_close fd (kern s)\<rparr>
              else let s = logs (log_debug (accepted_msg peer fd (connection_count s + 1))) s
                   in s\<lparr>conns := (conns s)(fd \<mapsto> new_conn fd peer)\<rparr>))"

fun accept_loop :: "nat \<Rightarrow> server \<Rightarrow> server" where
  "accept_loop 0 s = s"
| "accept_loop (Suc n) s =
     (let (r, fd, k) = sys_accept (kern s); s = s\<lparr>kern := k\<rparr> in
      case r of
        AcceptReady \<Rightarrow> accept_loop n (add_connection s fd)
      | AcceptAgain \<Rightarrow> s
      | AcceptIntr \<Rightarrow> accept_loop n s
      | AcceptAborted \<Rightarrow> accept_loop n s
      | AcceptNoFd \<Rightarrow> shed_connection s
      | AcceptOther \<Rightarrow>
          (let (why, k) = strerror_errno (kern s)
           in logs (log_error (accept_failed_msg why)) (s\<lparr>kern := k\<rparr>)))"

definition on_listener_readable :: "server \<Rightarrow> server" where
  "on_listener_readable s = accept_loop kMaxAcceptsPerEvent s"

subsection \<open>One connection\<close>

definition close_conn :: "server \<Rightarrow> conn \<Rightarrow> bytes \<Rightarrow> server" where
  "close_conn s c reason =
     (let fd = conn_fd c;
          s = logs (log_debug (closing_msg (conn_peer c) fd reason)) s;
          s = unregister fd s;
          s = s\<lparr>kern := sys_close fd (kern s)\<rparr>;
          s = s\<lparr>conns := (conns s)(fd := None)\<rparr>
      in resume_listener s)"

text \<open>
  The loop over \<^verbatim>\<open>send\<close>. The script of outcomes is finite: when it is used up the socket takes no
  more for now. The bytes taken go to \<open>wire\<close>. \<open>False\<close> is the error path.
\<close>

fun send_loop :: "send_outcome list \<Rightarrow> buffer \<Rightarrow> bytes \<Rightarrow> bool \<times> send_outcome list \<times> buffer \<times> bytes" where
  "send_loop os out w =
     (if buf_empty out then (True, os, out, w)
      else case os of
        [] \<Rightarrow> (True, [], out, w)
      | SendTook n # os' \<Rightarrow>
          if n > 0 then send_loop os' (consume out n) (w @ take n (buf_contents out))
          else (False, os', out, w)
      | SendIntr # os' \<Rightarrow> send_loop os' out w
      | SendAgain # os' \<Rightarrow> (True, os', out, w)
      | SendFail # os' \<Rightarrow> (False, os', out, w))"

declare send_loop.simps [simp del]

definition arm_write :: "int \<Rightarrow> bool \<Rightarrow> server \<Rightarrow> server" where
  "arm_write fd want s = s\<lparr>kern := snd (loop_set_write_interest fd want (kern s))\<rparr>"

definition flush_output :: "server \<Rightarrow> conn \<Rightarrow> conn option \<times> server" where
  "flush_output s c =
     (let fd = conn_fd c;
          (ok, os, out, w) = send_loop (sends (kern s)) (conn_out c) (wire (kern s) fd);
          s = s\<lparr>kern := (kern s)\<lparr>sends := os, wire := (wire (kern s))(fd := w)\<rparr>\<rparr>;
          c = c\<lparr>conn_out := out\<rparr>
      in if \<not> ok
         then let (why, k) = strerror_errno (kern s) in (None, close_conn (s\<lparr>kern := k\<rparr>) c why)
         else if buf_empty out
         then if close_after_write c then (None, close_conn s c ''reply delivered'')
              else if write_armed c then (Some (c\<lparr>write_armed := False\<rparr>), arm_write fd False s)
              else (Some c, s)
         else if \<not> write_armed c then (Some (c\<lparr>write_armed := True\<rparr>), arm_write fd True s)
         else (Some c, s))"

lemma parse_complete_shrinks:
  "parse p b = (Complete a, p', b') \<Longrightarrow> readable b' < readable b"
proof (induction p b rule: parse.induct)
  case (1 p b)
  obtain o1 p1 k where step: "parse_case p (buf_contents b) = (o1, p1, k)" by (metis prod_cases3)
  show ?case
  proof (cases o1)
    case (Some st)
    with step "1.prems" have st: "st = Complete a" "b' = do_consume b k" by (auto simp: parse.simps [of p b])
    with step Some obtain n where "k = Some n" "0 < n" "n \<le> length (buf_contents b)"
      using parse_case_complete_consumes by blast
    then show ?thesis
      using st readable_ge_contents [of b] by (simp add: do_consume_def readable_consume)
  next
    case None
    then have "parse p1 (do_consume b k) = (Complete a, p', b')"
      using step "1.prems" by (simp add: parse.simps [of p b])
    then have "readable b' < readable (do_consume b k)" using "1.IH" None step by auto
    also have "\<dots> < readable b" using None step by (auto intro: parse_case_shrinks)
    finally show ?thesis .
  qed
qed

text \<open>The loop of \<^verbatim>\<open>process_input\<close>; each finished command has consumed input, so it ends.\<close>

function input_loop :: "server \<Rightarrow> conn \<Rightarrow> conn option \<times> server" where
  "input_loop s c =
     (case parse (conn_parser c) (conn_in c) of
        (Incomplete, p, b) \<Rightarrow> (Some (c\<lparr>conn_parser := p, conn_in := b\<rparr>), s)
      | (ParseError e, p, b) \<Rightarrow>
          (Some (c\<lparr>conn_parser := p, conn_in := b, conn_out := reply_error (conn_out c) (''ERR '' @ e),
                   close_after_write := True\<rparr>),
           logs (log_warn (protocol_msg (conn_peer c) e)) s)
      | (Complete argv, p, b) \<Rightarrow>
          if argv = [] then input_loop s (c\<lparr>conn_parser := p, conn_in := b\<rparr>)
          else let x = dispatch (fresh_ctx argv (conn_out c) (sdb s)) in
            if close_after_reply x
            then (Some (c\<lparr>conn_parser := p, conn_in := b, conn_out := cout x, close_after_write := True\<rparr>),
                  s\<lparr>sdb := cdb x\<rparr>)
            else if readable (cout x) > max_output_buffer (cfg s)
            then (None, close_conn (logs (log_warn (overflow_msg (conn_peer c) (readable (cout x)) (max_output_buffer (cfg s)))) (s\<lparr>sdb := cdb x\<rparr>))
                          c ''output buffer limit exceeded'')
            else input_loop (s\<lparr>sdb := cdb x\<rparr>) (c\<lparr>conn_parser := p, conn_in := b, conn_out := cout x\<rparr>))"
  by pat_completeness auto
termination
  by (relation "measure (\<lambda>(s, c). readable (conn_in c))") (auto intro: parse_complete_shrinks [OF sym])

declare input_loop.simps [simp del]

definition process_input :: "server \<Rightarrow> conn \<Rightarrow> conn option \<times> server" where
  "process_input s c =
     (case input_loop s c of
        (None, s) \<Rightarrow> (None, s)
      | (Some c, s) \<Rightarrow> flush_output s c)"

text \<open>The kernel never stores more than the \<open>kReadChunk\<close> bytes it was asked for.\<close>

definition handle_read :: "server \<Rightarrow> conn \<Rightarrow> read_outcome \<Rightarrow> conn option \<times> server" where
  "handle_read s c r =
     (let c = c\<lparr>conn_in := ensure_writable (conn_in c) kReadChunk\<rparr> in
      case r of
        ReadBytes bs \<Rightarrow>
          (let p = take kReadChunk bs; n = length p in
           if n = 0 then (None, close_conn s c ''client closed the connection'')
           else process_input s (c\<lparr>conn_in := commit (write_at (conn_in c) p) n\<rparr>))
      | ReadAgain \<Rightarrow> (Some c, s)
      | ReadIntr \<Rightarrow> (Some c, s)
      | ReadFail \<Rightarrow> (let (why, k) = strerror_errno (kern s) in (None, close_conn (s\<lparr>kern := k\<rparr>) c why)))"

definition on_conn_event :: "server \<Rightarrow> int \<Rightarrow> bool \<Rightarrow> bool \<Rightarrow> read_outcome \<Rightarrow> server" where
  "on_conn_event s fd rd wr r =
     (case conns s fd of
        None \<Rightarrow> s
      | Some c \<Rightarrow>
          (case (if rd then handle_read s c r else (Some c, s)) of
             (None, s) \<Rightarrow> s
           | (Some c, s) \<Rightarrow>
               (case (if wr \<and> \<not> buf_empty (conn_out c) then flush_output s c else (Some c, s)) of
                  (None, s) \<Rightarrow> s
                | (Some c, s) \<Rightarrow>
                    (let s = s\<lparr>conns := (conns s)(fd \<mapsto> c)\<rparr> in
                     if close_after_write c \<and> buf_empty (conn_out c) then close_conn s c ''reply delivered'' else s))))"

subsection \<open>The loop\<close>

text \<open>One event of a batch, with what \<^verbatim>\<open>read\<close> will answer if it is called.\<close>

definition dispatch_event :: "server \<Rightarrow> poll_event \<times> read_outcome \<Rightarrow> server" where
  "dispatch_event s er =
     (let (ev, r) = er in
      case handlers (sloop s) (ev_fd ev) of
        None \<Rightarrow> s
      | Some ListenerCb \<Rightarrow> if ev_readable ev then on_listener_readable s else s
      | Some ConnCb \<Rightarrow> on_conn_event s (ev_fd ev) (ev_readable ev) (ev_writable ev) r)"

definition on_tick :: "(nat \<Rightarrow> key fset \<Rightarrow> key list list) \<Rightarrow> bool \<Rightarrow> server \<Rightarrow> server" where
  "on_tick lay shutdown s =
     (let (reclaimed, d) = active_expire_cycle lay (active_expire_samples (cfg s)) (sdb s);
          s = s\<lparr>sdb := d\<rparr>;
          s = (if reclaimed > 0 then logs (log_debug (reclaimed_msg reclaimed)) s else s)
      in if shutdown
         then let s = logs (log_info (shutdown_msg (connection_count s))) s
              in s\<lparr>sloop := loop_stop (sloop s)\<rparr>
         else s)"

definition server_stop :: "server \<Rightarrow> server" where
  "server_stop s = s\<lparr>sloop := loop_stop (sloop s)\<rparr>"

text \<open>
  The body of \<^verbatim>\<open>EventLoop::run\<close>. \<open>None\<close> stands for a poller that failed; \<^verbatim>\<open>break\<close> then ends the
  loop, and the assignment behind the loop clears \<open>running\<close>.
\<close>

definition loop_body ::
  "(nat \<Rightarrow> key fset \<Rightarrow> key list list) \<Rightarrow> (poll_event \<times> read_outcome) list option \<Rightarrow> bool \<Rightarrow> server \<Rightarrow> server" where
  "loop_body lay evs shutdown s =
     (case evs of
        None \<Rightarrow> s\<lparr>sloop := (sloop s)\<lparr>running := False\<rparr>\<rparr>
      | Some evs \<Rightarrow>
          (let s = on_tick lay shutdown (foldl dispatch_event s evs)
           in s\<lparr>sloop := (sloop s)\<lparr>retired := []\<rparr>\<rparr>))"

definition bound_port :: "server \<Rightarrow> 16 word \<times> server" where
  "bound_port s =
     (if listen_fd s < 0 then (0, s)
      else let (p, k) = local_port (listen_fd s) (kern s) in (p, s\<lparr>kern := k\<rparr>))"

text \<open>
  \<^verbatim>\<open>Server::start\<close>. The result is the reason why the server may not be run, if there is one. The log line
  at the end asks for the bound port.
\<close>

definition start :: "server \<Rightarrow> bytes option \<times> server" where
  "start s =
     (if \<not> loop_valid (sloop s)
      then (Some (''failed to create '' @ backend_name (poll_backend (plat (kern s)))), s)
      else let (r, k) = listen_on (bind_addr (cfg s)) (word_of_nat (port (cfg s))) (backlog (cfg s)) (kern s);
               s = s\<lparr>kern := k\<rparr>
           in case r of
             Inl err \<Rightarrow> (Some err, s\<lparr>listen_fd := - 1\<rparr>)
           | Inr lfd \<Rightarrow>
               let (ok, s) = reopen_spare_fd (s\<lparr>listen_fd := lfd\<rparr>);
                   s = (if ok then s
                        else let (why, k) = strerror_errno (kern s)
                             in logs (log_warn (no_spare_msg why)) (s\<lparr>kern := k\<rparr>));
                   s = s\<lparr>sloop := loop_set_tick_interval_ms (tick_interval_ms (cfg s)) (sloop s)\<rparr>;
                   (ok, s) = register lfd ListenerCb s
               in if \<not> ok then (Some ''failed to register the listener with the poller'', s)
                  else let (p, s) = bound_port s
                       in (None, logs (log_info (listening_msg (bind_addr (cfg s)) p (backend_name (poll_backend (plat (kern s)))) (getpid (plat (kern s))))) s))"

text \<open>
  The destructor: it closes the connections in whatever order the table lists them, then the
  listener and the spare; the poller closes its descriptor when the members go.
\<close>

definition destroy :: "int list \<Rightarrow> server \<Rightarrow> server" where
  "destroy order s =
     (let k = foldl (\<lambda>k fd. case conns s fd of None \<Rightarrow> k | Some c \<Rightarrow> sys_close (conn_fd c) k) (kern s) order;
          k = (if listen_fd s \<ge> 0 then sys_close (listen_fd s) k else k);
          k = (if spare_fd s \<ge> 0 then sys_close (spare_fd s) k else k)
      in s\<lparr>conns := Map.empty, kern := poller_destroy (poller_fd (sloop s)) k\<rparr>)"

end
