(* ===== verification/Server_Inv.thy ===== *)
theory Server_Inv
  imports Server
begin

text \<open>
  The invariant that ties the server's tables together, kept by every event handler: the handler
  table is the listener (unless paused) and the connections, the poller's interest list is the
  handler table, write interest is wanted exactly for the connections that have output pending,
  a connection that is to be closed has output pending, and no descriptor is used twice.
\<close>

subsection \<open>The invariant\<close>

definition conn_mid :: "conn \<Rightarrow> bool" where
  "conn_mid c \<longleftrightarrow> buf_ok (conn_in c) \<and> buf_ok (conn_out c) \<and> parser_ok (conn_parser c) \<and>
     limits (conn_parser c) = default_limits"

definition conn_ok :: "conn \<Rightarrow> bool" where
  "conn_ok c \<longleftrightarrow> conn_mid c \<and> (write_armed c \<longleftrightarrow> \<not> buf_empty (conn_out c)) \<and>
     (close_after_write c \<longrightarrow> \<not> buf_empty (conn_out c))"

definition table_ok :: "server \<Rightarrow> bool" where
  "table_ok s \<longleftrightarrow> conns s (listen_fd s) = None \<and>
     (\<forall>fd. handlers (sloop s) fd =
        (if fd = listen_fd s then if listener_paused s then None else Some ListenerCb
         else map_option (\<lambda>c. ConnCb) (conns s fd)))"

definition fds_ok :: "server \<Rightarrow> bool" where
  "fds_ok s \<longleftrightarrow> listen_fd s |\<in>| open_fds (kern s) \<and>
     (\<forall>fd c. conns s fd = Some c \<longrightarrow> fd |\<in>| open_fds (kern s) \<and> conn_fd c = fd) \<and>
     (0 \<le> spare_fd s \<longrightarrow> spare_fd s |\<in>| open_fds (kern s) \<and> spare_fd s \<noteq> listen_fd s \<and>
        conns s (spare_fd s) = None)"

definition core_inv :: "server \<Rightarrow> bool" where
  "core_inv s \<longleftrightarrow> kernel_ok (kern s) \<and> db_ok (sdb s) \<and> loop_synced (sloop s) (kern s) \<and> table_ok s \<and> fds_ok s"

definition conn_here :: "server \<Rightarrow> int \<Rightarrow> conn \<Rightarrow> bool" where
  "conn_here s fd c \<longleftrightarrow> conn_ok c \<and> polled_as (kern s) fd (write_armed c)"

text \<open>While the event of one descriptor is handled, the invariant may be open for that one.\<close>

definition inv_but :: "int set \<Rightarrow> server \<Rightarrow> bool" where
  "inv_but X s \<longleftrightarrow> core_inv s \<and> (\<forall>fd c. fd \<notin> X \<longrightarrow> conns s fd = Some c \<longrightarrow> conn_here s fd c)"

definition server_inv :: "server \<Rightarrow> bool" where
  "server_inv s \<longleftrightarrow> inv_but {} s"

lemmas inv_defs = core_inv_def table_ok_def fds_ok_def conn_here_def polled_as_def inv_but_def

lemma unused_fd: "fds_ok s \<Longrightarrow> fd |\<notin>| open_fds (kern s) \<Longrightarrow> conns s fd = None"
  by (cases "conns s fd") (auto simp: fds_ok_def)

text \<open>The log is not part of any of this.\<close>

lemma inv_but_log [simp]:
  "inv_but X (s\<lparr>kern := k\<lparr>klog := L\<rparr>\<rparr>) = inv_but X (s\<lparr>kern := k\<rparr>)" "inv_but X (s\<lparr>kern := k\<lparr>errnos := E\<rparr>\<rparr>) = inv_but X (s\<lparr>kern := k\<rparr>)"
  by (simp_all add: inv_defs loop_synced_def)

subsection \<open>Frames\<close>

text \<open>What the listener operations leave alone: everything but the loop, the spare and the kernel.\<close>

definition same_conns :: "server \<Rightarrow> server \<Rightarrow> bool" where
  "same_conns s s' \<longleftrightarrow> cfg s' = cfg s \<and> sdb s' = sdb s \<and> listen_fd s' = listen_fd s \<and> conns s' = conns s \<and>
     wire (kern s') = wire (kern s) \<and> sends (kern s') = sends (kern s)"

lemma same_conns_refl [simp]: "same_conns s s"
  by (simp add: same_conns_def)

lemma same_conns_trans: "same_conns s s' \<Longrightarrow> same_conns s' s'' \<Longrightarrow> same_conns s s''"
  by (simp add: same_conns_def)

lemma unregister_facts:
  assumes "loop_synced (sloop s) (kern s)" "s' = unregister fd s"
  shows "loop_synced (sloop s') (kern s')" "handlers (sloop s') = (handlers (sloop s))(fd := None)"
    "interest (kern s') = (interest (kern s))(fd := None)" "same_conns s s'"
    "mod_refused (kern s') = mod_refused (kern s)"
    "spare_fd s' = spare_fd s" "listener_paused s' = listener_paused s"
    "open_fds (kern s') = open_fds (kern s)" "kernel_ok (kern s) \<Longrightarrow> kernel_ok (kern s')"
proof -
  obtain l k where r: "loop_remove fd (sloop s) (kern s) = (l, k)" by fastforce
  note f = loop_remove_synced [OF assms(1) r]
  have u: "s' = s\<lparr>sloop := l, kern := k\<rparr>" using assms(2) r by (simp add: unregister_def)
  have "sends k = sends (kern s)"
    using r by (auto simp: loop_remove_def poller_del_def split: option.splits)
  then show "loop_synced (sloop s') (kern s')" "handlers (sloop s') = (handlers (sloop s))(fd := None)"
    "interest (kern s') = (interest (kern s))(fd := None)" "same_conns s s'"
    "mod_refused (kern s') = mod_refused (kern s)"
    "spare_fd s' = spare_fd s" "listener_paused s' = listener_paused s"
    "open_fds (kern s') = open_fds (kern s)" "kernel_ok (kern s) \<Longrightarrow> kernel_ok (kern s')"
    using f u r wire_calls(5) [of fd "sloop s" "kern s"] open_fds_calls(3) [of fd "sloop s" "kern s"]
      kernel_ok_calls(6) [of "kern s" fd "sloop s"]
    by (simp_all add: same_conns_def)
qed

lemma register_facts:
  assumes "loop_synced (sloop s) (kern s)" "register fd cb s = (ok, s')"
  shows "loop_synced (sloop s') (kern s')"
    "handlers (sloop s') = (if ok then (handlers (sloop s))(fd \<mapsto> cb) else handlers (sloop s))"
    "interest (kern s') = (if ok then (interest (kern s))(fd \<mapsto> False) else interest (kern s))" "same_conns s s'"
    "mod_refused (kern s') = (if ok then (mod_refused (kern s))(fd := False) else mod_refused (kern s))"
    "spare_fd s' = spare_fd s" "listener_paused s' = listener_paused s"
    "open_fds (kern s') = open_fds (kern s)" "kernel_ok (kern s) \<Longrightarrow> kernel_ok (kern s')"
proof -
  obtain l k where r: "loop_add fd False cb (sloop s) (kern s) = (ok, l, k)" and u: "s' = s\<lparr>sloop := l, kern := k\<rparr>"
    using assms(2) by (auto simp: register_def split: prod.splits)
  note f = loop_add_synced [OF assms(1) r]
  have "sends k = sends (kern s)"
    using r by (auto simp: loop_add_def poller_add_def Let_def split: if_splits)
  then show "loop_synced (sloop s') (kern s')"
    "handlers (sloop s') = (if ok then (handlers (sloop s))(fd \<mapsto> cb) else handlers (sloop s))"
    "interest (kern s') = (if ok then (interest (kern s))(fd \<mapsto> False) else interest (kern s))" "same_conns s s'"
    "mod_refused (kern s') = (if ok then (mod_refused (kern s))(fd := False) else mod_refused (kern s))"
    "spare_fd s' = spare_fd s" "listener_paused s' = listener_paused s"
    "open_fds (kern s') = open_fds (kern s)" "kernel_ok (kern s) \<Longrightarrow> kernel_ok (kern s')"
    using f u r wire_calls(3) [of fd False cb "sloop s" "kern s"] open_fds_calls(1) [of fd False cb "sloop s" "kern s"]
      kernel_ok_calls(4) [of "kern s" fd False cb "sloop s"]
    by (simp_all add: same_conns_def)
qed

subsection \<open>The listener operations keep the invariant\<close>

lemma reopen_spare_fd_facts:
  assumes "kernel_ok (kern s)" "reopen_spare_fd s = (ok, s')"
  shows "same_conns s s'" "sloop s' = sloop s" "listener_paused s' = listener_paused s"
    "interest (kern s') = interest (kern s)" "kernel_ok (kern s')" "\<And>fd. fd |\<in>| open_fds (kern s) \<Longrightarrow> fd |\<in>| open_fds (kern s')"
    "ok \<longleftrightarrow> 0 \<le> spare_fd s'"
    "0 \<le> spare_fd s' \<Longrightarrow> spare_fd s' = spare_fd s \<or> (spare_fd s' |\<notin>| open_fds (kern s) \<and> spare_fd s' |\<in>| open_fds (kern s'))"
    "mod_refused (kern s') = mod_refused (kern s)"
  using assms
  by (auto simp: reopen_spare_fd_def sys_open_def kernel_ok_def same_conns_def Let_def split: if_splits)

lemma reopen_spare_fd_inv:
  assumes "inv_but X s" "reopen_spare_fd s = (ok, s')"
  shows "inv_but X s'"
proof -
  have k: "kernel_ok (kern s)" using assms(1) by (simp add: inv_defs)
  note f = reopen_spare_fd_facts [OF k assms(2)]
  have fds: "fds_ok s" using assms(1) by (simp add: inv_but_def core_inv_def)
  have "spare_fd s' |\<in>| open_fds (kern s') \<and> spare_fd s' \<noteq> listen_fd s \<and> conns s (spare_fd s') = None"
    if "0 \<le> spare_fd s'"
    using f(8) [OF that]
  proof
    assume "spare_fd s' = spare_fd s"
    then show ?thesis using that fds f(6) by (simp add: fds_ok_def)
  next
    assume "spare_fd s' |\<notin>| open_fds (kern s) \<and> spare_fd s' |\<in>| open_fds (kern s')"
    then show ?thesis using fds unused_fd [OF fds] by (auto simp: fds_ok_def)
  qed
  then show ?thesis
    using assms(1) f(1-6,9) by (simp add: inv_defs same_conns_def loop_synced_def)
qed

lemma pause_listener_inv: "inv_but X s \<Longrightarrow> inv_but X (pause_listener s)"
  using unregister_facts [of s _ "listen_fd s", OF _ refl]
  by (auto simp: pause_listener_def inv_defs same_conns_def loop_synced_def)

lemma resume_listener_inv:
  assumes "inv_but X s" shows "inv_but X (resume_listener s)"
proof -
  obtain ok1 s1 where r: "reopen_spare_fd s = (ok1, s1)" by fastforce
  obtain ok2 s2 where g: "register (listen_fd s1) ListenerCb s1 = (ok2, s2)" by fastforce
  have i1: "inv_but X s1" using assms r by (rule reopen_spare_fd_inv)
  have sy: "loop_synced (sloop s1) (kern s1)" using i1 by (simp add: inv_defs)
  note f = register_facts [OF sy g]
  have i2: "inv_but X (if ok2 then s2\<lparr>listener_paused := False\<rparr> else s2)"
    using i1 f by (auto simp: inv_defs same_conns_def loop_synced_def split: if_splits)
  show ?thesis
    using assms r g i1 i2 by (auto simp: resume_listener_def split: if_splits)
qed

lemma resume_listener_same: "kernel_ok (kern s) \<Longrightarrow> loop_synced (sloop s) (kern s) \<Longrightarrow> same_conns s (resume_listener s)"
proof -
  assume k: "kernel_ok (kern s)" and sy: "loop_synced (sloop s) (kern s)"
  obtain ok1 s1 where r: "reopen_spare_fd s = (ok1, s1)" by fastforce
  obtain ok2 s2 where g: "register (listen_fd s1) ListenerCb s1 = (ok2, s2)" by fastforce
  note f1 = reopen_spare_fd_facts [OF k r]
  have "loop_synced (sloop s1) (kern s1)" using sy f1(2,4) by (simp add: loop_synced_def)
  note f2 = register_facts [OF this g]
  show ?thesis
    using r g f1(1) f2(4) by (auto simp: resume_listener_def same_conns_def)
qed

lemma close_unused_inv:
  assumes "inv_but X s" "conns s fd = None" "fd \<noteq> listen_fd s" "spare_fd s \<noteq> fd"
  shows "inv_but X (s\<lparr>kern := sys_close fd (kern s)\<rparr>)"
proof -
  have "handlers (sloop s) fd = None" using assms by (simp add: inv_defs)
  then have "interest (kern s) fd = None" using assms(1) by (simp add: inv_defs loop_synced_def)
  then have "(interest (kern s))(fd := None) = interest (kern s)" by (simp add: fun_upd_idem)
  then show ?thesis
    using assms by (auto simp: inv_defs loop_synced_def sys_close_def kernel_ok_def)
qed

text \<open>Taking a descriptor from the kernel, and giving the spare one back.\<close>

lemma sys_accept_inv:
  assumes "inv_but X s" "sys_accept (kern s) = (r, fd, k)"
  shows "inv_but X (s\<lparr>kern := k\<rparr>)" "r = AcceptReady \<longleftrightarrow> 0 \<le> fd"
    "0 \<le> fd \<Longrightarrow> conns s fd = None \<and> fd \<noteq> listen_fd s \<and> (0 \<le> spare_fd s \<longrightarrow> spare_fd s \<noteq> fd) \<and> fd |\<in>| open_fds k"
proof -
  have fds: "fds_ok s" and k: "kernel_ok (kern s)" using assms(1) by (simp_all add: inv_defs)
  let ?fd = "alloc (kern s) (open_fds (kern s))"
  have fresh: "?fd |\<notin>| open_fds (kern s)" "0 \<le> ?fd" using k by (auto simp: kernel_ok_def)
  have cl: "conns s ?fd = None" using unused_fd [OF fds fresh(1)] .
  show "r = AcceptReady \<longleftrightarrow> 0 \<le> fd"
    using assms(2) fresh(2) by (auto simp: sys_accept_def Let_def split: if_splits)
  show "conns s fd = None \<and> fd \<noteq> listen_fd s \<and> (0 \<le> spare_fd s \<longrightarrow> spare_fd s \<noteq> fd) \<and> fd |\<in>| open_fds k"
    if "0 \<le> fd"
    using assms(2) that fresh cl fds by (auto simp: sys_accept_def fds_ok_def Let_def split: if_splits)
  show "inv_but X (s\<lparr>kern := k\<rparr>)"
    using assms by (auto simp: sys_accept_def inv_defs loop_synced_def kernel_ok_def Let_def split: if_splits)
qed

lemma drop_spare_inv:
  assumes "inv_but X s" "0 \<le> spare_fd s"
  shows "inv_but X (s\<lparr>spare_fd := - 1, kern := sys_close (spare_fd s) (kern s)\<rparr>)"
proof -
  have "inv_but X (s\<lparr>spare_fd := - 1\<rparr>)" using assms(1) by (auto simp: inv_defs)
  moreover have "conns s (spare_fd s) = None" "spare_fd s \<noteq> listen_fd s" using assms by (auto simp: inv_defs)
  ultimately show ?thesis using close_unused_inv [of X "s\<lparr>spare_fd := - 1\<rparr>" "spare_fd s"] assms(2) by simp
qed

lemma shed_connection_cases:
  obtains (nothing) "\<not> 0 \<le> spare_fd s" "shed_connection s = pause_listener s"
  | (spends) r fd k L ok s3 where "0 \<le> spare_fd s" "sys_accept (sys_close (spare_fd s) (kern s)) = (r, fd, k)"
    "reopen_spare_fd (s\<lparr>spare_fd := - 1, kern := (if fd \<ge> 0 then sys_close fd k else k)\<lparr>klog := L\<rparr>\<rparr>) = (ok, s3)"
    "shed_connection s = (if ok then s3 else pause_listener s3)"
proof (cases "0 \<le> spare_fd s")
  case True
  obtain r fd k where a: "sys_accept (sys_close (spare_fd s) (kern s)) = (r, fd, k)" by (metis prod_cases3)
  let ?k = "if fd \<ge> 0 then sys_close fd k else k" and ?m = "shed_msg (connection_count (s\<lparr>spare_fd := - 1, kern := if fd \<ge> 0 then sys_close fd k else k\<rparr>))"
  obtain ok s3 where "reopen_spare_fd (s\<lparr>spare_fd := - 1, kern := ?k\<lparr>klog := log_warn ?m (klog ?k)\<rparr>\<rparr>) = (ok, s3)" by fastforce
  then show thesis using spends [OF True a] a True by (simp add: shed_connection_def Let_def)
qed (simp add: shed_connection_def nothing)

lemma shed_connection_inv:
  assumes "inv_but X s" shows "inv_but X (shed_connection s)"
proof (cases rule: shed_connection_cases [of s])
  case (spends r fd k L ok s3)
  let ?s1 = "s\<lparr>spare_fd := - 1, kern := sys_close (spare_fd s) (kern s)\<rparr>"
  have i1: "inv_but X ?s1" using assms spends(1) by (rule drop_spare_inv)
  note sa = sys_accept_inv [OF i1, of r fd k]
  have "inv_but X (?s1\<lparr>kern := (if fd \<ge> 0 then sys_close fd k else k)\<lparr>klog := L\<rparr>\<rparr>)"
    using sa spends(2) close_unused_inv [OF sa(1), of fd] by simp
  then have i3: "inv_but X s3" using reopen_spare_fd_inv [OF _ spends(3)] by simp
  then show ?thesis using spends(4) pause_listener_inv [OF i3] by simp
qed (simp add: assms pause_listener_inv)

lemma conn_ok_new [simp]: "conn_ok (new_conn fd peer)"
  by (simp add: conn_ok_def conn_mid_def new_conn_def buf_empty_iff)

text \<open>The calls that set up an accepted socket do not touch what the invariant speaks about.\<close>

lemma quiet_inv: "inv_but X s \<Longrightarrow> quiet fd (kern s) k \<Longrightarrow> inv_but X (s\<lparr>kern := k\<rparr>)"
  by (simp add: inv_defs quiet_def loop_synced_def kernel_ok_def)

lemma quiet_log [simp]: "quiet fd k (k'\<lparr>klog := L\<rparr>) = quiet fd k k'" "quiet fd (k\<lparr>klog := L\<rparr>) k' = quiet fd k k'"
  by (simp_all add: quiet_def)

lemma add_connection_cases:
  obtains (refused) k where "quiet fd (kern s) k" "add_connection s fd = s\<lparr>kern := sys_close fd k\<rparr>"
  | (registers) k peer ok s2 L where "quiet fd (kern s) k" "nonblocking k fd" "register fd ConnCb (s\<lparr>kern := k\<rparr>) = (ok, s2)"
    "add_connection s fd =
       (if ok then s2\<lparr>kern := (kern s2)\<lparr>klog := L\<rparr>, conns := (conns s2)(fd \<mapsto> new_conn fd peer)\<rparr>
        else s2\<lparr>kern := sys_close fd ((kern s2)\<lparr>klog := L\<rparr>)\<rparr>)"
proof -
  obtain err k1 where n: "set_nonblocking fd (kern s) = (err, k1)" by fastforce
  have q1: "quiet fd (kern s) k1" using set_nonblocking_quiet [of fd "kern s"] n by simp
  let ?k2 = "snd (set_tcp_nodelay fd k1)" let ?k3 = "snd (suppress_sigpipe fd ?k2)" let ?k4 = "snd (peer_name fd ?k3)"
  obtain ok s2 where r: "register fd ConnCb (s\<lparr>kern := ?k4\<rparr>) = (ok, s2)" by fastforce
  have q4: "quiet fd (kern s) ?k4"
    using quiet_trans [OF quiet_trans [OF quiet_trans [OF q1 set_tcp_nodelay_quiet] suppress_sigpipe_quiet] peer_name_quiet] .
  show thesis
  proof (cases err)
    case None
    then have "nonblocking k1 fd" using set_nonblocking_sets n by blast
    then have "nonblocking ?k4 fd" using q1 q4 by (simp add: nonblocking_def flags_frame quiet_def)
    from registers [OF q4 this r, of "fst (peer_name fd ?k3)"
        "if ok then log_debug (accepted_msg (fst (peer_name fd ?k3)) fd (connection_count s2 + 1)) (klog (kern s2))
         else log_error (unregistered_msg (fst (peer_name fd ?k3))) (klog (kern s2))"] show thesis
      using n r None by (simp add: add_connection_def Let_def case_prod_beta split: if_splits)
  next
    case (Some e)
    then show thesis using refused [of "k1\<lparr>klog := log_error (rejected_msg e) (klog k1)\<rparr>"] q1 n by (simp add: add_connection_def)
  qed
qed

lemma add_connection_inv:
  assumes "inv_but X s" "conns s fd = None" "fd \<noteq> listen_fd s" "spare_fd s \<noteq> fd" "fd |\<in>| open_fds (kern s)"
  shows "inv_but X (add_connection s fd)"
proof (cases rule: add_connection_cases [of fd s])
  case (refused k)
  then show ?thesis
    using close_unused_inv [OF quiet_inv [OF assms(1) refused(1)], of fd] assms(2-4) by simp
next
  case (registers k peer ok s2 L)
  let ?s1 = "s\<lparr>kern := k\<rparr>"
  have i1: "inv_but X ?s1" using assms(1) registers(1) by (rule quiet_inv)
  have "loop_synced (sloop ?s1) (kern ?s1)" using i1 by (simp add: inv_defs)
  note f = register_facts [OF this registers(3)]
  have o: "fd |\<in>| open_fds k" using assms(5) registers(1) by (simp add: quiet_def)
  have "inv_but X (s2\<lparr>kern := (kern s2)\<lparr>klog := L\<rparr>, conns := (conns s2)(fd \<mapsto> new_conn fd peer)\<rparr>)" if ok
    using i1 f assms(2-4) o that
    by (auto simp: inv_defs same_conns_def loop_synced_def new_conn_def [of fd, THEN arg_cong, of write_armed]
        new_conn_def [of fd, THEN arg_cong, of conn_fd])
  moreover have "inv_but X (s2\<lparr>kern := sys_close fd ((kern s2)\<lparr>klog := L\<rparr>)\<rparr>)" if "\<not> ok"
  proof -
    have "inv_but X s2" using i1 f that by (auto simp: inv_defs same_conns_def)
    then have "inv_but X (s2\<lparr>kern := (kern s2)\<lparr>klog := L\<rparr>\<rparr>)" by simp
    from close_unused_inv [OF this, of fd] show ?thesis using f assms(2-4) by (simp add: same_conns_def)
  qed
  ultimately show ?thesis using registers(4) by simp
qed

lemma accept_loop_inv: "inv_but X s \<Longrightarrow> inv_but X (accept_loop n s)"
proof (induction n arbitrary: s)
  case (Suc n)
  obtain r fd k where a: "sys_accept (kern s) = (r, fd, k)" by (metis prod_cases3)
  note sa = sys_accept_inv [OF Suc.prems a]
  have "inv_but X (add_connection (s\<lparr>kern := k\<rparr>) fd)" if "r = AcceptReady"
    using sa that by (intro add_connection_inv) auto
  then show ?case
    using a sa(1) Suc.IH shed_connection_inv [OF sa(1)] by (auto simp: Let_def split: accept_outcome.splits)
qed simp

subsection \<open>Closing a connection\<close>

text \<open>The invariant may be open for the connection that goes; afterwards it holds for all.\<close>

lemma close_conn_facts:
  assumes "inv_but {fd} s" "conns s fd \<noteq> None" "conn_fd c = fd"
  shows "server_inv (close_conn s c why)" "conns (close_conn s c why) = (conns s)(fd := None)"
    "sdb (close_conn s c why) = sdb s" "cfg (close_conn s c why) = cfg s" "wire (kern (close_conn s c why)) = wire (kern s)"
proof -
  let ?s0 = "logs (log_debug (closing_msg (conn_peer c) fd why)) s" let ?s1 = "unregister fd ?s0"
  let ?s2 = "?s1\<lparr>kern := sys_close fd (kern ?s1), conns := (conns s)(fd := None)\<rparr>"
  have i0: "inv_but {fd} ?s0" "conns ?s0 fd \<noteq> None" using assms(1,2) by simp_all
  have sy: "loop_synced (sloop ?s0) (kern ?s0)" using i0(1) unfolding inv_defs by blast
  note u = unregister_facts [OF sy refl [of "unregister fd ?s0"]]
  have ne: "fd \<noteq> listen_fd s" "0 \<le> spare_fd s \<Longrightarrow> spare_fd s \<noteq> fd" using assms(1,2) by (auto simp: inv_defs)
  have eq: "close_conn s c why = resume_listener ?s2"
    using assms(3) u(4) by (simp add: close_conn_def Let_def same_conns_def)
  have i2: "inv_but {} ?s2"
    using i0(1) u ne by (auto simp: inv_defs same_conns_def loop_synced_def sys_close_def kernel_ok_def)
  then show "server_inv (close_conn s c why)" by (simp add: server_inv_def eq resume_listener_inv)
  have "same_conns ?s2 (resume_listener ?s2)" using i2 by (intro resume_listener_same) (simp_all add: inv_defs)
  then show "conns (close_conn s c why) = (conns s)(fd := None)" "sdb (close_conn s c why) = sdb s"
    "cfg (close_conn s c why) = cfg s" "wire (kern (close_conn s c why)) = wire (kern s)"
    using u(4) by (simp_all add: eq same_conns_def)
qed

end
