(* ===== verification/Delivery.thy ===== *)
theory Delivery
  imports Server_Inv
begin

text \<open>
  The data path of a connection. Nothing is lost or reordered on the way out: the bytes the
  socket has taken followed by the bytes still pending are the bytes the commands wrote. And
  where the reads and the partial writes fall makes no difference to that stream.
\<close>

subsection \<open>The write loop\<close>

lemma send_loop_delivers:
  "buf_ok out \<Longrightarrow> send_loop os out w = (ok, os', out', w') \<Longrightarrow>
     buf_ok out' \<and> w' @ buf_contents out' = w @ buf_contents out"
proof (induction os arbitrary: out w)
  case Nil
  then show ?case by (auto simp: send_loop.simps [of "[]"] split: if_splits)
next
  case (Cons x os)
  show ?case
  proof (cases "buf_empty out")
    case True
    with Cons.prems show ?thesis by (auto simp: send_loop.simps [of "_ # os"])
  next
    case False
    show ?thesis
    proof (cases x)
      case (SendTook n)
      with Cons.prems False Cons.IH [of "consume out n" "w @ take n (buf_contents out)"] show ?thesis
        by (auto simp: send_loop.simps [of "_ # os"] split: if_splits)
    qed (use Cons.prems False Cons.IH [of out w] in \<open>auto simp: send_loop.simps [of "_ # os"]\<close>)
  qed
qed

lemma loop_set_write_interest_sends:
  "sends (snd (loop_set_write_interest fd w k)) = sends k"
  by (auto simp: loop_set_write_interest_def poller_set_write_interest_def Let_def)

subsection \<open>One event on one connection\<close>

text \<open>
  The state in the middle of an event: the connection \<open>c\<close> is the live copy of the entry of
  \<open>fd\<close>, for which the invariant is open.
\<close>

definition in_hand :: "int \<Rightarrow> server \<Rightarrow> conn \<Rightarrow> bool" where
  "in_hand fd s c \<longleftrightarrow> inv_but {fd} s \<and> conns s fd \<noteq> None \<and> conn_fd c = fd \<and> conn_mid c \<and>
     polled_as (kern s) fd (write_armed c)"

lemma in_hand_log [simp]:
  "in_hand fd (s\<lparr>kern := (kern s)\<lparr>klog := L\<rparr>\<rparr>) c = in_hand fd s c" "in_hand fd (s\<lparr>kern := (kern s)\<lparr>errnos := E\<rparr>\<rparr>) c = in_hand fd s c"
  by (simp_all add: in_hand_def)

text \<open>
  The state it is left in: closed, with the invariant restored, or still open. Either way the
  other connections are untouched.
\<close>

fun left_as :: "int \<Rightarrow> server \<Rightarrow> conn option \<times> server \<Rightarrow> bool" where
  "left_as fd s (None, s') \<longleftrightarrow> server_inv s' \<and> conns s' = (conns s)(fd := None) \<and> cfg s' = cfg s"
| "left_as fd s (Some c, s') \<longleftrightarrow> in_hand fd s' c \<and> conns s' = conns s \<and> cfg s' = cfg s"

lemma close_conn_left:
  assumes "in_hand fd s c" "conn_fd c' = fd" shows "left_as fd s (None, close_conn s c' why)"
  using close_conn_facts [of fd s c'] assms by (simp add: in_hand_def)

lemma arm_write_facts:
  assumes "inv_but {fd} s" "conns s fd \<noteq> None"
  shows "inv_but {fd} (arm_write fd w s)" "conns (arm_write fd w s) = conns s" "cfg (arm_write fd w s) = cfg s"
    "sdb (arm_write fd w s) = sdb s" "polled_as (kern (arm_write fd w s)) fd w"
    "wire (kern (arm_write fd w s)) = wire (kern s)"
proof -
  obtain ok k where r: "loop_set_write_interest fd w (kern s) = (ok, k)" by fastforce
  have s: "loop_synced (sloop s) (kern s)" "kernel_ok (kern s)" "handlers (sloop s) fd \<noteq> None"
    using assms by (auto simp: inv_defs)
  note f = loop_set_write_interest_synced [OF s(1,3) r]
  have k: "kernel_ok k" "open_fds k = open_fds (kern s)" "wire k = wire (kern s)"
    using kernel_ok_calls(5) [OF s(2), of fd w] open_fds_calls(2) [of fd w "kern s"]
      wire_calls(4) [of fd w "kern s"] r by simp_all
  show "inv_but {fd} (arm_write fd w s)" "conns (arm_write fd w s) = conns s" "cfg (arm_write fd w s) = cfg s"
    "sdb (arm_write fd w s) = sdb s" "polled_as (kern (arm_write fd w s)) fd w"
    "wire (kern (arm_write fd w s)) = wire (kern s)"
    using assms f k r by (auto simp: arm_write_def inv_defs split: if_splits)
qed

text \<open>After the send loop: the kernel's script and the wire have moved, nothing else.\<close>

lemma after_sends:
  assumes "in_hand fd s c" "send_loop (sends (kern s)) (conn_out c) (wire (kern s) fd) = (ok, os, out, w)"
    "s1 = s\<lparr>kern := (kern s)\<lparr>sends := os, wire := (wire (kern s))(fd := w)\<rparr>\<rparr>" "c1 = c\<lparr>conn_out := out\<rparr>"
  shows "in_hand fd s1 c1" "conns s1 = conns s" "cfg s1 = cfg s" "sdb s1 = sdb s"
    "w @ buf_contents out = wire (kern s) fd @ buf_contents (conn_out c)"
proof -
  have o: "buf_ok (conn_out c)" using assms(1) by (simp add: in_hand_def conn_mid_def)
  note d = send_loop_delivers [OF o assms(2)]
  then show "w @ buf_contents out = wire (kern s) fd @ buf_contents (conn_out c)" by simp
  show "in_hand fd s1 c1" "conns s1 = conns s" "cfg s1 = cfg s" "sdb s1 = sdb s"
    using assms(1) d by (auto simp: assms(3,4) in_hand_def inv_defs conn_mid_def loop_synced_def kernel_ok_def)
qed

lemma flush_output_left:
  assumes "in_hand fd s c" "flush_output s c = (oc, s')"
  shows "left_as fd s (oc, s')" "sdb s' = sdb s"
    "\<And>c'. oc = Some c' \<Longrightarrow> conn_here s' fd c' \<and> close_after_write c' = close_after_write c \<and>
       conn_in c' = conn_in c \<and> conn_parser c' = conn_parser c \<and>
       wire (kern s') fd @ buf_contents (conn_out c') = wire (kern s) fd @ buf_contents (conn_out c)"
proof -
  obtain ok os out w where l: "send_loop (sends (kern s)) (conn_out c) (wire (kern s) fd) = (ok, os, out, w)"
    by (metis prod_cases4)
  let ?s1 = "s\<lparr>kern := (kern s)\<lparr>sends := os, wire := (wire (kern s))(fd := w)\<rparr>\<rparr>"
  let ?c1 = "c\<lparr>conn_out := out\<rparr>"
  note a = after_sends [OF assms(1) l refl refl]
  have fd: "conn_fd c = fd" "conn_fd ?c1 = fd" using assms(1) by (simp_all add: in_hand_def)
  have i1: "inv_but {fd} ?s1" "conns ?s1 fd \<noteq> None" "conn_mid ?c1" "polled_as (kern ?s1) fd (write_armed c)"
    using a(1) by (simp_all add: in_hand_def)
  note cl = close_conn_left [OF a(1) fd(2)] and cf = close_conn_facts [OF i1(1,2) fd(2)]
  let ?e = "\<lambda>E. ?s1\<lparr>kern := (kern ?s1)\<lparr>errnos := E\<rparr>\<rparr>"
  have ie: "in_hand fd (?e E) ?c1" "inv_but {fd} (?e E)" "conns (?e E) fd \<noteq> None" for E
    using in_hand_log(2) [where s = ?s1] a(1) by (simp_all add: in_hand_def)
  note cle = close_conn_left [OF ie(1) fd(2)] and cfe = close_conn_facts [OF ie(2,3) fd(2)]
  note aw = arm_write_facts [OF i1(1,2)]
  consider (fails) E why where "oc = None" "s' = close_conn (?e E) ?c1 why"
    | (gone) why where "oc = None" "s' = close_conn ?s1 ?c1 why"
    | (quiet) "oc = Some ?c1" "s' = ?s1" "buf_empty out \<longleftrightarrow> \<not> write_armed c" "buf_empty out \<longrightarrow> \<not> close_after_write c"
    | (armed) "oc = Some (?c1\<lparr>write_armed := \<not> buf_empty out\<rparr>)" "s' = arm_write fd (\<not> buf_empty out) ?s1"
        "buf_empty out \<longrightarrow> \<not> close_after_write c"
    using assms(2) l fd(1) by (auto simp: flush_output_def Let_def split: if_splits)
  then have "left_as fd s (oc, s') \<and> sdb s' = sdb s \<and>
    (\<forall>c'. oc = Some c' \<longrightarrow> conn_here s' fd c' \<and> close_after_write c' = close_after_write c \<and>
       conn_in c' = conn_in c \<and> conn_parser c' = conn_parser c \<and>
       wire (kern s') fd @ buf_contents (conn_out c') = wire (kern s) fd @ buf_contents (conn_out c))"
  proof cases
    case (fails E why)
    then show ?thesis using cle [of E why] cfe [of E why] by simp
  next
    case (gone why)
    then show ?thesis using cl cf by simp
  next
    case quiet
    then show ?thesis using a i1 by (auto simp: conn_here_def conn_ok_def)
  next
    case armed
    then show ?thesis
      using a(2,3,4,5) i1(2,3) fd aw by (auto simp: in_hand_def conn_here_def conn_ok_def conn_mid_def)
  qed
  then show "left_as fd s (oc, s')" "sdb s' = sdb s"
    "\<And>c'. oc = Some c' \<Longrightarrow> conn_here s' fd c' \<and> close_after_write c' = close_after_write c \<and>
       conn_in c' = conn_in c \<and> conn_parser c' = conn_parser c \<and>
       wire (kern s') fd @ buf_contents (conn_out c') = wire (kern s) fd @ buf_contents (conn_out c)"
    by auto
qed

subsection \<open>The command loop\<close>

lemma default_limits_inline: "int (max_inline_len default_limits) \<le> INT64_MAX"
  by (simp add: default_limits_def)

lemma parse_in_hand:
  assumes "in_hand fd s c" "parse (conn_parser c) (conn_in c) = (st, p, b)"
  shows "buf_ok b" "parser_ok p" "limits p = default_limits"
    "parse_bytes (conn_parser c) (buf_contents (conn_in c)) = (st, p, buf_contents b)"
    "st = Complete argv \<Longrightarrow> argv_ok argv"
proof -
  have m: "buf_ok (conn_in c)" "parser_ok (conn_parser c)" "limits (conn_parser c) = default_limits"
    using assms(1) by (simp_all add: in_hand_def conn_mid_def)
  show pb: "parse_bytes (conn_parser c) (buf_contents (conn_in c)) = (st, p, buf_contents b)" and "buf_ok b"
    using parse_refines_bytes [OF m(1) assms(2)] by auto
  note bd = parse_bytes_bounded [OF m(2) pb]
  show "parser_ok p" "limits p = default_limits" using bd parse_bytes_limits [OF pb] m(3) by auto
  show "argv_ok argv" if "st = Complete argv"
    using bd that m(3) default_limits_inline by (intro command_argv_ok [of default_limits]) auto
qed

lemma dispatch_in_hand:
  assumes "in_hand fd s c" "argv_ok argv" "x = dispatch (fresh_ctx argv (conn_out c) (sdb s))"
  shows "buf_ok (cout x)" "db_ok (cdb x)"
proof -
  have "ctx_ok (fresh_ctx argv (conn_out c) (sdb s))"
    using assms(1,2) by (simp add: ctx_ok_def in_hand_def conn_mid_def inv_defs)
  then show "db_ok (cdb x)" unfolding assms(3) by (rule dispatch_db_ok)
  show "buf_ok (cout x)"
    using assms(1) dispatch_output(1) [of "conn_out c" argv "sdb s"] by (simp add: assms(3) in_hand_def conn_mid_def)
qed

lemma in_hand_update:
  assumes "in_hand fd s c" "buf_ok b" "buf_ok out" "parser_ok p" "limits p = default_limits" "db_ok d"
  shows "in_hand fd (s\<lparr>sdb := d\<rparr>) (c\<lparr>conn_parser := p, conn_in := b, conn_out := out\<rparr>)"
    "in_hand fd (s\<lparr>sdb := d\<rparr>) (c\<lparr>conn_parser := p, conn_in := b, conn_out := out, close_after_write := q\<rparr>)"
  using assms by (auto simp: in_hand_def conn_mid_def inv_defs)

lemma in_hand_db: "in_hand fd s c \<Longrightarrow> db_ok (sdb s) \<and> buf_ok (conn_out c)"
  by (simp add: in_hand_def conn_mid_def inv_defs)

text \<open>One turn of the loop, by what the parser returned.\<close>

lemma input_loop_cases:
  assumes "in_hand fd s c"
  obtains
    (waits) p b where "parse (conn_parser c) (conn_in c) = (Incomplete, p, b)"
      "input_loop s c = (Some (c\<lparr>conn_parser := p, conn_in := b\<rparr>), s)" "in_hand fd s (c\<lparr>conn_parser := p, conn_in := b\<rparr>)"
  | (breaks) e p b L where "parse (conn_parser c) (conn_in c) = (ParseError e, p, b)"
      "input_loop s c = (Some (c\<lparr>conn_parser := p, conn_in := b,
         conn_out := write_reply (conn_out c) (RError (''ERR '' @ e)), close_after_write := True\<rparr>), s\<lparr>kern := (kern s)\<lparr>klog := L\<rparr>\<rparr>)"
      "in_hand fd s (c\<lparr>conn_parser := p, conn_in := b, conn_out := write_reply (conn_out c) (RError (''ERR '' @ e)), close_after_write := True\<rparr>)"
  | (skips) p b where "parse (conn_parser c) (conn_in c) = (Complete [], p, b)"
      "input_loop s c = input_loop s (c\<lparr>conn_parser := p, conn_in := b\<rparr>)" "in_hand fd s (c\<lparr>conn_parser := p, conn_in := b\<rparr>)"
  | (quits) argv p b x where "parse (conn_parser c) (conn_in c) = (Complete argv, p, b)" "argv \<noteq> []"
      "x = dispatch (fresh_ctx argv (conn_out c) (sdb s))" "close_after_reply x"
      "input_loop s c = (Some (c\<lparr>conn_parser := p, conn_in := b, conn_out := cout x, close_after_write := True\<rparr>),
         s\<lparr>sdb := cdb x\<rparr>)"
      "in_hand fd (s\<lparr>sdb := cdb x\<rparr>) (c\<lparr>conn_parser := p, conn_in := b, conn_out := cout x, close_after_write := True\<rparr>)"
  | (overflows) argv p b x L why where "parse (conn_parser c) (conn_in c) = (Complete argv, p, b)" "argv \<noteq> []"
      "x = dispatch (fresh_ctx argv (conn_out c) (sdb s))" "\<not> close_after_reply x"
      "readable (cout x) > max_output_buffer (cfg s)" 
      "input_loop s c = (None, close_conn (s\<lparr>sdb := cdb x, kern := (kern s)\<lparr>klog := L\<rparr>\<rparr>) c why)"
      "in_hand fd (s\<lparr>sdb := cdb x, kern := (kern s)\<lparr>klog := L\<rparr>\<rparr>) (c\<lparr>conn_parser := p, conn_in := b, conn_out := cout x\<rparr>)"
  | (answers) argv p b x where "parse (conn_parser c) (conn_in c) = (Complete argv, p, b)" "argv \<noteq> []"
      "x = dispatch (fresh_ctx argv (conn_out c) (sdb s))" "\<not> close_after_reply x"
      "readable (cout x) \<le> max_output_buffer (cfg s)"
      "input_loop s c = input_loop (s\<lparr>sdb := cdb x\<rparr>) (c\<lparr>conn_parser := p, conn_in := b, conn_out := cout x\<rparr>)"
      "in_hand fd (s\<lparr>sdb := cdb x\<rparr>) (c\<lparr>conn_parser := p, conn_in := b, conn_out := cout x\<rparr>)"
proof -
  obtain st p b where pr: "parse (conn_parser c) (conn_in c) = (st, p, b)" by (metis prod_cases3)
  note ph = parse_in_hand [OF assms pr] and h = in_hand_db [OF assms]
  note up = in_hand_update [OF assms ph(1) _ ph(2,3)]
  note eq = input_loop.simps [of s c, unfolded pr]
  have here: "in_hand fd s (c\<lparr>conn_parser := p, conn_in := b\<rparr>)" using up(1) [of "conn_out c" "sdb s"] h by simp
  show ?thesis
  proof (cases st)
    case Incomplete
    then show ?thesis using pr waits here eq by simp
  next
    case (ParseError e)
    have "in_hand fd s (c\<lparr>conn_parser := p, conn_in := b, conn_out := write_reply (conn_out c) (RError (''ERR '' @ e)), close_after_write := True\<rparr>)"
      using up(2) [OF buf_ok_write_reply, of "conn_out c" "sdb s" True "RError (''ERR '' @ e)"] h by simp
    then show ?thesis using pr ParseError breaks eq by simp
  next
    case (Complete argv)
    let ?x = "dispatch (fresh_ctx argv (conn_out c) (sdb s))"
    note d = dispatch_in_hand [OF assms ph(5) [OF Complete] refl]
    note pr' = pr [unfolded Complete] and eq' = eq [unfolded Complete]
    consider "argv = []" | "argv \<noteq> []" "close_after_reply ?x"
      | "argv \<noteq> []" "\<not> close_after_reply ?x" "readable (cout ?x) > max_output_buffer (cfg s)"
      | "argv \<noteq> []" "\<not> close_after_reply ?x" "readable (cout ?x) \<le> max_output_buffer (cfg s)" by linarith
    then show ?thesis
    proof cases
      case 1
      then show ?thesis using pr' here eq' by (intro skips) simp_all
    next
      case 2
      show ?thesis by (rule quits [OF pr' 2(1) refl 2(2) _ up(2) [OF d]]) (use 2 eq' in \<open>simp add: Let_def\<close>)
    next
      case 3
      let ?L = "log_warn (overflow_msg (conn_peer c) (readable (cout ?x)) (max_output_buffer (cfg s))) (klog (kern s))"
      have "in_hand fd (s\<lparr>sdb := cdb ?x, kern := (kern s)\<lparr>klog := ?L\<rparr>\<rparr>) (c\<lparr>conn_parser := p, conn_in := b, conn_out := cout ?x\<rparr>)"
        using up(1) [OF d] by (simp add: in_hand_def)
      then show ?thesis by (rule overflows [OF pr' 3(1) refl 3(2,3), rotated]) (use 3 eq' in \<open>simp add: Let_def\<close>)
    next
      case 4
      show ?thesis by (rule answers [OF pr' 4(1) refl 4(2,3) _ up(1) [OF d]]) (use 4 eq' in \<open>simp add: Let_def\<close>)
    qed
  qed
qed

lemma input_loop_left:
  "in_hand fd s c \<Longrightarrow> left_as fd s (input_loop s c) \<and> wire (kern (snd (input_loop s c))) = wire (kern s)"
proof (induction s c rule: input_loop.induct)
  case (1 s c)
  from "1.prems" show ?case
  proof (cases rule: input_loop_cases)
    case (skips p b)
    then show ?thesis using "1.IH"(1) [OF skips(1) [symmetric]] by simp
  next
    case (overflows argv p b x L why)
    let ?s1 = "s\<lparr>sdb := cdb x, kern := (kern s)\<lparr>klog := L\<rparr>\<rparr>"
    have fd: "conn_fd c = fd" using "1.prems" by (simp add: in_hand_def)
    show ?thesis
      using close_conn_left [OF overflows(7) fd] close_conn_facts(5) [of fd ?s1 c] overflows(6,7) fd by (simp add: in_hand_def)
  next
    case (answers argv p b x)
    obtain oc s' where r: "input_loop (s\<lparr>sdb := cdb x\<rparr>)
        (c\<lparr>conn_parser := p, conn_in := b, conn_out := cout x\<rparr>) = (oc, s')" by fastforce
    have "left_as fd (s\<lparr>sdb := cdb x\<rparr>) (oc, s') \<and> wire (kern s') = wire (kern s)"
      using "1.IH"(2) [OF answers(1) [symmetric] _ _ answers(2,3)] answers(4,5,7) r by simp
    then show ?thesis unfolding answers(6) r by (cases oc) simp_all
  qed simp_all
qed

text \<open>The error line that ends a stream whose framing is lost, unless the client has quit before.\<close>

definition last_words :: "bool \<Rightarrow> parse_status \<Rightarrow> bytes" where
  "last_words q st = (case st of ParseError e \<Rightarrow> if q then [] else raw_reply (RError (''ERR '' @ e)) | _ \<Rightarrow> [])"

lemma drain_parse:
  assumes "in_hand fd s c" "parse (conn_parser c) (conn_in c) = (st1, p, b)"
    "drain (conn_parser c) (buf_contents (conn_in c)) = (cmds, st, p', r')"
  shows "case st1 of
      Complete argv \<Rightarrow> \<exists>cs. cmds = argv # cs \<and> drain p (buf_contents b) = (cs, st, p', r')
    | _ \<Rightarrow> cmds = [] \<and> st = st1 \<and> p' = p \<and> r' = buf_contents b"
  using parse_in_hand(4) [OF assms(1,2)] assms(3)
  by (cases st1) (auto simp: drain.simps [of "conn_parser c"] split: prod.splits)

lemma input_loop_exec:
  "in_hand fd s c \<Longrightarrow> drain (conn_parser c) (buf_contents (conn_in c)) = (cmds, st, p', r') \<Longrightarrow>
   exec cmds (sdb s) = (bs, d', q) \<Longrightarrow> input_loop s c = (Some c', s') \<Longrightarrow>
   sdb s' = d' \<and> buf_contents (conn_out c') = buf_contents (conn_out c) @ bs @ last_words q st \<and>
   (close_after_write c' \<longleftrightarrow> close_after_write c \<or> q \<or> st \<noteq> Incomplete) \<and>
   (\<not> q \<longrightarrow> conn_parser c' = p' \<and> buf_contents (conn_in c') = r')"
proof (induction s c arbitrary: cmds bs rule: input_loop.induct)
  case (1 s c)
  note h = in_hand_db [OF "1.prems"(1)]
  from "1.prems"(1) show ?case
  proof (cases rule: input_loop_cases)
    case (waits p b)
    with drain_parse [OF "1.prems"(1) waits(1) "1.prems"(2)] "1.prems"(3,4) show ?thesis
      by (auto simp: last_words_def)
  next
    case (breaks e p b)
    with drain_parse [OF "1.prems"(1) breaks(1) "1.prems"(2)] "1.prems"(3,4) h show ?thesis
      using contents_write_reply_raw [of "conn_out c" "RError (''ERR '' @ e)"] by (auto simp: last_words_def)
  next
    case (skips p b)
    obtain cs where cs: "cmds = [] # cs" "drain p (buf_contents b) = (cs, st, p', r')"
      using drain_parse [OF "1.prems"(1) skips(1) "1.prems"(2)] by auto
    from "1.IH"(1) [OF skips(1) [symmetric] refl refl refl skips(3), of cs bs] show ?thesis
      using cs "1.prems"(3,4) skips(2) by simp
  next
    case (quits argv p b x)
    obtain cs where cs: "cmds = argv # cs"
      using drain_parse [OF "1.prems"(1) quits(1) "1.prems"(2)] by auto
    note o = dispatch_output [OF h [THEN conjunct2], of argv "sdb s", folded quits(3)]
    have "bs = buf_contents (cout (dispatch (fresh_ctx argv new_buffer (sdb s))))" "d' = cdb x" q
      using "1.prems"(3) cs quits(2,4) o by (auto simp: Let_def)
    then show ?thesis using quits(5) "1.prems"(4) o(2) by (auto simp: last_words_def split: parse_status.split)
  next
    case (overflows argv p b x)
    then show ?thesis using "1.prems"(4) by simp
  next
    case (answers argv p b x)
    note o = dispatch_output [OF h [THEN conjunct2], of argv "sdb s", folded answers(3)]
    obtain cs where cs: "cmds = argv # cs" "drain p (buf_contents b) = (cs, st, p', r')"
      using drain_parse [OF "1.prems"(1) answers(1) "1.prems"(2)] by auto
    obtain bs1 where e: "exec cs (cdb x) = (bs1, d', q)"
      "bs = buf_contents (cout (dispatch (fresh_ctx argv new_buffer (sdb s)))) @ bs1"
      using "1.prems"(3) cs(1) answers(2,4) o(3,4) by (auto simp: Let_def split: prod.splits)
    have rec: "input_loop (s\<lparr>sdb := cdb x\<rparr>) (c\<lparr>conn_parser := p, conn_in := b, conn_out := cout x\<rparr>) = (Some c', s')"
      using "1.prems"(4) answers(6) by simp
    show ?thesis
      using "1.IH"(2) [OF answers(1) [symmetric] _ _ answers(2,3) answers(4) _ answers(7), of cs bs1]
        answers(5) cs(2) e rec o(2) by simp
  qed
qed

end
