(* ===== verification/Session.thy ===== *)
theory Session
  imports Delivery
begin

text \<open>
  Whole events, and sequences of events. Every event keeps the server's invariant and touches no
  connection but its own; over a sequence of events the stream a client receives depends on the
  stream it sent and on nothing else.
\<close>

subsection \<open>The event of a connection\<close>

lemma process_input_left:
  assumes "in_hand fd s c" "process_input s c = (oc, s')"
  shows "left_as fd s (oc, s')" "oc = Some c' \<Longrightarrow> conn_here s' fd c'"
proof -
  obtain oc1 s1 where l: "input_loop s c = (oc1, s1)" by fastforce
  have i: "left_as fd s (oc1, s1)" using input_loop_left [OF assms(1)] l by simp
  have *: "left_as fd s (oc, s') \<and> (oc = Some c' \<longrightarrow> conn_here s' fd c')"
  proof (cases oc1)
    case None
    then show ?thesis using assms(2) l i by (simp add: process_input_def)
  next
    case (Some c1)
    then have f: "flush_output s1 c1 = (oc, s')" and h: "in_hand fd s1 c1" "conns s1 = conns s" "cfg s1 = cfg s"
      using assms(2) l i by (auto simp: process_input_def)
    note fl = flush_output_left [OF h(1) f]
    then show ?thesis using h(2,3) by (cases oc) auto
  qed
  then show "left_as fd s (oc, s')" "oc = Some c' \<Longrightarrow> conn_here s' fd c'" by auto
qed

lemma ensure_in_hand:
  assumes "in_hand fd s c" shows "in_hand fd s (c\<lparr>conn_in := ensure_writable (conn_in c) n\<rparr>)"
  using assms by (simp add: in_hand_def conn_mid_def)

lemma read_in_hand:
  assumes "in_hand fd s c" "b = ensure_writable (conn_in c) kReadChunk" "p = take kReadChunk bs"
  shows "in_hand fd s (c\<lparr>conn_in := commit (write_at b p) (length p)\<rparr>)"
    "buf_contents (commit (write_at b p) (length p)) = buf_contents (conn_in c) @ p"
proof -
  have i: "buf_ok (conn_in c)" using assms(1) by (simp add: in_hand_def conn_mid_def)
  have "length p \<le> writable b" using writable_ensure [OF i, of kReadChunk] by (simp add: assms(2,3))
  moreover have "buf_ok b" using i by (simp add: assms(2))
  ultimately have w: "buf_contents (commit (write_at b p) (length p)) = buf_contents b @ p"
    "buf_ok (commit (write_at b p) (length p))"
    using contents_write_commit by blast+
  then show "in_hand fd s (c\<lparr>conn_in := commit (write_at b p) (length p)\<rparr>)"
    using assms(1) by (simp add: in_hand_def conn_mid_def)
  show "buf_contents (commit (write_at b p) (length p)) = buf_contents (conn_in c) @ p"
    using w(1) i by (simp add: assms(2))
qed

lemma conn_here_in: "conn_here s fd c \<Longrightarrow> buf_ok b \<Longrightarrow> conn_here s fd (c\<lparr>conn_in := b\<rparr>)"
  by (auto simp: conn_here_def conn_ok_def conn_mid_def)

lemma handle_read_bytes:
  "handle_read s c (ReadBytes bs) =
     (if bs = [] then (None, close_conn s (c\<lparr>conn_in := ensure_writable (conn_in c) kReadChunk\<rparr>) ''client closed the connection'')
      else process_input s (c\<lparr>conn_in := commit
        (write_at (ensure_writable (conn_in c) kReadChunk) (take kReadChunk bs)) (length (take kReadChunk bs))\<rparr>))"
  by (simp add: handle_read_def Let_def kReadChunk_def)

lemma handle_read_left:
  assumes "in_hand fd s c" "conn_here s fd c" "handle_read s c r = (oc, s')"
  shows "left_as fd s (oc, s') \<and> (\<forall>c'. oc = Some c' \<longrightarrow> conn_here s' fd c')"
proof -
  let ?c = "c\<lparr>conn_in := ensure_writable (conn_in c) kReadChunk\<rparr>"
  have e: "in_hand fd s ?c" using ensure_in_hand [OF assms(1)] .
  have h: "conn_here s fd ?c" using assms(1,2) by (intro conn_here_in) (simp_all add: in_hand_def conn_mid_def)
  have fd: "conn_fd ?c = fd" using assms(1) by (simp add: in_hand_def)
  have cl: "left_as fd s (None, close_conn s ?c why)" for why using close_conn_left [OF e fd] .
  have "left_as fd s (None, close_conn (s\<lparr>kern := (kern s)\<lparr>errnos := E\<rparr>\<rparr>) ?c why)" for E why
    using close_conn_left [of fd "s\<lparr>kern := (kern s)\<lparr>errnos := E\<rparr>\<rparr>" ?c ?c why] e fd by simp
  note cle = this
  show ?thesis
  proof (cases r)
    case (ReadBytes bs)
    let ?p = "take kReadChunk bs"
    note rd = read_in_hand [OF assms(1) refl refl, of bs]
    let ?d = "c\<lparr>conn_in := commit (write_at (ensure_writable (conn_in c) kReadChunk) ?p) (length ?p)\<rparr>"
    show ?thesis
    proof (cases "bs = []")
      case True
      then show ?thesis using assms(3) ReadBytes cl by (auto simp: handle_read_bytes simp del: left_as.simps(1))
    next
      case False
      then have "process_input s ?d = (oc, s')" using assms(3) ReadBytes by (simp add: handle_read_bytes)
      then show ?thesis using process_input_left [OF rd(1)] by blast
    qed
  qed (use assms(3) e h cl cle in \<open>auto simp: handle_read_def Let_def simp del: left_as.simps(1)\<close>)
qed

lemma store_back:
  assumes "in_hand fd s c" "conn_here s fd c"
  shows "server_inv (s\<lparr>conns := (conns s)(fd \<mapsto> c)\<rparr>)"
  using assms by (auto simp: server_inv_def in_hand_def inv_defs)

text \<open>A connection that is at rest is never one that should have been closed.\<close>

lemma conn_here_not_closable: "conn_here s fd c \<Longrightarrow> \<not> (close_after_write c \<and> buf_empty (conn_out c))"
  by (auto simp: conn_here_def conn_ok_def)

lemma at_rest:
  assumes "server_inv s" "conns s fd = Some c"
  shows "in_hand fd s c" "conn_here s fd c"
proof -
  show "conn_here s fd c" using assms by (auto simp: server_inv_def inv_but_def)
  moreover have "inv_but {fd} s" using assms(1) by (auto simp: server_inv_def inv_but_def)
  moreover have "conn_fd c = fd" using assms by (auto simp: server_inv_def inv_defs)
  ultimately show "in_hand fd s c" using assms(2) by (auto simp: in_hand_def conn_here_def conn_ok_def)
qed

lemma on_conn_event_steps:
  assumes "server_inv s" "conns s fd = Some c"
    "(if rd then handle_read s c r else (Some c, s)) = (oc1, s1)"
  shows "left_as fd s (oc1, s1)" "oc1 = None \<Longrightarrow> on_conn_event s fd rd wr r = s1"
    "oc1 = Some c1 \<Longrightarrow> conn_here s1 fd c1"
    "oc1 = Some c1 \<Longrightarrow> (if wr \<and> \<not> buf_empty (conn_out c1) then flush_output s1 c1 else (Some c1, s1)) = (oc2, s2) \<Longrightarrow>
       left_as fd s (oc2, s2) \<and>
       on_conn_event s fd rd wr r = (case oc2 of None \<Rightarrow> s2 | Some c2 \<Rightarrow> s2\<lparr>conns := (conns s2)(fd \<mapsto> c2)\<rparr>) \<and>
       (\<forall>c2. oc2 = Some c2 \<longrightarrow> conn_here s2 fd c2)"
proof -
  note r = at_rest [OF assms(1,2)]
  have one: "left_as fd s (oc1, s1) \<and> (\<forall>c1. oc1 = Some c1 \<longrightarrow> conn_here s1 fd c1)"
    using handle_read_left [OF r, of _ oc1 s1] assms(3) r by (auto split: if_splits simp del: left_as.simps(1))
  then show "left_as fd s (oc1, s1)" "oc1 = Some c1 \<Longrightarrow> conn_here s1 fd c1" by auto
  show "oc1 = None \<Longrightarrow> on_conn_event s fd rd wr r = s1"
    using assms(2,3) by (simp add: on_conn_event_def)
  show "left_as fd s (oc2, s2) \<and>
       on_conn_event s fd rd wr r = (case oc2 of None \<Rightarrow> s2 | Some c2 \<Rightarrow> s2\<lparr>conns := (conns s2)(fd \<mapsto> c2)\<rparr>) \<and>
       (\<forall>c2. oc2 = Some c2 \<longrightarrow> conn_here s2 fd c2)"
    if c1: "oc1 = Some c1"
      and f: "(if wr \<and> \<not> buf_empty (conn_out c1) then flush_output s1 c1 else (Some c1, s1)) = (oc2, s2)"
  proof -
    have h1: "in_hand fd s1 c1" "conns s1 = conns s" "cfg s1 = cfg s" "conn_here s1 fd c1" using one c1 by auto
    have two: "left_as fd s1 (oc2, s2) \<and> (\<forall>c2. oc2 = Some c2 \<longrightarrow> conn_here s2 fd c2)"
      using flush_output_left(1,3) [OF h1(1), of oc2 s2] f h1 by (auto split: if_splits simp del: left_as.simps(1))
    then have "left_as fd s (oc2, s2)" using h1(2,3) by (cases oc2) auto
    moreover have "on_conn_event s fd rd wr r = (case oc2 of None \<Rightarrow> s2 | Some c2 \<Rightarrow> s2\<lparr>conns := (conns s2)(fd \<mapsto> c2)\<rparr>)"
      using assms(2,3) c1 f two conn_here_not_closable
      by (auto simp: on_conn_event_def Let_def split: option.split)
    ultimately show ?thesis using two by blast
  qed
qed

lemma on_conn_event_inv:
  assumes "server_inv s"
  shows "server_inv (on_conn_event s fd rd wr r)"
    "fd' \<noteq> fd \<Longrightarrow> conns (on_conn_event s fd rd wr r) fd' = conns s fd'"
    "conns s fd = None \<Longrightarrow> on_conn_event s fd rd wr r = s"
    "cfg (on_conn_event s fd rd wr r) = cfg s"
proof -
  show no: "conns s fd = None \<Longrightarrow> on_conn_event s fd rd wr r = s" by (simp add: on_conn_event_def)
  have "server_inv (on_conn_event s fd rd wr r) \<and> (fd' \<noteq> fd \<longrightarrow> conns (on_conn_event s fd rd wr r) fd' = conns s fd') \<and>
      cfg (on_conn_event s fd rd wr r) = cfg s"
  proof (cases "conns s fd")
    case None
    then show ?thesis using no assms by simp
  next
    case (Some c)
    obtain oc1 s1 where e1: "(if rd then handle_read s c r else (Some c, s)) = (oc1, s1)" by fastforce
    note st = on_conn_event_steps [OF assms Some e1]
    show ?thesis
    proof (cases oc1)
      case None
      then show ?thesis using st(1,2) by simp
    next
      case c1: (Some c1)
      obtain oc2 s2 where e2: "(if wr \<and> \<not> buf_empty (conn_out c1) then flush_output s1 c1 else (Some c1, s1)) = (oc2, s2)"
        by fastforce
      note s2 = st(4) [OF c1 e2]
      then show ?thesis using store_back [of fd s2] by (cases oc2) auto
    qed
  qed
  then show "server_inv (on_conn_event s fd rd wr r)"
    "fd' \<noteq> fd \<Longrightarrow> conns (on_conn_event s fd rd wr r) fd' = conns s fd'"
    "cfg (on_conn_event s fd rd wr r) = cfg s" by auto
qed

subsection \<open>The listener, the tick, the loop\<close>

lemma listener_frame [simp]:
  "conns (snd (reopen_spare_fd s)) = conns s" "conns (unregister fd s) = conns s"
  "conns (snd (register fd cb s)) = conns s" "conns (pause_listener s) = conns s"
  by (auto simp: reopen_spare_fd_def unregister_def register_def pause_listener_def split: prod.split)

lemma conns_reopen: "reopen_spare_fd s = (ok, s') \<Longrightarrow> conns s' = conns s"
  using listener_frame(1) [of s] by simp

lemma conns_shed [simp]: "conns (shed_connection s) = conns s"
proof (cases rule: shed_connection_cases [of s])
  case (spends r fd k L ok s3)
  then show ?thesis using conns_reopen [OF spends(3)] by simp
qed simp

lemma conns_add_connection: "fd' \<noteq> fd \<Longrightarrow> conns (add_connection s fd) fd' = conns s fd'"
proof (cases rule: add_connection_cases [of fd s])
  case (registers k peer ok s2)
  assume ne: "fd' \<noteq> fd"
  have "conns s2 = conns s" using listener_frame(3) [of fd ConnCb "s\<lparr>kern := k\<rparr>"] registers(3) by simp
  then show ?thesis using registers(4) ne by simp
qed simp

text \<open>Accepting never disturbs a connection that is already there.\<close>

lemma conns_accept_loop: "inv_but X s \<Longrightarrow> conns s fd = Some c \<Longrightarrow> conns (accept_loop n s) fd = Some c"
proof (induction n arbitrary: s)
  case (Suc n)
  obtain r nfd k where a: "sys_accept (kern s) = (r, nfd, k)" by (metis prod_cases3)
  note sa = sys_accept_inv [OF Suc.prems(1) a]
  have "conns (accept_loop n (add_connection (s\<lparr>kern := k\<rparr>) nfd)) fd = Some c" if "r = AcceptReady"
  proof (rule Suc.IH)
    have u: "conns s nfd = None" "nfd \<noteq> listen_fd s" "0 \<le> spare_fd s \<longrightarrow> spare_fd s \<noteq> nfd" "nfd |\<in>| open_fds k" "0 \<le> nfd"
      using sa(2,3) that by auto
    show "inv_but X (add_connection (s\<lparr>kern := k\<rparr>) nfd)"
      using sa(1) u by (intro add_connection_inv) auto
    have "fd \<noteq> nfd" using u(1) Suc.prems(2) by auto
    then show "conns (add_connection (s\<lparr>kern := k\<rparr>) nfd) fd = Some c"
      using Suc.prems(2) by (simp add: conns_add_connection)
  qed
  then show ?case
    using a Suc.IH [OF sa(1)] Suc.prems(2) by (cases r) (simp_all add: Let_def)
qed simp

lemma dispatch_event_inv:
  assumes "server_inv s"
  shows "server_inv (dispatch_event s (ev, r))"
    "fd \<noteq> ev_fd ev \<Longrightarrow> conns s fd = Some c \<Longrightarrow> conns (dispatch_event s (ev, r)) fd = Some c"
proof -
  have i: "inv_but {} s" using assms by (simp add: server_inv_def)
  show "server_inv (dispatch_event s (ev, r))"
    using assms i on_conn_event_inv(1) [OF assms] accept_loop_inv [OF i]
    by (auto simp: dispatch_event_def on_listener_readable_def server_inv_def split: option.split callback.split)
  show "conns (dispatch_event s (ev, r)) fd = Some c" if "fd \<noteq> ev_fd ev" "conns s fd = Some c"
    using that on_conn_event_inv(2) [OF assms that(1)] conns_accept_loop [OF i that(2)]
    by (auto simp: dispatch_event_def on_listener_readable_def split: option.split callback.split)
qed

lemma batch_inv: "server_inv s \<Longrightarrow> server_inv (foldl dispatch_event s evs)"
proof (induction evs arbitrary: s)
  case (Cons e evs)
  then show ?case using dispatch_event_inv(1) [of s "fst e" "snd e"] by simp
qed simp

lemma expire_cycle_db_ok:
  assumes "db_ok d" "active_expire_cycle lay n d = (r, d')" shows "db_ok d'"
proof (cases "n = 0")
  case True
  then show ?thesis using assms by (simp add: active_expire_cycle_def)
next
  case False
  then have e: "expire_rounds lay n kMaxRounds 0 d = (r, d')" using assms(2) by (simp add: active_expire_cycle_def)
  show ?thesis
    using assms(1) expire_rounds_inv [OF e] expire_rounds_only_removes [OF e] expire_rounds_clock [OF e]
    by (auto simp: db_ok_def clock_ok_def)
qed

lemma loop_body_inv:
  assumes "server_inv s" shows "server_inv (loop_body lay evs shutdown s)"
proof (cases evs)
  case None
  then show ?thesis using assms by (auto simp: loop_body_def server_inv_def inv_defs loop_synced_def)
next
  case (Some es)
  let ?s1 = "foldl dispatch_event s es"
  have i: "server_inv ?s1" using assms by (rule batch_inv)
  obtain r d where e: "active_expire_cycle lay (active_expire_samples (cfg ?s1)) (sdb ?s1) = (r, d)" by fastforce
  have "db_ok (sdb ?s1)" using i by (simp add: server_inv_def inv_defs)
  then have "db_ok d" using e by (rule expire_cycle_db_ok)
  then show ?thesis
    using Some i e
    by (auto simp: loop_body_def on_tick_def loop_stop_def Let_def server_inv_def inv_defs loop_synced_def)
qed

subsection \<open>Reachable servers\<close>

text \<open>The states the loop of \<^verbatim>\<open>EventLoop::run\<close> passes through: it goes round while \<open>running\<close> is set.\<close>

definition begin_run :: "server \<Rightarrow> server" where
  "begin_run s = s\<lparr>sloop := (sloop s)\<lparr>running := True\<rparr>\<rparr>"

inductive reachable :: "(nat \<Rightarrow> key fset \<Rightarrow> key list list) \<Rightarrow> server \<Rightarrow> server \<Rightarrow> bool"
  for lay :: "nat \<Rightarrow> key fset \<Rightarrow> key list list" and s0 :: server where
  reach_start: "reachable lay s0 (begin_run s0)"
| reach_turn: "reachable lay s0 s \<Longrightarrow> running (sloop s) \<Longrightarrow> reachable lay s0 (loop_body lay evs shutdown s)"
| reach_kernel: "reachable lay s0 s \<Longrightarrow> kernel_ok k \<Longrightarrow> fd_state k = fd_state (kern s) \<Longrightarrow>
    interest k = interest (kern s) \<Longrightarrow> mod_refused k = mod_refused (kern s) \<Longrightarrow> wire k = wire (kern s) \<Longrightarrow>
    klog k = klog (kern s) \<Longrightarrow> reachable lay s0 (s\<lparr>kern := k\<rparr>)"

lemma begin_run_inv: "server_inv s \<Longrightarrow> server_inv (begin_run s)"
  by (simp add: begin_run_def server_inv_def inv_defs loop_synced_def)

lemma kernel_change_inv:
  "server_inv s \<Longrightarrow> kernel_ok k \<Longrightarrow> open_fds k = open_fds (kern s) \<Longrightarrow> interest k = interest (kern s) \<Longrightarrow>
     mod_refused k = mod_refused (kern s) \<Longrightarrow> server_inv (s\<lparr>kern := k\<rparr>)"
  by (simp add: server_inv_def inv_defs loop_synced_def)

lemma reachable_inv: "reachable lay s0 s \<Longrightarrow> server_inv s0 \<Longrightarrow> server_inv s"
proof (induction rule: reachable.induct)
  case (reach_kernel s k)
  then show ?case by (simp add: kernel_change_inv fd_state_def)
qed (simp_all add: begin_run_inv loop_body_inv)

lemma poller_create_facts:
  assumes "kernel_ok k" "poller_create k = (pfd, k')"
  shows "kernel_ok k'" "interest k' = interest k" "plat k' = plat k"
    "status_flags k' = status_flags k"
    "open_fds k' = (if 0 \<le> pfd then finsert pfd (open_fds k) else open_fds k)" "0 \<le> pfd \<Longrightarrow> pfd |\<notin>| open_fds k"
proof -
  have fresh: "0 \<le> alloc k (open_fds k)" "alloc k (open_fds k) |\<notin>| open_fds k" using assms(1) by (simp_all add: kernel_ok_def)
  show "kernel_ok k'"
    using assms
    by (cases "poll_backend (plat k)"; cases "calls k 0 = 0"; cases "calls k 1 = 0")
       (simp_all add: poller_create_defs sys_call_def kernel_ok_def Let_def, auto)
  show "interest k' = interest k" "plat k' = plat k" "status_flags k' = status_flags k"
    "open_fds k' = (if 0 \<le> pfd then finsert pfd (open_fds k) else open_fds k)" "0 \<le> pfd \<Longrightarrow> pfd |\<notin>| open_fds k"
    using assms(2) fresh by (cases "poll_backend (plat k)"; auto simp: poller_create_defs sys_call_def Let_def split: if_splits)+
qed

lemma bound_port_quiet: "\<exists>k. quiet (listen_fd s) (kern s) k \<and> snd (bound_port s) = s\<lparr>kern := k\<rparr>"
proof (cases "listen_fd s < 0")
  case True
  then have "snd (bound_port s) = s\<lparr>kern := kern s\<rparr>" by (simp add: bound_port_def)
  then show ?thesis using quiet_refl by blast
next
  case False
  then show ?thesis using local_port_quiet by (auto simp: bound_port_def case_prod_beta)
qed

lemma start_succeeds:
  assumes "start s = (None, s')"
  obtains lfd k1 ok s1 E L s2 L' where
    "listen_on (bind_addr (cfg s)) (word_of_nat (port (cfg s))) (backlog (cfg s)) (kern s) = (Inr lfd, k1)"
    "reopen_spare_fd (s\<lparr>kern := k1, listen_fd := lfd\<rparr>) = (ok, s1)"
    "register lfd ListenerCb (s1\<lparr>kern := (kern s1)\<lparr>errnos := E, klog := L\<rparr>,
       sloop := (sloop s1)\<lparr>tick_interval := tick_interval_ms (cfg s1)\<rparr>\<rparr>) = (True, s2)"
    "s' = (snd (bound_port s2))\<lparr>kern := (kern (snd (bound_port s2)))\<lparr>klog := L'\<rparr>\<rparr>" "loop_valid (sloop s)"
proof -
  have v: "loop_valid (sloop s)" using assms by (auto simp: start_def split: if_splits)
  obtain r k1 where l: "listen_on (bind_addr (cfg s)) (word_of_nat (port (cfg s))) (backlog (cfg s)) (kern s) = (r, k1)" by fastforce
  then obtain lfd where r: "r = Inr lfd" using v assms by (cases r) (auto simp: start_def Let_def)
  obtain ok s1 where ro: "reopen_spare_fd (s\<lparr>kern := k1, listen_fd := lfd\<rparr>) = (ok, s1)" by fastforce
  let ?E = "if ok then errnos (kern s1) else (\<lambda>i. errnos (kern s1) (Suc i))"
  let ?L = "if ok then klog (kern s1) else log_warn (no_spare_msg (strerror (plat (kern s1)) (errnos (kern s1) 0))) (klog (kern s1))"
  obtain ok2 s2 where g: "register lfd ListenerCb (s1\<lparr>kern := (kern s1)\<lparr>errnos := ?E, klog := ?L\<rparr>,
      sloop := (sloop s1)\<lparr>tick_interval := tick_interval_ms (cfg s1)\<rparr>\<rparr>) = (ok2, s2)" by fastforce
  then obtain L' where "ok2" "s' = (snd (bound_port s2))\<lparr>kern := (kern (snd (bound_port s2)))\<lparr>klog := L'\<rparr>\<rparr>"
    using assms v l r ro
    by (auto simp: start_def Let_def case_prod_beta split: if_splits)
  then show thesis using that [of lfd k1 ok s1 ?L ?E s2 L'] l r ro g v by simp
qed

text \<open>A successful start establishes the invariant.\<close>

lemma start_inv:
  assumes "kernel_ok k" "db_ok d" "interest k = Map.empty" "start (new_server cf d k) = (None, s)"
  shows "server_inv s"
proof -
  obtain pfd k0 where pc: "poller_create k = (pfd, k0)" by fastforce
  note p = poller_create_facts [OF assms(1) pc]
  let ?n = "new_server cf d k"
  have n: "kern ?n = k0" "sloop ?n = new_loop pfd" "sdb ?n = d" "conns ?n = Map.empty" "\<not> listener_paused ?n" "spare_fd ?n = - 1"
    using pc by (simp_all add: new_server_def)
  from assms(4) show ?thesis
  proof (cases rule: start_succeeds)
    case (1 lfd k1 ok s1 E L s2 L')
    have lo: "opened lfd k0 k1" using listen_on_succeeds(1) 1(1) p(1) n(1) by metis
    let ?s0 = "?n\<lparr>kern := k1, listen_fd := lfd\<rparr>" let ?s1 = "s1\<lparr>kern := (kern s1)\<lparr>errnos := E, klog := L\<rparr>, sloop := (sloop s1)\<lparr>tick_interval := tick_interval_ms (cfg s1)\<rparr>\<rparr>"
    have k1: "kernel_ok (kern ?s0)" using lo p(1) by (simp add: opened_def quiet_def kernel_ok_def)
    note f = reopen_spare_fd_facts [OF k1 1(2)]
    have i1: "interest k1 = Map.empty" "lfd |\<in>| open_fds k1" using lo p(2) assms(3) by (simp_all add: opened_def quiet_def)
    have sy: "loop_synced (sloop ?s1) (kern ?s1)"
      using f(2,4) i1 n(2) by (simp add: loop_synced_def new_loop_def)
    note h = register_facts [OF sy 1(3)]
    have sp: "0 \<le> spare_fd s1 \<longrightarrow> spare_fd s1 |\<in>| open_fds (kern s1) \<and> spare_fd s1 \<noteq> lfd"
      using f(8) i1(2) n(6) by auto
    have "inv_but {} s2"
      using h f(1-6) sp assms(2) i1 n by (auto simp: inv_defs same_conns_def new_loop_def)
    moreover obtain k3 where "quiet (listen_fd s2) (kern s2) k3" "snd (bound_port s2) = s2\<lparr>kern := k3\<rparr>" using bound_port_quiet by metis
    ultimately show ?thesis using quiet_inv 1(4) by (simp add: server_inv_def)
  qed
qed

subsection \<open>The stream of one client\<close>

text \<open>
  \<open>same_stream\<close>: between two states of a connection nothing but the pace of delivery has changed.
\<close>

definition same_stream :: "int \<Rightarrow> server \<Rightarrow> conn \<Rightarrow> server \<Rightarrow> conn \<Rightarrow> bool" where
  "same_stream fd s c s' c' \<longleftrightarrow> sdb s' = sdb s \<and> close_after_write c' = close_after_write c \<and>
     conn_parser c' = conn_parser c \<and> buf_contents (conn_in c') = buf_contents (conn_in c) \<and>
     wire (kern s') fd @ buf_contents (conn_out c') = wire (kern s) fd @ buf_contents (conn_out c)"

lemma flush_same_stream:
  "in_hand fd s c \<Longrightarrow> flush_output s c = (Some c', s') \<Longrightarrow> same_stream fd s c s' c'"
  using flush_output_left(2,3) [of fd s c "Some c'" s'] by (auto simp: same_stream_def)

lemma later_flush:
  assumes "server_inv s" "conns s fd = Some c" "(if rd then handle_read s c r else (Some c, s)) = (oc1, s1)"
    "conns (on_conn_event s fd rd wr r) fd = Some c'"
  obtains c1 where "oc1 = Some c1" "same_stream fd s1 c1 (on_conn_event s fd rd wr r) c'"
proof -
  note st = on_conn_event_steps [OF assms(1-3)]
  obtain c1 where c1: "oc1 = Some c1"
    using st(1,2) assms(4) by (cases oc1) auto
  obtain oc2 s2 where e2: "(if wr \<and> \<not> buf_empty (conn_out c1) then flush_output s1 c1 else (Some c1, s1)) = (oc2, s2)"
    by fastforce
  note s2 = st(4) [OF c1 e2]
  obtain c2 where c2: "oc2 = Some c2" using s2 assms(4) by (cases oc2) auto
  then have eq: "on_conn_event s fd rd wr r = s2\<lparr>conns := (conns s2)(fd \<mapsto> c2)\<rparr>" using s2 by simp
  then have "c' = c2" using assms(4) by simp
  moreover have "in_hand fd s1 c1" using st(1) c1 by simp
  ultimately have "same_stream fd s1 c1 (on_conn_event s fd rd wr r) c'"
    using e2 c2 eq flush_same_stream [of fd s1 c1 c2 s2] by (auto simp: same_stream_def split: if_splits)
  then show ?thesis using c1 that by blast
qed

lemma chunk_event:
  assumes "server_inv s" "conns s fd = Some c" "bs \<noteq> []" "length bs \<le> kReadChunk"
    "s' = on_conn_event s fd True wr (ReadBytes bs)" "conns s' fd = Some c'"
    "drain (conn_parser c) (buf_contents (conn_in c) @ bs) = (cmds, st, p', r')" "exec cmds (sdb s) = (out, d', q)"
  shows "sdb s' = d'" "close_after_write c' \<longleftrightarrow> close_after_write c \<or> q \<or> st \<noteq> Incomplete"
    "wire (kern s') fd @ buf_contents (conn_out c') =
       wire (kern s) fd @ buf_contents (conn_out c) @ out @ last_words q st"
    "\<not> q \<Longrightarrow> conn_parser c' = p' \<and> buf_contents (conn_in c') = r'"
proof -
  obtain oc1 s1 where e1: "handle_read s c (ReadBytes bs) = (oc1, s1)" by fastforce
  then have e1': "(if True then handle_read s c (ReadBytes bs) else (Some c, s)) = (oc1, s1)" by simp
  obtain c1 where c1: "oc1 = Some c1" and ss: "same_stream fd s1 c1 s' c'"
    using later_flush [OF assms(1,2) e1'] assms(5,6) by blast
  define b where "b = commit (write_at (ensure_writable (conn_in c) kReadChunk) bs) (length bs)"
  note rd = read_in_hand [OF at_rest(1) [OF assms(1,2)] refl refl, of bs]
  have ih: "in_hand fd s (c\<lparr>conn_in := b\<rparr>)" and cb: "buf_contents b = buf_contents (conn_in c) @ bs"
    using rd assms(4) by (simp_all add: b_def)
  have pi: "process_input s (c\<lparr>conn_in := b\<rparr>) = (Some c1, s1)"
    using e1 c1 assms(3,4) by (simp add: handle_read_bytes b_def)
  obtain oci si where il: "input_loop s (c\<lparr>conn_in := b\<rparr>) = (oci, si)" by fastforce
  obtain ci where ci: "oci = Some ci" and fl: "flush_output si ci = (Some c1, s1)"
    using pi il by (cases oci) (auto simp: process_input_def)
  have lf: "in_hand fd si ci" "wire (kern si) = wire (kern s)"
    using input_loop_left [OF ih] il ci by auto
  have ex: "sdb si = d'" "buf_contents (conn_out ci) = buf_contents (conn_out c) @ out @ last_words q st"
    "close_after_write ci \<longleftrightarrow> close_after_write c \<or> q \<or> st \<noteq> Incomplete"
    "\<not> q \<longrightarrow> conn_parser ci = p' \<and> buf_contents (conn_in ci) = r'"
    using input_loop_exec [OF ih, of cmds st p' r' out d' q ci si] assms(7,8) cb il ci by simp_all
  have "same_stream fd si ci s' c'"
    using flush_same_stream [OF lf(1) fl] ss by (simp add: same_stream_def)
  then show "sdb s' = d'" "close_after_write c' \<longleftrightarrow> close_after_write c \<or> q \<or> st \<noteq> Incomplete"
    "wire (kern s') fd @ buf_contents (conn_out c') =
       wire (kern s) fd @ buf_contents (conn_out c) @ out @ last_words q st"
    "\<not> q \<Longrightarrow> conn_parser c' = p' \<and> buf_contents (conn_in c') = r'"
    using ex lf(2) by (simp_all add: same_stream_def)
qed

text \<open>
  A run of one client's events. Before each the script of the sends may be anything, so the socket
  may take the output in any portions; a chunk may come with a writable report or without, and
  writable reports may come on their own.
\<close>

datatype client_event = Chunk bytes bool "send_outcome list" | Drains "send_outcome list"

definition set_sends :: "send_outcome list \<Rightarrow> server \<Rightarrow> server" where
  "set_sends os s = s\<lparr>kern := (kern s)\<lparr>sends := os\<rparr>\<rparr>"

fun client_step :: "int \<Rightarrow> server \<Rightarrow> client_event \<Rightarrow> server" where
  "client_step fd s (Chunk bs wr os) = on_conn_event (set_sends os s) fd True wr (ReadBytes bs)"
| "client_step fd s (Drains os) = on_conn_event (set_sends os s) fd False True ReadAgain"

fun chunk_of :: "client_event \<Rightarrow> bytes" where
  "chunk_of (Chunk bs wr os) = bs"
| "chunk_of (Drains os) = []"

fun event_ok :: "client_event \<Rightarrow> bool" where
  "event_ok (Chunk bs wr os) \<longleftrightarrow> bs \<noteq> [] \<and> length bs \<le> kReadChunk"
| "event_ok (Drains os) \<longleftrightarrow> True"

lemma set_sends_inv: "server_inv s \<Longrightarrow> server_inv (set_sends os s)"
  using kernel_change_inv [of s "(kern s)\<lparr>sends := os\<rparr>"]
  by (auto simp: set_sends_def) (simp add: server_inv_def inv_defs kernel_ok_def)

lemma set_sends_fields [simp]:
  "conns (set_sends os s) = conns s" "sdb (set_sends os s) = sdb s" "wire (kern (set_sends os s)) = wire (kern s)"
  by (simp_all add: set_sends_def)

lemma client_step_inv: "server_inv s \<Longrightarrow> server_inv (client_step fd s e)"
  by (cases e) (simp_all add: on_conn_event_inv set_sends_inv)

lemma client_step_None: "server_inv s \<Longrightarrow> conns s fd = None \<Longrightarrow> conns (client_step fd s e) fd = None"
  using on_conn_event_inv(3) [OF set_sends_inv] by (cases e) simp_all

lemma drains_same_stream:
  assumes "server_inv s" "conns s fd = Some c" "s' = client_step fd s (Drains os)" "conns s' fd = Some c'"
  shows "same_stream fd s c s' c'"
proof -
  have e: "(if False then handle_read (set_sends os s) c ReadAgain else (Some c, set_sends os s)) = (Some c, set_sends os s)"
    by simp
  have "same_stream fd (set_sends os s) c s' c'"
    using later_flush [OF set_sends_inv [OF assms(1)] _ e, of fd True c'] assms(2,3,4) by auto
  then show ?thesis by (simp add: same_stream_def)
qed

lemma client_steps_inv: "server_inv s \<Longrightarrow> server_inv (foldl (client_step fd) s evs)"
  by (induction evs arbitrary: s) (simp_all add: client_step_inv)

lemma client_steps_None: "server_inv s \<Longrightarrow> conns s fd = None \<Longrightarrow> conns (foldl (client_step fd) s evs) fd = None"
  by (induction evs arbitrary: s) (simp_all add: client_step_None client_step_inv)

text \<open>One step of a client: what is parsed, what is executed, what is delivered.\<close>

lemma client_step_stream:
  assumes "server_inv s" "conns s fd = Some c" "event_ok e" "s' = client_step fd s e" "conns s' fd = Some c'"
  shows "close_after_write c \<Longrightarrow> close_after_write c'"
    "\<not> close_after_write c' \<Longrightarrow>
     drain (conn_parser c) (buf_contents (conn_in c)) = ([], Incomplete, conn_parser c, buf_contents (conn_in c)) \<Longrightarrow>
     \<exists>cmds out.
       drain (conn_parser c) (buf_contents (conn_in c) @ chunk_of e) =
         (cmds, Incomplete, conn_parser c', buf_contents (conn_in c')) \<and>
       exec cmds (sdb s) = (out, sdb s', False) \<and>
       wire (kern s') fd @ buf_contents (conn_out c') = wire (kern s) fd @ buf_contents (conn_out c) @ out"
proof -
  have "(close_after_write c \<longrightarrow> close_after_write c') \<and> (\<not> close_after_write c' \<longrightarrow>
     drain (conn_parser c) (buf_contents (conn_in c)) = ([], Incomplete, conn_parser c, buf_contents (conn_in c)) \<longrightarrow>
     (\<exists>cmds out.
       drain (conn_parser c) (buf_contents (conn_in c) @ chunk_of e) =
         (cmds, Incomplete, conn_parser c', buf_contents (conn_in c')) \<and>
       exec cmds (sdb s) = (out, sdb s', False) \<and>
       wire (kern s') fd @ buf_contents (conn_out c') = wire (kern s) fd @ buf_contents (conn_out c) @ out))"
  proof (cases e)
    case (Drains os)
    then have ss: "same_stream fd s c s' c'" using drains_same_stream [OF assms(1,2)] assms(4,5) by blast
    then show ?thesis using Drains by (auto simp: same_stream_def)
  next
    case (Chunk bs wr os)
    obtain cmds st p' r' where d: "drain (conn_parser c) (buf_contents (conn_in c) @ bs) = (cmds, st, p', r')"
      by (metis prod_cases4)
    obtain out d' q where x: "exec cmds (sdb s) = (out, d', q)" by (metis prod_cases3)
    have b: "bs \<noteq> []" "length bs \<le> kReadChunk" "s' = on_conn_event (set_sends os s) fd True wr (ReadBytes bs)"
      using assms(3,4) Chunk by auto
    have x': "exec cmds (sdb (set_sends os s)) = (out, d', q)" and c: "conns (set_sends os s) fd = Some c"
      using x assms(2) by simp_all
    note cf = chunk_event [OF set_sends_inv [OF assms(1)] c b assms(5) d x']
    show ?thesis using cf d x Chunk by (auto simp: last_words_def)
  qed
  then show "close_after_write c \<Longrightarrow> close_after_write c'"
    "\<not> close_after_write c' \<Longrightarrow>
     drain (conn_parser c) (buf_contents (conn_in c)) = ([], Incomplete, conn_parser c, buf_contents (conn_in c)) \<Longrightarrow>
     \<exists>cmds out.
       drain (conn_parser c) (buf_contents (conn_in c) @ chunk_of e) =
         (cmds, Incomplete, conn_parser c', buf_contents (conn_in c')) \<and>
       exec cmds (sdb s) = (out, sdb s', False) \<and>
       wire (kern s') fd @ buf_contents (conn_out c') = wire (kern s) fd @ buf_contents (conn_out c) @ out"
    by blast+
qed

lemma client_session:
  assumes "server_inv s" "conns s fd = Some c" "\<forall>e \<in> set evs. event_ok e"
    "s' = foldl (client_step fd) s evs" "conns s' fd = Some c'"
    "drain (conn_parser c) (buf_contents (conn_in c)) = ([], Incomplete, conn_parser c, buf_contents (conn_in c))"
    "\<not> close_after_write c'"
  shows "\<exists>cmds out.
     drain (conn_parser c) (buf_contents (conn_in c) @ concat (map chunk_of evs)) =
       (cmds, Incomplete, conn_parser c', buf_contents (conn_in c')) \<and>
     exec cmds (sdb s) = (out, sdb s', False) \<and>
     wire (kern s') fd @ buf_contents (conn_out c') = wire (kern s) fd @ buf_contents (conn_out c) @ out"
  using assms
proof (induction evs arbitrary: s' c' rule: rev_induct)
  case Nil
  then show ?case by auto
next
  case (snoc e evs)
  let ?s1 = "foldl (client_step fd) s evs"
  have i1: "server_inv ?s1" using snoc.prems(1) by (rule client_steps_inv)
  have s': "s' = client_step fd ?s1 e" using snoc.prems(4) by simp
  obtain c1 where c1: "conns ?s1 fd = Some c1"
    using client_step_None [OF i1, of fd e] snoc.prems(5) s' by (cases "conns ?s1 fd") auto
  have e: "event_ok e" using snoc.prems(3) by simp
  note step = client_step_stream [OF i1 c1 e s' snoc.prems(5)]
  have "\<not> close_after_write c1" using step(1) snoc.prems(7) by blast
  then obtain cmds1 out1 where one:
    "drain (conn_parser c) (buf_contents (conn_in c) @ concat (map chunk_of evs)) =
       (cmds1, Incomplete, conn_parser c1, buf_contents (conn_in c1))"
    "exec cmds1 (sdb s) = (out1, sdb ?s1, False)"
    "wire (kern ?s1) fd @ buf_contents (conn_out c1) = wire (kern s) fd @ buf_contents (conn_out c) @ out1"
    using snoc.IH [OF snoc.prems(1,2) _ refl c1 snoc.prems(6)] snoc.prems(3) by auto
  obtain cmds2 out2 where two:
    "drain (conn_parser c1) (buf_contents (conn_in c1) @ chunk_of e) =
       (cmds2, Incomplete, conn_parser c', buf_contents (conn_in c'))"
    "exec cmds2 (sdb ?s1) = (out2, sdb s', False)"
    "wire (kern s') fd @ buf_contents (conn_out c') = wire (kern ?s1) fd @ buf_contents (conn_out c1) @ out2"
    using step(2) [OF snoc.prems(7) drain_idem [OF one(1)]] by blast
  have "drain (conn_parser c) (buf_contents (conn_in c) @ concat (map chunk_of (evs @ [e]))) =
      (cmds1 @ cmds2, Incomplete, conn_parser c', buf_contents (conn_in c'))"
    using drain_append [OF one(1), of "chunk_of e"] two(1) by simp
  moreover have "exec (cmds1 @ cmds2) (sdb s) = (out1 @ out2, sdb s', False)"
    using exec_append [OF one(2)] two(2) by simp
  moreover have "wire (kern s') fd @ buf_contents (conn_out c') =
      wire (kern s) fd @ buf_contents (conn_out c) @ out1 @ out2"
    using one(3) two(3) by (metis append_assoc)
  ultimately show ?case by blast
qed

end
