(* ===== verification/Descriptors.thy ===== *)
theory Descriptors
  imports Session
begin

text \<open>
  What happens to descriptors over the life of the process: which are open, who owns each, and
  that none of the sockets can block the loop. The invariant \<open>descr_ok\<close> is kept by every handler;
  it says that the open descriptors are those the process was started with and those the server
  holds, with no overlap, so that the destructor gives back exactly what was taken.
\<close>

subsection \<open>The invariant\<close>

definition held :: "server \<Rightarrow> int set" where
  "held s = {listen_fd s, poller_fd (sloop s)} \<union> dom (conns s) \<union> {fd. fd = spare_fd s \<and> 0 \<le> fd}"

text \<open>The roles are taken by different descriptors.\<close>

definition roles_ok :: "server \<Rightarrow> bool" where
  "roles_ok s \<longleftrightarrow> 0 \<le> listen_fd s \<and> 0 \<le> poller_fd (sloop s) \<and> poller_fd (sloop s) \<noteq> listen_fd s \<and>
     conns s (listen_fd s) = None \<and> conns s (poller_fd (sloop s)) = None \<and>
     (0 \<le> spare_fd s \<longrightarrow> spare_fd s \<noteq> listen_fd s \<and> spare_fd s \<noteq> poller_fd (sloop s) \<and> conns s (spare_fd s) = None) \<and>
     (\<forall>fd c. conns s fd = Some c \<longrightarrow> conn_fd c = fd)"

definition descr_ok :: "int set \<Rightarrow> server \<Rightarrow> bool" where
  "descr_ok I s \<longleftrightarrow> kernel_ok (kern s) \<and> roles_ok s \<and>
     fset (open_fds (kern s)) = I \<union> held s \<and> I \<inter> held s = {} \<and>
     nonblocking (kern s) (listen_fd s) \<and> (\<forall>fd \<in> dom (conns s). nonblocking (kern s) fd)"

text \<open>Most of what a handler does leaves the descriptors alone.\<close>

definition steady :: "server \<Rightarrow> server \<Rightarrow> bool" where
  "steady s s' \<longleftrightarrow> conns s' = conns s \<and> listen_fd s' = listen_fd s \<and> spare_fd s' = spare_fd s \<and>
     poller_fd (sloop s') = poller_fd (sloop s) \<and> running (sloop s') = running (sloop s) \<and>
     tick_interval (sloop s') = tick_interval (sloop s) \<and> fd_state (kern s') = fd_state (kern s) \<and>
     (kernel_ok (kern s) \<longrightarrow> kernel_ok (kern s'))"

lemma steady_refl [simp]: "steady s s"
  by (simp add: steady_def)

lemma steady_trans: "steady s s' \<Longrightarrow> steady s' s'' \<Longrightarrow> steady s s''"
  by (simp add: steady_def)

lemma steady_descr: "descr_ok I s \<Longrightarrow> steady s s' \<Longrightarrow> descr_ok I s'"
  by (simp add: descr_ok_def roles_ok_def held_def steady_def fd_state_def nonblocking_def)

lemma steady_updates [simp]:
  "steady s (s\<lparr>sdb := d\<rparr>)" "steady s (s\<lparr>sloop := (sloop s)\<lparr>retired := rs\<rparr>\<rparr>)"
  "steady s (s\<lparr>listener_paused := b\<rparr>)"
  by (simp_all add: steady_def)

lemma log_frame [simp]:
  "steady s (s'\<lparr>kern := k\<lparr>klog := L\<rparr>\<rparr>) = steady s (s'\<lparr>kern := k\<rparr>)" "steady s (s'\<lparr>kern := k\<lparr>errnos := E\<rparr>\<rparr>) = steady s (s'\<lparr>kern := k\<rparr>)"
  "descr_ok I (s\<lparr>kern := k\<lparr>klog := L\<rparr>\<rparr>) = descr_ok I (s\<lparr>kern := k\<rparr>)" "descr_ok I (s\<lparr>kern := k\<lparr>errnos := E\<rparr>\<rparr>) = descr_ok I (s\<lparr>kern := k\<rparr>)"
  by (simp_all add: steady_def fd_state_def descr_ok_def roles_ok_def held_def)

lemma running_descr [simp]:
  "descr_ok I (s\<lparr>sloop := (sloop s)\<lparr>running := r\<rparr>\<rparr>) = descr_ok I s"
  "descr_ok I (s\<lparr>sloop := (sloop s)\<lparr>tick_interval := n\<rparr>\<rparr>) = descr_ok I s"
  by (simp_all add: descr_ok_def roles_ok_def held_def)

lemma steady_registration:
  "steady s (snd (register fd cb s))" "steady s (unregister fd s)" "steady s (arm_write fd w s)"
  using kernel_ok_calls(4) [of "kern s" fd False cb "sloop s"] kernel_ok_calls(6) [of "kern s" fd "sloop s"]
  by (simp_all add: steady_def register_def unregister_def arm_write_def case_prod_beta)

lemma steady_registers: "register fd cb s = (ok, s') \<Longrightarrow> steady s s'"
  using steady_registration(1) [of s fd cb] by simp

subsection \<open>Taking and giving back descriptors\<close>

text \<open>A descriptor from the system is neither one of the server's nor one of the others.\<close>

lemma fresh_descr:
  assumes "descr_ok I s" "fd = alloc (kern s) (open_fds (kern s))"
  shows "0 \<le> fd" "fd \<notin> I" "fd \<notin> held s"
proof -
  have "kernel_ok (kern s)" "fset (open_fds (kern s)) = I \<union> held s" using assms(1) by (simp_all add: descr_ok_def)
  moreover from this(1) have "0 \<le> fd" "fd \<notin> fset (open_fds (kern s))" using assms(2) by (simp_all add: kernel_ok_def)
  ultimately show "0 \<le> fd" "fd \<notin> I" "fd \<notin> held s" by auto
qed

text \<open>A call that leaves the server's own descriptors alone.\<close>

lemma kern_descr:
  assumes "descr_ok I s" "kernel_ok k" "fset (open_fds k) = J \<union> held s" "J \<inter> held s = {}" "plat k = plat (kern s)"
    "\<And>fd. fd \<in> held s \<Longrightarrow> status_flags k fd = status_flags (kern s) fd"
  shows "descr_ok J (s\<lparr>kern := k\<rparr>)"
proof -
  have h: "held (s\<lparr>kern := k\<rparr>) = held s" "roles_ok (s\<lparr>kern := k\<rparr>) = roles_ok s" by (simp_all add: held_def roles_ok_def)
  have "listen_fd s \<in> held s" "dom (conns s) \<subseteq> held s" by (auto simp: held_def)
  moreover have "nonblocking k fd = nonblocking (kern s) fd" if "fd \<in> held s" for fd
    using assms(5) assms(6) [OF that] by (simp add: nonblocking_def)
  ultimately have "nonblocking k (listen_fd s)" "\<forall>fd \<in> dom (conns s). nonblocking k fd"
    using assms(1) unfolding descr_ok_def by blast+
  then show ?thesis using assms(1-4) h by (simp add: descr_ok_def)
qed

lemma reopen_spare_descr:
  assumes "descr_ok I s" "reopen_spare_fd s = (ok, s')"
  shows "descr_ok I s'"
proof -
  let ?fd = "alloc (kern s) (open_fds (kern s))" let ?k = "(kern s)\<lparr>opens := (\<lambda>i. opens (kern s) (Suc i))\<rparr>"
  note fresh = fresh_descr [OF assms(1) refl]
  have d: "descr_ok I (s\<lparr>kern := ?k\<rparr>)"
    using assms(1) by (intro kern_descr [OF assms(1)]) (simp_all add: descr_ok_def kernel_ok_def)
  consider "0 \<le> spare_fd s" "s' = s" | "spare_fd s < 0" "\<not> opens (kern s) 0" "s' = s\<lparr>kern := ?k, spare_fd := - 1\<rparr>"
    | "spare_fd s < 0" "s' = s\<lparr>kern := ?k\<lparr>open_fds := finsert ?fd (open_fds (kern s))\<rparr>, spare_fd := ?fd\<rparr>"
    using assms(2) by (fastforce simp: reopen_spare_fd_def sys_open_def Let_def split: if_splits)
  then show ?thesis
  proof cases
    case 1
    then show ?thesis using assms(1) by simp
  next
    case 2
    have "held s' = held s" using 2 by (auto simp: held_def)
    then show ?thesis using d 2 by (simp add: descr_ok_def roles_ok_def held_def)
  next
    case 3
    have h: "held s' = insert ?fd (held s)" using 3 fresh(1) by (auto simp: held_def)
    have r: "roles_ok s'" using assms(1) fresh 3 by (auto simp: descr_ok_def roles_ok_def held_def)
    have "kernel_ok (kern s')" using assms(1) 3 by (simp add: descr_ok_def kernel_ok_def)
    then show ?thesis using assms(1) fresh(2) h r 3 by (auto simp: descr_ok_def nonblocking_def)
  qed
qed

lemma pause_listener_descr: "descr_ok I s \<Longrightarrow> descr_ok I (pause_listener s)"
  by (auto simp: pause_listener_def Let_def intro: steady_descr steady_trans steady_registration steady_updates)

lemma resume_listener_descr: "descr_ok I s \<Longrightarrow> descr_ok I (resume_listener s)"
proof -
  assume d: "descr_ok I s"
  obtain ok1 s1 where r: "reopen_spare_fd s = (ok1, s1)" by fastforce
  obtain ok2 s2 where g: "register (listen_fd s1) ListenerCb s1 = (ok2, s2)" by fastforce
  have d1: "descr_ok I s1" using d r by (rule reopen_spare_descr)
  then have d2: "descr_ok I s2" using g steady_registers steady_descr by blast
  then have "descr_ok I (s2\<lparr>listener_paused := False\<rparr>)" using steady_updates(3) by (rule steady_descr)
  then show ?thesis using d d1 d2 r g by (simp add: resume_listener_def)
qed

text \<open>
  A descriptor just accepted counts among the others until it is closed again or becomes a
  connection.
\<close>

lemma sys_accept_descr:
  assumes "descr_ok I s" "sys_accept (kern s) = (r, fd, k)"
  shows "r \<noteq> AcceptReady \<Longrightarrow> fd < 0 \<and> descr_ok I (s\<lparr>kern := k\<rparr>)"
    "r = AcceptReady \<Longrightarrow> 0 \<le> fd \<and> fd \<notin> I \<and> descr_ok (insert fd I) (s\<lparr>kern := k\<rparr>)"
proof -
  let ?fd = "alloc (kern s) (open_fds (kern s))" let ?k = "(kern s)\<lparr>accepts := (\<lambda>i. accepts (kern s) (Suc i))\<rparr>"
  note fresh = fresh_descr [OF assms(1) refl]
  have ok: "kernel_ok (kern s)" "fset (open_fds (kern s)) = I \<union> held s" "I \<inter> held s = {}" using assms(1) by (simp_all add: descr_ok_def)
  show "r \<noteq> AcceptReady \<Longrightarrow> fd < 0 \<and> descr_ok I (s\<lparr>kern := k\<rparr>)"
    using assms(2) ok by (intro conjI kern_descr [OF assms(1)]) (auto simp: sys_accept_def kernel_ok_def Let_def split: if_splits)
  show "r = AcceptReady \<Longrightarrow> 0 \<le> fd \<and> fd \<notin> I \<and> descr_ok (insert fd I) (s\<lparr>kern := k\<rparr>)"
  proof -
    assume "r = AcceptReady"
    then have k: "fd = ?fd" "k = ?k\<lparr>open_fds := finsert ?fd (open_fds (kern s)), wire := (wire (kern s))(?fd := []),
        status_flags := (status_flags (kern s))(?fd := fresh_flags (kern s))\<rparr>"
      using assms(2) by (auto simp: sys_accept_def Let_def split: if_splits)
    have "descr_ok (insert ?fd I) (s\<lparr>kern := k\<rparr>)"
      using ok fresh by (intro kern_descr [OF assms(1)]) (auto simp: k kernel_ok_def)
    then show ?thesis using k fresh by simp
  qed
qed

lemma close_other_descr:
  assumes "descr_ok (insert fd I) s" "fd \<notin> I"
  shows "descr_ok I (s\<lparr>kern := sys_close fd (kern s)\<rparr>)"
proof -
  have ok: "kernel_ok (kern s)" "fset (open_fds (kern s)) = insert fd I \<union> held s" "fd \<notin> held s" "I \<inter> held s = {}"
    using assms(1) by (auto simp: descr_ok_def)
  then show ?thesis using assms(2) by (intro kern_descr [OF assms(1)]) (auto simp: sys_close_def kernel_ok_def)
qed

lemma quiet_descr:
  assumes "descr_ok I s" "quiet fd (kern s) k" "fd \<notin> held s"
  shows "descr_ok I (s\<lparr>kern := k\<rparr>)"
proof (rule kern_descr [OF assms(1)])
  show "kernel_ok k" using assms(1) quiet_kernel_ok [OF assms(2)] by (simp add: descr_ok_def)
  show "\<And>f. f \<in> held s \<Longrightarrow> status_flags k f = status_flags (kern s) f" using assms(2,3) by (auto simp: quiet_def)
qed (use assms in \<open>simp_all add: quiet_def descr_ok_def\<close>)

lemma add_connection_descr:
  assumes "descr_ok (insert fd I) s" "fd \<notin> I" "0 \<le> fd"
  shows "descr_ok I (add_connection s fd)"
proof (cases rule: add_connection_cases [of fd s])
  case (refused k)
  have "fd \<notin> held s" using assms(1) by (auto simp: descr_ok_def)
  from quiet_descr [OF assms(1) refused(1) this] show ?thesis
    using close_other_descr [of fd I "s\<lparr>kern := k\<rparr>"] assms(2) refused(2) by simp
next
  case (registers k peer ok s2 L)
  have h: "fd \<notin> held s" using assms(1) by (auto simp: descr_ok_def)
  have d2: "descr_ok (insert fd I) s2" and st: "steady (s\<lparr>kern := k\<rparr>) s2"
    using quiet_descr [OF assms(1) registers(1) h] steady_registers [OF registers(3)] steady_descr by blast+
  have nb: "nonblocking (kern s2) fd" using registers(2) st by (simp add: steady_def nonblocking_def fd_state_def)
  let ?s = "s2\<lparr>conns := (conns s2)(fd \<mapsto> new_conn fd peer)\<rparr>"
  have "fd \<notin> held s2" using d2 by (auto simp: descr_ok_def)
  moreover from this have "roles_ok ?s" using d2 by (auto simp: descr_ok_def roles_ok_def held_def new_conn_def)
  moreover have "held ?s = insert fd (held s2)" by (auto simp: held_def)
  ultimately have "descr_ok I ?s" using d2 assms(2) nb by (auto simp: descr_ok_def)
  then have "descr_ok I (s2\<lparr>kern := (kern s2)\<lparr>klog := L\<rparr>, conns := (conns s2)(fd \<mapsto> new_conn fd peer)\<rparr>)"
    by (simp add: descr_ok_def roles_ok_def held_def)
  moreover have "descr_ok (insert fd I) (s2\<lparr>kern := (kern s2)\<lparr>klog := L\<rparr>\<rparr>)" using d2 by simp
  ultimately show ?thesis using close_other_descr [of fd I "s2\<lparr>kern := (kern s2)\<lparr>klog := L\<rparr>\<rparr>"] assms(2) registers(4) by simp
qed

lemma shed_connection_descr:
  assumes "descr_ok I s" shows "descr_ok I (shed_connection s)"
proof (cases rule: shed_connection_cases [of s])
  case (spends r fd k L ok s3)
  let ?s0 = "s\<lparr>spare_fd := - 1\<rparr>" let ?s1 = "s\<lparr>spare_fd := - 1, kern := sys_close (spare_fd s) (kern s)\<rparr>"
  have h: "held s = insert (spare_fd s) (held ?s0)" "spare_fd s \<notin> held ?s0" "roles_ok ?s0"
    using assms spends(1) by (auto simp: descr_ok_def roles_ok_def held_def)
  then have sp: "descr_ok (insert (spare_fd s) I) ?s0" "spare_fd s \<notin> I" using assms by (auto simp: descr_ok_def)
  have d1: "descr_ok I ?s1" using close_other_descr [OF sp] by simp
  have "descr_ok I (?s1\<lparr>kern := (if fd \<ge> 0 then sys_close fd k else k)\<lparr>klog := L\<rparr>\<rparr>)"
    using sys_accept_descr [OF d1, of r fd k] spends(2) close_other_descr [of fd I "?s1\<lparr>kern := k\<rparr>"] by (cases "r = AcceptReady") auto
  then have d3: "descr_ok I s3" using reopen_spare_descr [OF _ spends(3)] by simp
  then show ?thesis using spends(4) pause_listener_descr [OF d3] by simp
qed (simp add: assms pause_listener_descr)

lemma accept_loop_descr: "descr_ok I s \<Longrightarrow> descr_ok I (accept_loop n s)"
proof (induction n arbitrary: s)
  case (Suc n)
  obtain r fd k where a: "sys_accept (kern s) = (r, fd, k)" by (metis prod_cases3)
  note sa = sys_accept_descr [OF Suc.prems a]
  have "descr_ok I (add_connection (s\<lparr>kern := k\<rparr>) fd)" if "r = AcceptReady"
    using sa(2) [OF that] by (intro add_connection_descr) auto
  then show ?case
    using a sa(1) Suc.IH shed_connection_descr by (cases r) (auto simp: Let_def)
qed simp

lemma close_conn_descr:
  assumes "descr_ok I s" "conns s (conn_fd c) \<noteq> None"
  shows "descr_ok I (close_conn s c why)"
proof -
  let ?fd = "conn_fd c"
  let ?s0 = "logs (log_debug (closing_msg (conn_peer c) ?fd why)) s" let ?s1 = "unregister ?fd ?s0"
  let ?s2 = "?s1\<lparr>conns := (conns ?s1)(?fd := None)\<rparr>"
  have "steady s ?s0" by simp
  then have st: "steady s ?s1" using steady_registration(2) by (rule steady_trans)
  have d1: "descr_ok I ?s1" using assms(1) st by (rule steady_descr)
  have c: "conns ?s1 ?fd \<noteq> None" using assms(2) st by (simp add: steady_def)
  have h: "held ?s1 = insert ?fd (held ?s2)" "?fd \<notin> held ?s2" "roles_ok ?s2"
    using d1 c by (auto simp: descr_ok_def roles_ok_def held_def)
  then have "descr_ok (insert ?fd I) ?s2" "?fd \<notin> I" using d1 by (auto simp: descr_ok_def)
  from close_other_descr [OF this] have "descr_ok I (?s2\<lparr>kern := sys_close ?fd (kern ?s1)\<rparr>)" by simp
  moreover have "?s2\<lparr>kern := sys_close ?fd (kern ?s1)\<rparr> = ?s1\<lparr>kern := sys_close ?fd (kern ?s1), conns := (conns ?s1)(?fd := None)\<rparr>"
    by simp
  ultimately have "descr_ok I (?s1\<lparr>kern := sys_close ?fd (kern ?s1), conns := (conns ?s1)(?fd := None)\<rparr>)" by (simp only:)
  from resume_listener_descr [OF this] show ?thesis by (simp add: close_conn_def Let_def)
qed

subsection \<open>The data path\<close>

text \<open>A function on a connection leaves the descriptors alone, or its last act is to close the connection.\<close>

definition stays_or_closes :: "server \<Rightarrow> conn \<Rightarrow> conn option \<times> server \<Rightarrow> bool" where
  "stays_or_closes s c r \<longleftrightarrow>
     (case r of
        (Some c', s') \<Rightarrow> steady s s' \<and> conn_fd c' = conn_fd c
      | (None, s') \<Rightarrow> \<exists>s1 c1 why. steady s s1 \<and> conn_fd c1 = conn_fd c \<and> s' = close_conn s1 c1 why)"

lemma stays: "steady s s' \<Longrightarrow> conn_fd c' = conn_fd c \<Longrightarrow> stays_or_closes s c (Some c', s')"
  by (simp add: stays_or_closes_def)

lemma closes: "steady s s' \<Longrightarrow> conn_fd c' = conn_fd c \<Longrightarrow> stays_or_closes s c (None, close_conn s' c' why)"
  by (auto simp: stays_or_closes_def)

lemma stays_or_closes_from:
  "stays_or_closes s' c' r \<Longrightarrow> steady s s' \<Longrightarrow> conn_fd c' = conn_fd c \<Longrightarrow> stays_or_closes s c r"
  unfolding stays_or_closes_def using steady_trans by (auto split: prod.splits option.splits)

lemma flush_output_descr: "stays_or_closes s c (flush_output s c)"
proof -
  obtain ok os out w where l: "send_loop (sends (kern s)) (conn_out c) (wire (kern s) (conn_fd c)) = (ok, os, out, w)"
    by (metis prod_cases4)
  let ?s = "s\<lparr>kern := (kern s)\<lparr>sends := os, wire := (wire (kern s))(conn_fd c := w)\<rparr>\<rparr>"
  have st: "steady s ?s" by (simp add: steady_def fd_state_def kernel_ok_def)
  have sa: "steady s (arm_write (conn_fd c) b ?s)" for b using st steady_registration(3) by (rule steady_trans)
  show ?thesis
    using l st sa by (simp add: flush_output_def Let_def stays closes)
qed

lemma input_loop_descr: "stays_or_closes s c (input_loop s c)"
proof (induction s c rule: input_loop.induct)
  case (1 s c)
  obtain st p b where p: "parse (conn_parser c) (conn_in c) = (st, p, b)" by (metis prod_cases3)
  show ?case
  proof (cases st)
    case (Complete argv)
    let ?x = "dispatch (fresh_ctx argv (conn_out c) (sdb s))"
    have p': "(Complete argv, p, b) = parse (conn_parser c) (conn_in c)" using p Complete by simp
    have "stays_or_closes s c (input_loop s (c\<lparr>conn_parser := p, conn_in := b\<rparr>))" if "argv = []"
      using "1.IH"(1) [OF p' refl refl that] by (rule stays_or_closes_from) simp_all
    moreover have "stays_or_closes s c (input_loop (s\<lparr>sdb := cdb ?x\<rparr>) (c\<lparr>conn_parser := p, conn_in := b, conn_out := cout ?x\<rparr>))"
      if "argv \<noteq> []" "\<not> close_after_reply ?x" "\<not> readable (cout ?x) > max_output_buffer (cfg s)"
      using "1.IH"(2) [OF p' refl refl that(1) refl that(2,3)] by (rule stays_or_closes_from) simp_all
    ultimately show ?thesis
      using p Complete by (subst input_loop.simps) (auto simp: Let_def intro: stays closes)
  qed (use p in \<open>simp_all add: input_loop.simps [of s c] stays\<close>)
qed

lemma process_input_descr: "stays_or_closes s c (process_input s c)"
proof -
  obtain r s' where l: "input_loop s c = (r, s')" by fastforce
  show ?thesis
  proof (cases r)
    case None
    then show ?thesis using input_loop_descr [of s c] l by (simp add: process_input_def)
  next
    case (Some c')
    then have "steady s s'" "conn_fd c' = conn_fd c" using input_loop_descr [of s c] l by (simp_all add: stays_or_closes_def)
    then show ?thesis using flush_output_descr [of s' c'] l Some by (auto simp: process_input_def intro: stays_or_closes_from)
  qed
qed

lemma handle_read_descr: "stays_or_closes s c (handle_read s c r)"
proof (cases r)
  case (ReadBytes bs)
  have "stays_or_closes s c (process_input s (c\<lparr>conn_in := b\<rparr>))" for b
    using process_input_descr by (rule stays_or_closes_from) simp_all
  then show ?thesis using ReadBytes by (simp add: handle_read_def Let_def closes)
qed (simp_all add: handle_read_def stays closes)

text \<open>What a caller gets to keep.\<close>

lemma stays_or_closes_descr:
  assumes "descr_ok I s" "conns s (conn_fd c) \<noteq> None" "stays_or_closes s c (r, s')"
  shows "descr_ok I s'" "r = Some c' \<Longrightarrow> conns s' (conn_fd c) \<noteq> None \<and> conn_fd c' = conn_fd c"
  using assms close_conn_descr steady_descr by (auto simp: stays_or_closes_def steady_def split: option.splits)

lemma on_conn_event_descr:
  assumes "descr_ok I s" shows "descr_ok I (on_conn_event s fd rd wr r)"
proof (cases "conns s fd")
  case (Some c)
  have fd: "conn_fd c = fd" using assms Some by (simp add: descr_ok_def roles_ok_def)
  obtain r1 s1 where one: "(if rd then handle_read s c r else (Some c, s)) = (r1, s1)" by fastforce
  have "stays_or_closes s c (r1, s1)" using one handle_read_descr [of s c r] by (auto simp: stays split: if_splits)
  note d1 = stays_or_closes_descr [OF assms _ this]
  have k1: "descr_ok I s1" using d1(1) Some fd by simp
  show ?thesis
  proof (cases r1)
    case None
    then show ?thesis using k1 one Some by (simp add: on_conn_event_def)
  next
    case c1: (Some c1)
    have f1: "conns s1 fd \<noteq> None" "conn_fd c1 = fd" using d1(2) [of c1] c1 Some fd by simp_all
    obtain r2 s2 where two: "(if wr \<and> \<not> buf_empty (conn_out c1) then flush_output s1 c1 else (Some c1, s1)) = (r2, s2)"
      by fastforce
    have "stays_or_closes s1 c1 (r2, s2)" using two flush_output_descr [of s1 c1] by (auto simp: stays split: if_splits)
    note d2 = stays_or_closes_descr [OF k1 _ this]
    have k2: "descr_ok I s2" using d2(1) f1 by simp
    show ?thesis
    proof (cases r2)
      case None
      then show ?thesis using k2 one two c1 Some by (simp add: on_conn_event_def)
    next
      case c2: (Some c2)
      have f2: "conns s2 fd \<noteq> None" "conn_fd c2 = fd" using d2(2) [of c2] c2 f1 by simp_all
      let ?s = "s2\<lparr>conns := (conns s2)(fd \<mapsto> c2)\<rparr>"
      have "dom (conns ?s) = dom (conns s2)" using f2(1) by auto
      moreover from this have "held ?s = held s2" by (simp add: held_def)
      moreover have "roles_ok ?s" using k2 f2 by (auto simp: descr_ok_def roles_ok_def)
      ultimately have "descr_ok I ?s" using k2 by (simp add: descr_ok_def)
      then show ?thesis
        using close_conn_descr [of I ?s c2] f2 one two c1 c2 Some by (simp add: on_conn_event_def Let_def)
    qed
  qed
qed (use assms in \<open>simp add: on_conn_event_def\<close>)

subsection \<open>Reachable servers\<close>

lemma dispatch_event_descr: "descr_ok I s \<Longrightarrow> descr_ok I (dispatch_event s er)"
  by (auto simp: dispatch_event_def on_conn_event_descr on_listener_readable_def accept_loop_descr
      split: option.split callback.split prod.split)

lemma dispatch_events_descr: "descr_ok I s \<Longrightarrow> descr_ok I (foldl dispatch_event s evs)"
  by (induction evs arbitrary: s) (simp_all add: dispatch_event_descr)

lemma on_tick_descr: "descr_ok I s \<Longrightarrow> descr_ok I (on_tick lay sd s)"
  by (simp add: on_tick_def loop_stop_def descr_ok_def roles_ok_def held_def Let_def split: prod.split)

lemma loop_body_descr:
  assumes "descr_ok I s" shows "descr_ok I (loop_body lay evs sd s)"
proof (cases evs)
  case (Some es)
  have "descr_ok I (on_tick lay sd (foldl dispatch_event s es))"
    using dispatch_events_descr [OF assms] by (rule on_tick_descr)
  then show ?thesis using Some steady_descr by (auto simp: loop_body_def Let_def)
qed (use assms in \<open>simp add: loop_body_def\<close>)

lemma reachable_descr: "reachable lay s0 s \<Longrightarrow> descr_ok I s0 \<Longrightarrow> descr_ok I s"
proof (induction rule: reachable.induct)
  case reach_start
  then show ?case by (simp add: begin_run_def)
next
  case (reach_kernel s k)
  then have "steady s (s\<lparr>kern := k\<rparr>)" by (simp add: steady_def)
  then show ?case using reach_kernel by (blast intro: steady_descr)
qed (simp add: loop_body_descr)

subsection \<open>Start and end\<close>

lemma bound_port_steady: "steady s (snd (bound_port s))"
  by (auto simp: bound_port_def local_port_def sys_getsockname_def sys_call_def steady_def fd_state_def kernel_ok_def Let_def
      split: option.split)

text \<open>The server as constructed, and once it has a listener.\<close>

lemma new_server_fields:
  assumes "kernel_ok k" "n = new_server cf d k" "pfd = poller_fd (sloop n)"
  shows "kernel_ok (kern n)" "conns n = Map.empty" "spare_fd n = - 1" "listen_fd n = - 1"
    "open_fds (kern n) = (if 0 \<le> pfd then finsert pfd (open_fds k) else open_fds k)" "0 \<le> pfd \<Longrightarrow> pfd |\<notin>| open_fds k"
proof -
  obtain pfd' k0 where pc: "poller_create k = (pfd', k0)" by fastforce
  then have "n = \<lparr>cfg = cf, sloop = new_loop pfd', sdb = d, listen_fd = - 1, spare_fd = - 1, listener_paused = False,
       conns = Map.empty, kern = k0\<rparr>" "pfd = pfd'"
    using assms(2,3) by (simp_all add: new_server_def new_loop_def)
  then show "kernel_ok (kern n)" "conns n = Map.empty" "spare_fd n = - 1" "listen_fd n = - 1"
    "open_fds (kern n) = (if 0 \<le> pfd then finsert pfd (open_fds k) else open_fds k)" "0 \<le> pfd \<Longrightarrow> pfd |\<notin>| open_fds k"
    using poller_create_facts [OF assms(1) pc] by simp_all
qed

lemma listening_descr:
  assumes "kernel_ok k" "n = new_server cf d k" "loop_valid (sloop n)" "listen_on a p b (kern n) = (Inr lfd, k1)"
    "reopen_spare_fd (n\<lparr>kern := k1, listen_fd := lfd\<rparr>) = (ok, s1)"
    "register lfd ListenerCb (s1\<lparr>kern := (kern s1)\<lparr>errnos := E, klog := L\<rparr>, sloop := (sloop s1)\<lparr>tick_interval := ms\<rparr>\<rparr>) = (ok2, s2)"
  shows "descr_ok (fset (open_fds k)) s2" "conns s2 = Map.empty"
proof -
  let ?pfd = "poller_fd (sloop n)" and ?s0 = "n\<lparr>kern := k1, listen_fd := lfd\<rparr>" and ?I = "fset (open_fds k)"
  note n = new_server_fields [OF assms(1,2) refl]
  have pos: "0 \<le> ?pfd" using assms(3) by (simp add: loop_valid_def)
  note l = listen_on_succeeds(1,2) [OF n(1) assms(4)]
  have o: "open_fds k1 = finsert lfd (finsert ?pfd (open_fds k))" "0 \<le> lfd" "lfd |\<notin>| open_fds k" "lfd \<noteq> ?pfd"
    using l(1) n(5) pos by (auto simp: opened_def quiet_def)
  have "kernel_ok k1" using l(1) n(1) by (simp add: opened_def quiet_def kernel_ok_def)
  moreover have "held ?s0 = {lfd, ?pfd}" using n(2,3) by (auto simp: held_def)
  moreover have "roles_ok ?s0" using n(2,3) pos o(2,4) by (simp add: roles_ok_def)
  ultimately have "descr_ok ?I ?s0" using o n(2,6) pos l(2) by (simp add: descr_ok_def)
  then have "descr_ok ?I s1" using assms(5) by (rule reopen_spare_descr)
  moreover have "steady s1 (s1\<lparr>kern := (kern s1)\<lparr>errnos := E, klog := L\<rparr>\<rparr>)" by (simp add: steady_def fd_state_def)
  ultimately have "descr_ok ?I (s1\<lparr>kern := (kern s1)\<lparr>errnos := E, klog := L\<rparr>\<rparr>)" by (rule steady_descr)
  then have "descr_ok ?I (s1\<lparr>kern := (kern s1)\<lparr>errnos := E, klog := L\<rparr>, sloop := (sloop s1)\<lparr>tick_interval := ms\<rparr>\<rparr>)"
    using running_descr(2) [where s = "s1\<lparr>kern := (kern s1)\<lparr>errnos := E, klog := L\<rparr>\<rparr>"] by simp
  then show "descr_ok ?I s2" using steady_registers [OF assms(6)] by (rule steady_descr)
  have "conns s1 = Map.empty" using assms(5) n(2) by (auto simp: reopen_spare_fd_def split: if_splits prod.splits)
  then show "conns s2 = Map.empty" using steady_registers [OF assms(6)] by (simp add: steady_def)
qed

lemma start_descr:
  assumes "kernel_ok k" "start (new_server cf d k) = (None, s)"
  shows "descr_ok (fset (open_fds k)) s"
  using assms(2)
proof (cases rule: start_succeeds)
  case (1 lfd k1 ok s1 E L s2 L')
  from listening_descr(1) [OF assms(1) refl 1(5,1,2,3)] have "descr_ok (fset (open_fds k)) (snd (bound_port s2))"
    using bound_port_steady by (rule steady_descr)
  then show ?thesis using 1(4) by simp
qed

text \<open>The destructor closes every descriptor of the server and no other.\<close>

lemma close_fold:
  assumes "\<And>fd c. m fd = Some c \<Longrightarrow> conn_fd c = fd"
  shows "fset (open_fds (foldl (\<lambda>k fd. case m fd of None \<Rightarrow> k | Some c \<Rightarrow> sys_close (conn_fd c) k) k order)) =
    fset (open_fds k) - (set order \<inter> dom m)"
  using assms by (induction order arbitrary: k) (auto simp: sys_close_def split: option.splits)

lemma destroy_open_fds:
  assumes "\<And>fd c. conns s fd = Some c \<Longrightarrow> conn_fd c = fd" "set order = dom (conns s)"
  shows "fset (open_fds (kern (destroy order s))) =
    fset (open_fds (kern s)) - dom (conns s) - {fd \<in> {listen_fd s, spare_fd s, poller_fd (sloop s)}. 0 \<le> fd}"
  using close_fold [of "conns s" "kern s" order, OF assms(1)] assms(2)
  by (auto simp: destroy_def poller_destroy_def sys_close_def Let_def)

lemma destroy_descr:
  assumes "descr_ok I s" "set order = dom (conns s)"
  shows "fset (open_fds (kern (destroy order s))) = I"
proof -
  have "fset (open_fds (kern (destroy order s))) = fset (open_fds (kern s)) - held s"
    using destroy_open_fds [OF _ assms(2)] assms(1) by (auto simp: descr_ok_def roles_ok_def held_def)
  then show ?thesis using assms(1) by (auto simp: descr_ok_def)
qed

lemma destroy_log [simp]: "open_fds (kern (destroy [] (s\<lparr>kern := (kern s)\<lparr>klog := L\<rparr>\<rparr>))) = open_fds (kern (destroy [] s))"
  by (simp add: destroy_def poller_destroy_def sys_close_def Let_def)

text \<open>A start that fails leaves nothing behind either.\<close>

lemma failed_start_descr:
  assumes "kernel_ok k" "start (new_server cf d k) = (Some e, s)"
  shows "fset (open_fds (kern (destroy [] s))) = fset (open_fds k)"
proof -
  let ?n = "new_server cf d k" let ?pfd = "poller_fd (sloop ?n)"
  note n = new_server_fields [OF assms(1) refl refl]
  have bare: "fset (open_fds (kern (destroy [] (?n\<lparr>kern := k1, listen_fd := - 1\<rparr>)))) = fset (open_fds k)"
    if "open_fds k1 = open_fds (kern ?n)" for k1
  proof -
    have "fset (open_fds (kern (destroy [] (?n\<lparr>kern := k1, listen_fd := - 1\<rparr>)))) =
        fset (open_fds (kern ?n)) - {fd \<in> {- 1, ?pfd}. 0 \<le> fd}"
      using destroy_open_fds [of "?n\<lparr>kern := k1, listen_fd := - 1\<rparr>" "[]"] n(2,3) that by simp
    also have "\<dots> = fset (open_fds k)" using n(5,6) by auto
    finally show ?thesis .
  qed
  obtain q k1 where lo: "listen_on (bind_addr (cfg ?n)) (word_of_nat (port (cfg ?n))) (backlog (cfg ?n)) (kern ?n) = (q, k1)"
    by fastforce
  consider "\<not> loop_valid (sloop ?n)" | e1 where "loop_valid (sloop ?n)" "q = Inl e1" | lfd where "loop_valid (sloop ?n)" "q = Inr lfd"
    by (cases q) auto
  then show ?thesis
  proof cases
    case 1
    then have "s = ?n" using assms(2) by (simp add: start_def)
    moreover have "?n = ?n\<lparr>kern := kern ?n, listen_fd := listen_fd ?n\<rparr>" by simp
    ultimately have "s = ?n\<lparr>kern := kern ?n, listen_fd := - 1\<rparr>" by (metis n(4))
    then show ?thesis using bare by blast
  next
    case 2
    then have "s = ?n\<lparr>kern := k1, listen_fd := - 1\<rparr>" using assms(2) lo by (simp add: start_def Let_def)
    then show ?thesis using bare listen_on_leaks_nothing(1) [OF n(1)] lo 2(2) by blast
  next
    case 3
    obtain ok s1 where ro: "reopen_spare_fd (?n\<lparr>kern := k1, listen_fd := lfd\<rparr>) = (ok, s1)" by fastforce
    let ?E = "if ok then errnos (kern s1) else (\<lambda>i. errnos (kern s1) (Suc i))"
    let ?L = "if ok then klog (kern s1) else log_warn (no_spare_msg (strerror (plat (kern s1)) (errnos (kern s1) 0))) (klog (kern s1))"
    obtain ok2 s2 where rg: "register lfd ListenerCb (s1\<lparr>kern := (kern s1)\<lparr>errnos := ?E, klog := ?L\<rparr>,
        sloop := (sloop s1)\<lparr>tick_interval := tick_interval_ms (cfg s1)\<rparr>\<rparr>) = (ok2, s2)"
      by fastforce
    then have "s = s2" using assms(2) lo 3 ro by (auto simp: start_def Let_def split: if_splits prod.splits)
    moreover have "descr_ok (fset (open_fds k)) s2" "conns s2 = Map.empty"
      using listening_descr [OF assms(1) refl 3(1) _ ro rg] lo 3(2) by auto
    ultimately show ?thesis using destroy_descr [of "fset (open_fds k)" s2 "[]"] by simp
  qed
qed

text \<open>What a successful start has set up.\<close>

lemma listener_settings_frame:
  "reopen_spare_fd s = (ok, s') \<Longrightarrow> bound_to (kern s') = bound_to (kern s) \<and> listening (kern s') = listening (kern s) \<and>
     plat (kern s') = plat (kern s) \<and> ephemeral (kern s') = ephemeral (kern s) \<and> listen_fd s' = listen_fd s"
  "register fd cb s = (ok, s') \<Longrightarrow> bound_to (kern s') = bound_to (kern s) \<and> listening (kern s') = listening (kern s) \<and>
     plat (kern s') = plat (kern s) \<and> ephemeral (kern s') = ephemeral (kern s) \<and> listen_fd s' = listen_fd s"
  "s'' = snd (bound_port s) \<Longrightarrow> bound_to (kern s'') = bound_to (kern s) \<and> listening (kern s'') = listening (kern s) \<and>
     plat (kern s'') = plat (kern s) \<and> listen_fd s'' = listen_fd s"
  by (auto simp: reopen_spare_fd_def sys_open_def register_def loop_add_def poller_add_def bound_port_def local_port_def
      sys_getsockname_def sys_call_def Let_def split: if_splits option.split)

lemma start_listens:
  assumes "kernel_ok k" "start (new_server cf d k) = (None, s)" "p = word_of_nat (port cf)"
  shows "\<exists>addr. inet_pton (plat k) (bind_addr cf) = Some addr \<and>
      bound_to (kern s) (listen_fd s) = Some (addr, htons (plat k) (if p = 0 then ephemeral k else p))"
    "listening (kern s) (listen_fd s) = Some (backlog cf)" "plat (kern s) = plat k"
proof -
  let ?n = "new_server cf d k"
  have k0: "kernel_ok (kern ?n)" using new_server_fields(1) [OF assms(1) refl refl] .
  have n: "plat (kern ?n) = plat k" "ephemeral (kern ?n) = ephemeral k" "cfg ?n = cf"
    by (auto simp: new_server_def poller_create_defs sys_call_def Let_def case_prod_beta split: backend.splits)
  have "(\<exists>addr. inet_pton (plat k) (bind_addr cf) = Some addr \<and>
      bound_to (kern s) (listen_fd s) = Some (addr, htons (plat k) (if p = 0 then ephemeral k else p))) \<and>
    listening (kern s) (listen_fd s) = Some (backlog cf) \<and> plat (kern s) = plat k"
    using assms(2)
  proof (cases rule: start_succeeds)
    case (1 lfd k1 ok s1 E L s2 L')
    note l = listen_on_succeeds [OF k0 1(1)]
    note f = listener_settings_frame(1) [OF 1(2)] listener_settings_frame(2) [OF 1(3)] listener_settings_frame(3) [OF refl, of s2]
    have "plat k1 = plat k" using l(1) n(1) by (simp add: opened_def quiet_def)
    moreover have "\<exists>addr. inet_pton (plat k) (bind_addr cf) = Some addr \<and>
        bound_to k1 lfd = Some (addr, htons (plat k) (if p = 0 then ephemeral k else p))"
      using l(4) by (simp only: n assms(3))
    moreover have "bound_to (kern s) = bound_to k1" "listening (kern s) = listening k1" "plat (kern s) = plat k1" "listen_fd s = lfd"
      using f 1(4) by simp_all
    ultimately show ?thesis using l(3) n(3) by (simp only:)
  qed
  then show "\<exists>addr. inet_pton (plat k) (bind_addr cf) = Some addr \<and>
      bound_to (kern s) (listen_fd s) = Some (addr, htons (plat k) (if p = 0 then ephemeral k else p))"
    "listening (kern s) (listen_fd s) = Some (backlog cf)" "plat (kern s) = plat k" by blast+
qed

lemma bound_port_exact:
  assumes "bound_to (kern s) (listen_fd s) = Some (addr, htons (plat (kern s)) p)" "0 \<le> listen_fd s" "calls (kern s) 0 = 0"
  shows "fst (bound_port s) = p"
  using local_port_bound [OF assms(1,3)] assms(2) by (simp add: bound_port_def case_prod_beta)

text \<open>The reason a start gives is never empty.\<close>

lemma listen_on_reason: "listen_on a p b k = (Inl e, k') \<Longrightarrow> e \<noteq> []"
  by (auto simp: listen_on_def set_nonblocking_def errno_str_def Let_def case_prod_beta split: if_splits option.splits)

lemma start_reason: "start s = (Some e, s') \<Longrightarrow> e \<noteq> []"
  using listen_on_reason [of "bind_addr (cfg s)" "word_of_nat (port (cfg s))" "backlog (cfg s)" "kern s"]
  by (auto simp: start_def Let_def split: if_splits sum.splits prod.splits)

text \<open>The two counts.\<close>

lemma counts_agree:
  assumes "table_ok s" "finite (dom (conns s))"
  shows "registered_count (sloop s) = connection_count s + (if listener_paused s then 0 else 1)"
proof -
  have "dom (handlers (sloop s)) = (if listener_paused s then dom (conns s) else insert (listen_fd s) (dom (conns s)))"
    using assms(1) unfolding table_ok_def by (intro set_eqI) (simp add: dom_def split: if_splits)
  moreover have "listen_fd s \<notin> dom (conns s)" using assms(1) by (auto simp: table_ok_def)
  ultimately show ?thesis using assms(2) by (simp add: registered_count_def connection_count_def)
qed

end
