(* ===== verification/Command_Line.thy ===== *)
theory Command_Line
  imports Server Logging
begin

text \<open>
  The command line of \<^verbatim>\<open>src/main.cpp\<close> (\<^verbatim>\<open>parse_u64\<close>, \<^verbatim>\<open>parse_args\<close>, \<^verbatim>\<open>usage\<close>). \<^verbatim>\<open>strtoull\<close> in base 10 is
  modelled after the C standard: white space, an optional sign, digits; a minus sign negates in
  \<^verbatim>\<open>unsigned long long\<close>; a value out of range sets \<^verbatim>\<open>errno\<close>. A C string is a byte list without its
  terminator and a null pointer is \<open>None\<close>. What is printed is part of the result.
\<close>

subsection \<open>Numbers\<close>

abbreviation ULLONG_MAX :: nat where
  "ULLONG_MAX \<equiv> 18446744073709551615"

definition c_isspace :: "byte \<Rightarrow> bool" where
  "c_isspace c \<longleftrightarrow> byte_val c = 32 \<or> (9 \<le> byte_val c \<and> byte_val c \<le> 13)"

fun digits_value :: "nat \<Rightarrow> bytes \<Rightarrow> nat" where
  "digits_value v [] = v"
| "digits_value v (c # cs) = digits_value (v * 10 + (byte_val c - 48)) cs"

text \<open>The value, the rest behind the number (\<^verbatim>\<open>end\<close>), whether any digit was there, and the range error.\<close>

definition strtoull :: "bytes \<Rightarrow> nat \<times> bytes \<times> bool \<times> bool" where
  "strtoull s =
     (let t = dropWhile c_isspace s;
          neg = (t \<noteq> [] \<and> t ! 0 = CHR ''-'');
          u = (if t \<noteq> [] \<and> (t ! 0 = CHR ''-'' \<or> t ! 0 = CHR ''+'') then drop 1 t else t);
          ds = takeWhile is_digit u;
          m = digits_value 0 ds
      in if ds = [] then (0, s, False, False)
         else if m > ULLONG_MAX then (ULLONG_MAX, dropWhile is_digit u, True, True)
         else (if neg \<and> m > 0 then ULLONG_MAX + 1 - m else m, dropWhile is_digit u, True, False))"

definition parse_u64 :: "bytes option \<Rightarrow> nat \<Rightarrow> nat option" where
  "parse_u64 s mx =
     (case s of
        None \<Rightarrow> None
      | Some s \<Rightarrow>
          if s = [] then None
          else let (v, rest, any, erange) = strtoull s in
            if erange \<or> \<not> any \<or> rest \<noteq> [] \<or> v > mx then None else Some v)"

subsection \<open>Options\<close>

definition take_number :: "bytes option \<Rightarrow> nat \<Rightarrow> nat \<Rightarrow> nat option" where
  "take_number value lo hi =
     (case parse_u64 value hi of
        None \<Rightarrow> None
      | Some n \<Rightarrow> if n < lo then None else Some n)"

definition usage :: "bytes \<Rightarrow> bytes" where
  "usage argv0 =
     ''kvsd -- a RESP2-compatible key-value server'' @ [LF] @
     [LF] @
     ''usage: '' @ argv0 @ '' [options]'' @ [LF] @
     [LF] @
     ''  --port <n>               port to listen on (default 6380; 0 lets the OS pick)'' @ [LF] @
     ''  --bind <addr>            IPv4 address to bind (default 127.0.0.1)'' @ [LF] @
     ''  --max-output-buffer <n>  bytes of pending replies per client before it is'' @ [LF] @
     ''                           disconnected (default 67108864)'' @ [LF] @
     ''  --expire-samples <n>     keys sampled per active expiry round (default 20)'' @ [LF] @
     ''  --tick-interval <ms>     event loop tick period (default 100)'' @ [LF] @
     ''  --verbose                log per-connection detail'' @ [LF] @
     ''  --help                   this text'' @ [LF]"

text \<open>The messages on \<^verbatim>\<open>stderr\<close>.\<close>

definition number_msg :: "bytes \<Rightarrow> nat \<Rightarrow> nat \<Rightarrow> bytes option \<Rightarrow> bytes" where
  "number_msg arg lo hi value =
     ''kvsd: '' @ arg @ '' expects an integer in ['' @ dec_digits lo @ '', '' @ dec_digits hi @ ''], got '' @
     quoted (case value of None \<Rightarrow> [] | Some v \<Rightarrow> v) @ [LF]"

definition unknown_msg :: "bytes \<Rightarrow> bytes" where
  "unknown_msg arg = ''kvsd: unknown argument '' @ quoted arg @ [LF, LF]"

text \<open>
  The loop over \<^verbatim>\<open>argv[1..]\<close>. The left summand is the exit code with which \<^verbatim>\<open>main\<close> returns at once and
  what has gone to \<^verbatim>\<open>stdout\<close> and \<^verbatim>\<open>stderr\<close>; the right one has the configuration and the \<^verbatim>\<open>--verbose\<close>
  flag.
\<close>

type_synonym early_exit = "int \<times> bytes \<times> bytes"

function parse_args :: "bytes \<Rightarrow> bytes list \<Rightarrow> server_config \<Rightarrow> bool \<Rightarrow> early_exit + (server_config \<times> bool)" where
  "parse_args argv0 [] c verbose = Inr (c, verbose)"
| "parse_args argv0 (arg # rest) c verbose =
     (let value = (case rest of [] \<Rightarrow> None | v # vs \<Rightarrow> Some v) in
      if arg = ''--help'' \<or> arg = ''-h'' then Inl (0, usage argv0, [])
      else if arg = ''--verbose'' then parse_args argv0 rest c True
      else if arg = ''--bind''
      then (case value of
              None \<Rightarrow> Inl (2, [], ''kvsd: --bind expects an IPv4 address'' @ [LF])
            | Some v \<Rightarrow> parse_args argv0 (drop 1 rest) (c\<lparr>bind_addr := v\<rparr>) verbose)
      else if arg = ''--port''
      then (case take_number value 0 65535 of
              None \<Rightarrow> Inl (2, [], number_msg arg 0 65535 value)
            | Some n \<Rightarrow> parse_args argv0 (drop 1 rest) (c\<lparr>port := n\<rparr>) verbose)
      else if arg = ''--max-output-buffer''
      then (case take_number value 1 (2 ^ 40) of
              None \<Rightarrow> Inl (2, [], number_msg arg 1 (2 ^ 40) value)
            | Some n \<Rightarrow> parse_args argv0 (drop 1 rest) (c\<lparr>max_output_buffer := n\<rparr>) verbose)
      else if arg = ''--expire-samples''
      then (case take_number value 0 100000 of
              None \<Rightarrow> Inl (2, [], number_msg arg 0 100000 value)
            | Some n \<Rightarrow> parse_args argv0 (drop 1 rest) (c\<lparr>active_expire_samples := n\<rparr>) verbose)
      else if arg = ''--tick-interval''
      then (case take_number value 1 60000 of
              None \<Rightarrow> Inl (2, [], number_msg arg 1 60000 value)
            | Some n \<Rightarrow> parse_args argv0 (drop 1 rest) (c\<lparr>tick_interval_ms := int n\<rparr>) verbose)
      else Inl (2, usage argv0, unknown_msg arg))"
  by pat_completeness auto
termination by (relation "measure (\<lambda>(argv0, args, c, v). length args)") auto

declare parse_args.simps(2) [simp del]

subsection \<open>What the parser accepts\<close>

lemma digits_value_dec: "\<forall>c \<in> set s. is_digit c \<Longrightarrow> dec_value v s = Some (digits_value v s)"
  by (induction v s rule: dec_value.induct) simp_all

lemma is_digit_not_space: "is_digit c \<Longrightarrow> \<not> c_isspace c \<and> c \<noteq> CHR ''-'' \<and> c \<noteq> CHR ''+''"
  by (auto simp: is_digit_def c_isspace_def byte_val_def)

lemma strtoull_digits:
  assumes "s \<noteq> []" "\<forall>c \<in> set s. is_digit c"
  shows "strtoull s = (if digits_value 0 s > ULLONG_MAX then (ULLONG_MAX, [], True, True)
    else (digits_value 0 s, [], True, False))"
proof -
  obtain c cs where s: "s = c # cs" using assms(1) by (cases s) auto
  have dw: "dropWhile c_isspace s = s" "s ! 0 \<noteq> CHR ''-''" "s ! 0 \<noteq> CHR ''+''"
    using assms(2) is_digit_not_space [of c] by (simp_all add: s)
  have tw: "takeWhile is_digit s = s" "dropWhile is_digit s = []" using assms(2) by (simp_all add: takeWhile_eq_all_conv)
  show ?thesis using assms(1) dw by (simp add: strtoull_def Let_def tw)
qed

lemma parse_u64_digits:
  assumes "s \<noteq> []" "\<forall>c \<in> set s. is_digit c" "mx \<le> ULLONG_MAX"
  shows "parse_u64 (Some s) mx = (if digits_value 0 s \<le> mx then Some (digits_value 0 s) else None)"
  using strtoull_digits [OF assms(1,2)] assms(1,3) by (simp add: parse_u64_def)

lemma parse_u64_bound: "parse_u64 s mx = Some n \<Longrightarrow> n \<le> mx"
  by (auto simp: parse_u64_def split: option.splits if_splits prod.splits)

lemma take_number_range: "take_number v lo hi = Some n \<Longrightarrow> lo \<le> n \<and> n \<le> hi"
  by (auto simp: take_number_def dest: parse_u64_bound split: option.splits if_splits)

definition config_ok :: "server_config \<Rightarrow> bool" where
  "config_ok c \<longleftrightarrow> port c \<le> 65535 \<and> 1 \<le> max_output_buffer c \<and> max_output_buffer c \<le> 2 ^ 40 \<and>
     active_expire_samples c \<le> 100000 \<and> 1 \<le> tick_interval_ms c \<and> tick_interval_ms c \<le> 60000"

lemma config_ok_default: "config_ok default_config"
  by (simp add: config_ok_def default_config_def)

lemma parse_args_ok: "parse_args argv0 args c v = Inr (c', v') \<Longrightarrow> config_ok c \<Longrightarrow> config_ok c'"
proof (induction argv0 args c v rule: parse_args.induct)
  case (2 argv0 arg rest c verbose)
  then show ?case
    by (auto simp: parse_args.simps(2) Let_def config_ok_def dest!: take_number_range split: if_splits option.splits)
qed simp

text \<open>An early end has code 0 and the usage, or code 2 and a message.\<close>

lemma parse_args_exit:
  "parse_args argv0 args c v = Inl (code, out, err) \<Longrightarrow>
   if code = 0 then out = usage argv0 \<and> err = [] else code = 2 \<and> err \<noteq> []"
proof (induction argv0 args c v rule: parse_args.induct)
  case (2 argv0 arg rest c verbose)
  then show ?case
    by (auto simp: parse_args.simps(2) Let_def number_msg_def unknown_msg_def split: if_splits option.splits)
qed simp

subsection \<open>Properties\<close>

text \<open>
  A number on the command line is taken at its value. For a string of decimal digits \<open>parse_u64\<close>
  returns the number it denotes, or refuses it if it is above the maximum, for numbers of any
  length, also those beyond \<^verbatim>\<open>unsigned long long\<close>.
\<close>

theorem parse_u64_exact:
  assumes "s \<noteq> []" "\<forall>c \<in> set s. is_digit c" "mx \<le> ULLONG_MAX"
  shows "parse_u64 (Some s) mx = (if digits_value 0 s \<le> mx then Some (digits_value 0 s) else None) \<and>
    dec_value 0 s = Some (digits_value 0 s)"
  using parse_u64_digits [OF assms] digits_value_dec [OF assms(2)] by simp

theorem parse_u64_exact_witness: "parse_u64 (Some ''6380'') 65535 = Some 6380"
  using parse_u64_exact [of "''6380''" 65535] by (simp add: is_digit_def byte_val_def)

text \<open>
  C40: exactly what is accepted as a number, and the gap in its strictness. A text is accepted if and
  only if it is white space, an optional sign and digits, with nothing behind them, whose value
  \<^verbatim>\<open>unsigned long long\<close> holds; the number is that value, but for a minus sign it is the value
  negated in the unsigned type, and only the number so obtained is compared with the maximum. So
  a large negative number is taken for the small positive one it wraps around to.
\<close>

theorem parse_u64_accepts:
  "parse_u64 (Some s) mx = Some v \<longleftrightarrow>
     (\<exists>ws sg ds m. s = ws @ sg @ ds \<and> list_all c_isspace ws \<and> sg \<in> {[], ''+'', ''-''} \<and> ds \<noteq> [] \<and>
        dec_value 0 ds = Some m \<and> m < 2 ^ 64 \<and> v = (if sg = ''-'' then (2 ^ 64 - m) mod 2 ^ 64 else m) \<and> v \<le> mx)"
  (is "_ \<longleftrightarrow> ?R")
proof
  assume a: "parse_u64 (Some s) mx = Some v"
  define ws where "ws = takeWhile c_isspace s"
  define t where "t = dropWhile c_isspace s"
  define sg where "sg = (if t \<noteq> [] \<and> (t ! 0 = CHR ''-'' \<or> t ! 0 = CHR ''+'') then [t ! 0] else [])"
  define u where "u = (if t \<noteq> [] \<and> (t ! 0 = CHR ''-'' \<or> t ! 0 = CHR ''+'') then drop 1 t else t)"
  have tu: "t = sg @ u" by (cases t) (auto simp: sg_def u_def)
  have neg: "(t \<noteq> [] \<and> t ! 0 = CHR ''-'') \<longleftrightarrow> sg = ''-''" by (auto simp: sg_def)
  have st: "strtoull s =
      (let ds = takeWhile is_digit u; m = digits_value 0 ds
       in if ds = [] then (0, s, False, False)
          else if m > ULLONG_MAX then (ULLONG_MAX, dropWhile is_digit u, True, True)
          else (if sg = ''-'' \<and> m > 0 then ULLONG_MAX + 1 - m else m, dropWhile is_digit u, True, False))"
    unfolding strtoull_def Let_def neg [symmetric] u_def t_def by simp
  have d: "dropWhile is_digit u = []" and ds: "takeWhile is_digit u \<noteq> []"
    and m: "digits_value 0 (takeWhile is_digit u) \<le> ULLONG_MAX" and le: "v \<le> mx"
    and v: "v = (if sg = ''-'' \<and> digits_value 0 (takeWhile is_digit u) > 0
      then ULLONG_MAX + 1 - digits_value 0 (takeWhile is_digit u) else digits_value 0 (takeWhile is_digit u))"
    using a by (auto simp: parse_u64_def st Let_def split: if_splits)
  have u: "takeWhile is_digit u = u" using takeWhile_dropWhile_id [of is_digit u] d by simp
  then have dg: "\<forall>c \<in> set u. is_digit c" by (metis set_takeWhileD)
  have "s = ws @ sg @ u" using tu by (simp add: ws_def t_def flip: tu)
  moreover have "list_all c_isspace ws" by (auto simp: ws_def list_all_iff dest: set_takeWhileD)
  moreover have "sg \<in> {[], ''+'', ''-''}" by (auto simp: sg_def)
  moreover have "u \<noteq> []" "digits_value 0 u < 2 ^ 64" using ds m unfolding u by simp_all
  moreover have "v = (if sg = ''-'' then (2 ^ 64 - digits_value 0 u) mod 2 ^ 64 else digits_value 0 u)"
    using v m unfolding u by simp
  ultimately show ?R using digits_value_dec [OF dg, of 0] le by blast
next
  assume ?R
  then obtain ws sg ds m where r: "s = ws @ sg @ ds" "list_all c_isspace ws" "sg \<in> {[], ''+'', ''-''}" "ds \<noteq> []"
    "dec_value 0 ds = Some m" "m < 2 ^ 64" "v = (if sg = ''-'' then (2 ^ 64 - m) mod 2 ^ 64 else m)" "v \<le> mx" by blast
  have dg: "\<forall>c \<in> set ds. is_digit c" using dec_value_Some_digits [OF r(5)] .
  then have m: "digits_value 0 ds = m" using digits_value_dec [OF dg, of 0] r(5) by simp
  have h: "is_digit (ds ! 0)" using dg r(4) by simp
  then have "\<not> c_isspace ((sg @ ds) ! 0)" using r(3) is_digit_not_space by (auto simp: c_isspace_def byte_val_def)
  moreover have "dropWhile c_isspace s = dropWhile c_isspace (sg @ ds)"
    unfolding r(1) using r(2) by (intro dropWhile_append2) (auto simp: list_all_iff)
  ultimately have dw: "dropWhile c_isspace s = sg @ ds" using r(4) by (cases "sg @ ds") simp_all
  have tw: "takeWhile is_digit ds = ds" "dropWhile is_digit ds = []" using dg by (simp_all add: takeWhile_eq_all_conv)
  have ns: "ds ! 0 \<noteq> CHR ''-''" "ds ! 0 \<noteq> CHR ''+''" using is_digit_not_space [OF h] by auto
  have "strtoull s = (v, [], True, False)"
    using r(3,4,6,7) by (elim insertE emptyE) (simp_all add: strtoull_def dw tw m ns Let_def)
  then show "parse_u64 (Some s) mx = Some v" using r(1,4,8) by (simp add: parse_u64_def)
qed

theorem parse_u64_accepts_witness: "parse_u64 (Some '' -18446744073709551615'') 65535 = Some 1"
proof -
  let ?d = "''18446744073709551615''"
  have "dec_value 0 ?d = Some 18446744073709551615" by (simp add: is_digit_def byte_val_def)
  then show ?thesis
    unfolding parse_u64_accepts
    by (intro exI [of _ "'' ''"] exI [of _ "''-''"] exI [of _ ?d] exI [of _ 18446744073709551615]) (simp add: c_isspace_def byte_val_def)
qed

text \<open>
  C32: every command line is either accepted or explained. One that is accepted gives a configuration
  within its documented ranges: the port, the output limit, the sample size and the tick interval;
  the server is never started with a zero output limit or a tick interval that blocks forever
  or spins. Otherwise the process ends with code 0 and the usage on \<^verbatim>\<open>stdout\<close>, or with code 2 and a
  message on \<^verbatim>\<open>stderr\<close>.
\<close>

theorem parse_args_in_range:
  "case parse_args argv0 args default_config False of
     Inr (c, verbose) \<Rightarrow>
       port c \<le> 65535 \<and> 1 \<le> max_output_buffer c \<and> max_output_buffer c \<le> 2 ^ 40 \<and>
       active_expire_samples c \<le> 100000 \<and> 1 \<le> tick_interval_ms c \<and> tick_interval_ms c \<le> 60000
   | Inl (code, out, err) \<Rightarrow> if code = 0 then out = usage argv0 \<and> err = [] else code = 2 \<and> err \<noteq> []"
proof (cases "parse_args argv0 args default_config False")
  case (Inl e)
  then show ?thesis using parse_args_exit [of argv0 args default_config False] by (cases e) auto
next
  case (Inr r)
  then show ?thesis
    using parse_args_ok [of argv0 args default_config False] config_ok_default by (cases r) (simp add: config_ok_def)
qed

theorem parse_args_in_range_witness:
  "\<exists>c v. parse_args ''kvsd'' [''--port'', ''0'', ''--verbose''] default_config False = Inr (c, v) \<and> port c \<le> 65535"
proof -
  have n: "take_number (Some ''0'') 0 65535 = Some 0"
    by (simp add: take_number_def parse_u64_def strtoull_def c_isspace_def is_digit_def byte_val_def Let_def)
  have "parse_args ''kvsd'' [''--port'', ''0'', ''--verbose''] default_config False = Inr (default_config\<lparr>port := 0\<rparr>, True)"
    by (simp add: parse_args.simps(2) Let_def n)
  then show ?thesis using parse_args_in_range [of "''kvsd''" "[''--port'', ''0'', ''--verbose'']"] by fastforce
qed

end
