(* ===== verification/Process.thy ===== *)
theory Process
  imports Descriptors Command_Line
begin

text \<open>
  The process of \<^verbatim>\<open>src/main.cpp\<close> around the server: the signal handlers and their flag, the loop of
  \<^verbatim>\<open>EventLoop::run\<close> over the poller's waits, and the order of events in \<^verbatim>\<open>main\<close>. A \<open>turn\<close> is what
  the environment does during one round of the loop: what the wait returns, what each \<^verbatim>\<open>read\<close> and
  the \<^verbatim>\<open>send\<close>s answer, and which signals arrive before the tick looks at the flag. The loop may
  run forever, so it is a partial function over an endless sequence of turns, and \<open>None\<close> means
  that it does.
\<close>

subsection \<open>Signals\<close>

datatype signal = SIGINT | SIGTERM | SIGPIPE

datatype disposition = SigDefault | SigIgnore | SigHandle

record process =
  srv :: server
  dispositions :: "signal \<Rightarrow> disposition"
  g_shutdown :: bool
  killed :: bool
  poll_slots :: "int list"
  poll_cap :: nat

definition new_process :: "server \<Rightarrow> process" where
  "new_process s =
     \<lparr>srv = s, dispositions = (\<lambda>sig. SigDefault), g_shutdown = False, killed = False, poll_slots = [],
      poll_cap = kInitialEventCapacity\<rparr>"

definition handle_signal :: "process \<Rightarrow> process" where
  "handle_signal p = p\<lparr>g_shutdown := True\<rparr>"

definition install_signal_handlers :: "process \<Rightarrow> process" where
  "install_signal_handlers p =
     p\<lparr>dispositions := (dispositions p)(SIGINT := SigHandle, SIGTERM := SigHandle, SIGPIPE := SigIgnore)\<rparr>"

text \<open>What the system does with a signal; the default of these three ends the process.\<close>

definition deliver :: "process \<Rightarrow> signal \<Rightarrow> process" where
  "deliver p sig =
     (case dispositions p sig of
        SigHandle \<Rightarrow> handle_signal p
      | SigIgnore \<Rightarrow> p
      | SigDefault \<Rightarrow> p\<lparr>killed := True\<rparr>)"

subsection \<open>The loop\<close>

datatype raw_wait = EpollWait "(int \<times> 32 word) wait_outcome" | KqueueWait "kevent wait_outcome"

record turn =
  t_wait :: raw_wait
  t_reads :: "int \<Rightarrow> read_outcome"
  t_sends :: "send_outcome list"
  t_signals :: "signal list"

text \<open>What is fixed over a run: the layout of the hash set and the constants of the system's headers.\<close>

record fixtures =
  fx_layout :: "nat \<Rightarrow> key fset \<Rightarrow> key list list"
  fx_epoll :: epoll_flags
  fx_kqueue :: kq_consts

definition poller_wait :: "fixtures \<Rightarrow> raw_wait \<Rightarrow> process \<Rightarrow> int \<times> poll_event list \<times> process" where
  "poller_wait X w p =
     (case w of
        EpollWait w \<Rightarrow>
          (let (n, out, cap) = epoll_poller_wait (fx_epoll X) (poll_cap p) w
           in (n, out, p\<lparr>poll_cap := cap\<rparr>))
      | KqueueWait w \<Rightarrow>
          (let (n, out, slots, cap) = kqueue_poller_wait (fx_kqueue X) (poll_slots p) (poll_cap p) w
           in (n, out, p\<lparr>poll_slots := slots, poll_cap := cap\<rparr>)))"

definition run_turn :: "fixtures \<Rightarrow> process \<Rightarrow> turn \<Rightarrow> process" where
  "run_turn X p t =
     (let (n, out, p) = poller_wait X (t_wait t) p;
          p = foldl deliver p (t_signals t);
          evs = (if n < 0 then None else Some (map (\<lambda>e. (e, t_reads t (ev_fd e))) out))
      in p\<lparr>srv := loop_body (fx_layout X) evs (g_shutdown p) (set_sends (t_sends t) (srv p))\<rparr>)"

partial_function (option) event_loop_run :: "fixtures \<Rightarrow> (nat \<Rightarrow> turn) \<Rightarrow> nat \<Rightarrow> process \<Rightarrow> process option" where
  "event_loop_run X T i p =
     (if running (sloop (srv p)) \<and> \<not> killed p then event_loop_run X T (Suc i) (run_turn X p (T i))
      else Some p)"

definition server_run :: "fixtures \<Rightarrow> (nat \<Rightarrow> turn) \<Rightarrow> process \<Rightarrow> process option" where
  "server_run X T p = event_loop_run X T 0 (p\<lparr>srv := begin_run (srv p)\<rparr>)"

subsection \<open>main\<close>

text \<open>
  How the process ends. \<open>early\<close> are the signals that arrive between the installation of the handlers
  and the loop; \<open>order\<close> is the order in which the destructor finds the connections in their table.
\<close>

datatype ending = BadArguments int bytes bytes | StartFailed bytes | Stopped | Killed

fun exit_code :: "ending \<Rightarrow> int option" where
  "exit_code (BadArguments code out err) = Some code"
| "exit_code (StartFailed err) = Some 1"
| "exit_code Stopped = Some 0"
| "exit_code Killed = None"

definition startup_failed_msg :: "bytes \<Rightarrow> bytes" where
  "startup_failed_msg err = ''startup failed: '' @ c_str err"

definition stopped_msg :: bytes where
  "stopped_msg = ''kvsd stopped''"

definition set_verbosity :: "bool \<Rightarrow> kernel \<Rightarrow> kernel" where
  "set_verbosity verbose k = (if verbose then k\<lparr>klog := set_min_level Debug (klog k)\<rparr> else k)"

definition main_run ::
  "fixtures \<Rightarrow> (nat \<Rightarrow> turn) \<Rightarrow> signal list \<Rightarrow> ((int \<rightharpoonup> conn) \<Rightarrow> int list) \<Rightarrow> bytes \<Rightarrow> bytes list \<Rightarrow> db \<Rightarrow> kernel \<Rightarrow>
   (ending \<times> kernel) option" where
  "main_run X T early order argv0 args d k =
     (case parse_args argv0 args default_config False of
        Inl (code, out, err) \<Rightarrow> Some (BadArguments code out err, k)
      | Inr (c, verbose) \<Rightarrow>
          (let p = install_signal_handlers (new_process (new_server c d (set_verbosity verbose k))) in
           case start (srv p) of
             (Some err, s) \<Rightarrow> Some (StartFailed err, kern (destroy [] (logs (log_error (startup_failed_msg err)) s)))
           | (None, s) \<Rightarrow>
               (case server_run X T (foldl deliver (p\<lparr>srv := s\<rparr>) early) of
                  None \<Rightarrow> None
                | Some p \<Rightarrow>
                    if killed p then Some (Killed, kern (srv p))
                    else Some (Stopped, kern (destroy (order (conns (srv p))) (logs (log_info stopped_msg) (srv p)))))))"

subsection \<open>A turn\<close>

text \<open>The handlers of events do not touch the flag that keeps the loop going, nor the interval of its waits.\<close>

definition pulse :: "server \<Rightarrow> bool \<times> int" where
  "pulse s = (running (sloop s), tick_interval (sloop s))"

lemma pulse_frame [simp]:
  "pulse (s\<lparr>kern := k\<rparr>) = pulse s" "pulse (s\<lparr>conns := m\<rparr>) = pulse s" "pulse (s\<lparr>spare_fd := f\<rparr>) = pulse s"
  "pulse (s\<lparr>listener_paused := b\<rparr>) = pulse s" "pulse (s\<lparr>sdb := d\<rparr>) = pulse s"
  by (simp_all add: pulse_def)

lemma steady_pulse: "steady s s' \<Longrightarrow> pulse s' = pulse s"
  by (simp add: steady_def pulse_def)

lemma reopen_spare_running: "reopen_spare_fd s = (ok, s') \<Longrightarrow> pulse s' = pulse s"
  by (auto simp: reopen_spare_fd_def split: if_splits prod.splits)

lemma register_running: "register fd cb s = (ok, s') \<Longrightarrow> pulse s' = pulse s"
  using steady_registers steady_pulse by blast

lemma pause_listener_running: "pulse (pause_listener s) = pulse s"
  using steady_pulse [OF steady_registration(2)] by (simp add: pause_listener_def Let_def)

lemma resume_listener_running: "pulse (resume_listener s) = pulse s"
proof -
  obtain ok1 s1 where r: "reopen_spare_fd s = (ok1, s1)" by fastforce
  obtain ok2 s2 where g: "register (listen_fd s1) ListenerCb s1 = (ok2, s2)" by fastforce
  show ?thesis using r g reopen_spare_running [OF r] register_running [OF g] by (simp add: resume_listener_def)
qed

lemma close_conn_running: "pulse (close_conn s c why) = pulse s"
  using steady_pulse [OF steady_registration(2)] by (simp add: close_conn_def resume_listener_running Let_def)

lemma shed_connection_running: "pulse (shed_connection s) = pulse s"
  by (auto simp: shed_connection_def pause_listener_running Let_def dest: reopen_spare_running split: prod.split)

lemma add_connection_running: "pulse (add_connection s fd) = pulse s"
  by (cases rule: add_connection_cases [of fd s]) (auto dest: register_running)

lemma accept_loop_running: "pulse (accept_loop n s) = pulse s"
proof (induction n arbitrary: s)
  case (Suc n)
  then show ?case
    by (auto simp: Let_def add_connection_running shed_connection_running split: prod.split accept_outcome.split)
qed simp

lemma stays_or_closes_running: "stays_or_closes s c (r, s') \<Longrightarrow> pulse s' = pulse s"
  by (auto simp: stays_or_closes_def close_conn_running dest: steady_pulse split: option.splits)

lemma on_conn_event_running: "pulse (on_conn_event s fd rd wr r) = pulse s"
proof (cases "conns s fd")
  case (Some c)
  obtain r1 s1 where one: "(if rd then handle_read s c r else (Some c, s)) = (r1, s1)" by fastforce
  have "stays_or_closes s c (r1, s1)" using one handle_read_descr [of s c r] by (auto simp: stays split: if_splits)
  then have s1: "pulse s1 = pulse s" by (rule stays_or_closes_running)
  show ?thesis
  proof (cases r1)
    case c1: (Some c1)
    obtain r2 s2 where two: "(if wr \<and> \<not> buf_empty (conn_out c1) then flush_output s1 c1 else (Some c1, s1)) = (r2, s2)"
      by fastforce
    have "stays_or_closes s1 c1 (r2, s2)" using two flush_output_descr [of s1 c1] by (auto simp: stays split: if_splits)
    then have "pulse s2 = pulse s1" by (rule stays_or_closes_running)
    then show ?thesis
      using one two c1 Some s1 by (cases r2) (simp_all add: on_conn_event_def Let_def close_conn_running)
  qed (use one Some s1 in \<open>simp add: on_conn_event_def\<close>)
qed (simp add: on_conn_event_def)

lemma dispatch_events_running: "pulse (foldl dispatch_event s evs) = pulse s"
proof (induction evs arbitrary: s)
  case (Cons e evs)
  have "pulse (dispatch_event s e) = pulse s"
    by (auto simp: dispatch_event_def on_conn_event_running on_listener_readable_def accept_loop_running
        split: option.split callback.split prod.split)
  then show ?case using Cons.IH by simp
qed simp

lemma loop_body_running:
  "running (sloop (loop_body lay evs sd s)) \<longleftrightarrow> running (sloop s) \<and> evs \<noteq> None \<and> \<not> sd"
  using dispatch_events_running [of s]
  by (auto simp: pulse_def loop_body_def on_tick_def loop_stop_def Let_def split: option.split prod.split)

lemma loop_body_interval: "tick_interval (sloop (loop_body lay evs sd s)) = tick_interval (sloop s)"
  using dispatch_events_running [of s]
  by (auto simp: pulse_def loop_body_def on_tick_def loop_stop_def Let_def split: option.split prod.split)

lemma reachable_interval: "reachable lay s0 s \<Longrightarrow> tick_interval (sloop s) = tick_interval (sloop s0)"
  by (induction rule: reachable.induct) (simp_all add: begin_run_def loop_body_interval)

lemma start_interval:
  assumes "start (new_server cf d k) = (None, s)" shows "tick_interval (sloop s) = tick_interval_ms cf"
  using assms
proof (cases rule: start_succeeds)
  case (1 lfd k1 ok s1 E L s2 L')
  have "cfg s1 = cf" using 1(2) by (auto simp: reopen_spare_fd_def new_server_def split: if_splits prod.splits)
  then have "tick_interval (sloop s2) = tick_interval_ms cf" using register_running [OF 1(3)] by (simp add: pulse_def)
  then show ?thesis using 1(4) bound_port_steady [of s2] by (simp add: steady_def)
qed

lemma stop_ends_loop: "event_loop_run X T i (p\<lparr>srv := server_stop (srv p)\<rparr>) = Some (p\<lparr>srv := server_stop (srv p)\<rparr>)"
  by (simp add: event_loop_run.simps server_stop_def loop_stop_def)

text \<open>When a turn is the last one.\<close>

fun wait_failed :: "raw_wait \<Rightarrow> bool" where
  "wait_failed (EpollWait w) \<longleftrightarrow> w = WaitError"
| "wait_failed (KqueueWait w) \<longleftrightarrow> w = WaitError"

definition stop_signal :: "signal list \<Rightarrow> bool" where
  "stop_signal sigs \<longleftrightarrow> SIGINT \<in> set sigs \<or> SIGTERM \<in> set sigs"

definition turn_ends :: "turn \<Rightarrow> bool" where
  "turn_ends t \<longleftrightarrow> wait_failed (t_wait t) \<or> stop_signal (t_signals t)"

definition guarded :: "process \<Rightarrow> bool" where
  "guarded p \<longleftrightarrow> dispositions p SIGINT = SigHandle \<and> dispositions p SIGTERM = SigHandle \<and>
     dispositions p SIGPIPE = SigIgnore \<and> \<not> killed p"

lemma guarded_installed: "guarded (install_signal_handlers (new_process s))"
  by (simp add: guarded_def install_signal_handlers_def new_process_def)

lemma deliver_signals:
  assumes "guarded p"
  shows "guarded (foldl deliver p sigs)" "g_shutdown (foldl deliver p sigs) \<longleftrightarrow> g_shutdown p \<or> stop_signal sigs"
    "srv (foldl deliver p sigs) = srv p"
proof -
  have "guarded (foldl deliver p sigs) \<and> (g_shutdown (foldl deliver p sigs) \<longleftrightarrow> g_shutdown p \<or> stop_signal sigs) \<and>
      srv (foldl deliver p sigs) = srv p"
    using assms
  proof (induction sigs arbitrary: p)
    case (Cons sig sigs)
    have "guarded (deliver p sig)" "g_shutdown (deliver p sig) \<longleftrightarrow> g_shutdown p \<or> sig \<noteq> SIGPIPE" "srv (deliver p sig) = srv p"
      using Cons.prems by (cases sig; simp add: deliver_def guarded_def handle_signal_def)+
    then show ?case using Cons.IH [of "deliver p sig"] by (cases sig) (auto simp: stop_signal_def)
  qed (simp add: stop_signal_def)
  then show "guarded (foldl deliver p sigs)" "g_shutdown (foldl deliver p sigs) \<longleftrightarrow> g_shutdown p \<or> stop_signal sigs"
    "srv (foldl deliver p sigs) = srv p" by blast+
qed

lemma poller_wait_facts:
  assumes "poller_wait X w p = (n, out, p')"
  shows "n < 0 \<longleftrightarrow> wait_failed w" "srv p' = srv p" "guarded p' = guarded p" "g_shutdown p' = g_shutdown p"
  using assms
  by (cases w; auto simp: poller_wait_def epoll_poller_wait_def kqueue_poller_wait_def guarded_def Let_def
      split: wait_outcome.splits prod.splits)+

text \<open>One turn, by what it hands to the loop body.\<close>

lemma run_turn_body:
  assumes "guarded p"
  obtains evs p' where "run_turn X p t = p'\<lparr>srv := loop_body (fx_layout X) evs (g_shutdown p') (set_sends (t_sends t) (srv p))\<rparr>"
    "evs = None \<longleftrightarrow> wait_failed (t_wait t)" "guarded p'" "g_shutdown p' \<longleftrightarrow> g_shutdown p \<or> stop_signal (t_signals t)"
proof -
  obtain n out p1 where w: "poller_wait X (t_wait t) p = (n, out, p1)" by (metis prod_cases3)
  note pw = poller_wait_facts [OF w]
  have g1: "guarded p1" using pw(3) assms by simp
  note d = deliver_signals [OF g1, of "t_signals t"]
  let ?evs = "if n < 0 then None else Some (map (\<lambda>e. (e, t_reads t (ev_fd e))) out)"
  have rt: "run_turn X p t = (foldl deliver p1 (t_signals t))\<lparr>srv := loop_body (fx_layout X) ?evs
      (g_shutdown (foldl deliver p1 (t_signals t))) (set_sends (t_sends t) (srv p))\<rparr>"
    using w d(3) pw(2) by (simp add: run_turn_def Let_def)
  have ev: "?evs = None \<longleftrightarrow> wait_failed (t_wait t)" using pw(1) by simp
  have "g_shutdown (foldl deliver p1 (t_signals t)) \<longleftrightarrow> g_shutdown p \<or> stop_signal (t_signals t)"
    using d(2) pw(4) by simp
  then show thesis by (rule that [OF rt ev d(1)])
qed

lemma run_turn_facts:
  assumes "guarded p"
  shows "guarded (run_turn X p t)"
    "g_shutdown (run_turn X p t) \<longleftrightarrow> g_shutdown p \<or> stop_signal (t_signals t)"
    "running (sloop (srv (run_turn X p t))) \<longleftrightarrow> running (sloop (srv p)) \<and> \<not> g_shutdown p \<and> \<not> turn_ends t"
proof -
  obtain evs p' where t: "run_turn X p t = p'\<lparr>srv := loop_body (fx_layout X) evs (g_shutdown p') (set_sends (t_sends t) (srv p))\<rparr>"
    "evs = None \<longleftrightarrow> wait_failed (t_wait t)" "guarded p'" "g_shutdown p' \<longleftrightarrow> g_shutdown p \<or> stop_signal (t_signals t)"
    using assms by (rule run_turn_body)
  show "guarded (run_turn X p t)" "g_shutdown (run_turn X p t) \<longleftrightarrow> g_shutdown p \<or> stop_signal (t_signals t)"
    using t by (simp_all add: guarded_def)
  show "running (sloop (srv (run_turn X p t))) \<longleftrightarrow> running (sloop (srv p)) \<and> \<not> g_shutdown p \<and> \<not> turn_ends t"
    using t by (auto simp: loop_body_running turn_ends_def set_sends_def)
qed

lemma run_turn_descr:
  assumes "guarded p" "descr_ok I (srv p)"
  shows "descr_ok I (srv (run_turn X p t))"
proof -
  have "steady (srv p) (set_sends (t_sends t) (srv p))"
    by (simp add: set_sends_def steady_def fd_state_def kernel_ok_def)
  with assms(2) have "descr_ok I (set_sends (t_sends t) (srv p))" by (rule steady_descr)
  then show ?thesis using run_turn_body [OF assms(1), of X t] by (metis loop_body_descr process.select_convs(1) process.surjective process.update_convs(1))
qed

subsection \<open>When the loop ends\<close>

abbreviation turns :: "fixtures \<Rightarrow> process \<Rightarrow> turn list \<Rightarrow> process" where
  "turns X p ts \<equiv> foldl (run_turn X) p ts"

lemma turns_facts:
  assumes "guarded p"
  shows "guarded (turns X p ts)" "g_shutdown (turns X p ts) \<longleftrightarrow> g_shutdown p \<or> (\<exists>t \<in> set ts. stop_signal (t_signals t))"
    "\<not> g_shutdown p \<Longrightarrow> \<forall>t \<in> set ts. \<not> turn_ends t \<Longrightarrow> running (sloop (srv (turns X p ts))) = running (sloop (srv p))"
proof -
  have "guarded (turns X p ts) \<and> (g_shutdown (turns X p ts) \<longleftrightarrow> g_shutdown p \<or> (\<exists>t \<in> set ts. stop_signal (t_signals t))) \<and>
      (\<not> g_shutdown p \<longrightarrow> (\<forall>t \<in> set ts. \<not> turn_ends t) \<longrightarrow> running (sloop (srv (turns X p ts))) = running (sloop (srv p)))"
    using assms
  proof (induction ts arbitrary: p)
    case (Cons t ts)
    note f = run_turn_facts [OF Cons.prems, of X t]
    show ?case using Cons.IH [OF f(1)] f(2,3) by (auto simp: turn_ends_def)
  qed simp
  then show "guarded (turns X p ts)" "g_shutdown (turns X p ts) \<longleftrightarrow> g_shutdown p \<or> (\<exists>t \<in> set ts. stop_signal (t_signals t))"
    "\<not> g_shutdown p \<Longrightarrow> \<forall>t \<in> set ts. \<not> turn_ends t \<Longrightarrow> running (sloop (srv (turns X p ts))) = running (sloop (srv p))"
    by blast+
qed

lemma turns_descr: "guarded p \<Longrightarrow> descr_ok I (srv p) \<Longrightarrow> descr_ok I (srv (turns X p ts))"
  by (induction ts arbitrary: p) (simp_all add: run_turn_descr run_turn_facts(1))

lemma event_loop_run_steps:
  assumes "guarded p" "running (sloop (srv p))" "\<not> g_shutdown p" "\<forall>j < n. \<not> turn_ends (T (i + j))"
  shows "event_loop_run X T i p = event_loop_run X T (i + n) (turns X p (map T [i..<i + n]))"
  using assms
proof (induction n arbitrary: i p)
  case (Suc n)
  note f = run_turn_facts [OF Suc.prems(1), of X "T i"]
  have t: "\<not> turn_ends (T i)" using Suc.prems(4) by (metis add.right_neutral zero_less_Suc)
  have "event_loop_run X T i p = event_loop_run X T (Suc i) (run_turn X p (T i))"
    using Suc.prems(1,2) by (subst event_loop_run.simps) (simp add: guarded_def)
  also have "\<dots> = event_loop_run X T (Suc i + n) (turns X (run_turn X p (T i)) (map T [Suc i..<Suc i + n]))"
  proof (rule Suc.IH)
    show "\<forall>j < n. \<not> turn_ends (T (Suc i + j))" using Suc.prems(4) by (metis Suc_less_eq add_Suc_shift)
  qed (use f t Suc.prems(2,3) in \<open>auto simp: turn_ends_def\<close>)
  moreover have "[i..<i + Suc n] = i # [Suc i..<Suc i + n]" using upt_conv_Cons [of i "i + Suc n"] by simp
  ultimately show ?case by simp
qed simp

text \<open>With a last turn the loop returns the state behind it.\<close>

lemma event_loop_run_returns:
  assumes "guarded p" "running (sloop (srv p))" "\<not> g_shutdown p" "\<forall>j < n. \<not> turn_ends (T j)" "turn_ends (T n)"
  shows "event_loop_run X T 0 p = Some (turns X p (map T [0..<Suc n]))"
proof -
  let ?q = "turns X p (map T [0..<n])"
  have ts: "\<forall>t \<in> set (map T [0..<n]). \<not> turn_ends t" using assms(4) by auto
  have q: "guarded ?q" "running (sloop (srv ?q))" using turns_facts [OF assms(1)] assms(2,3) ts by blast+
  note f = run_turn_facts [OF q(1), of X "T n"]
  have "event_loop_run X T 0 p = event_loop_run X T n ?q"
    using event_loop_run_steps [OF assms(1-3), of n T 0] assms(4) by simp
  also have "\<dots> = event_loop_run X T (Suc n) (run_turn X ?q (T n))"
    using q by (subst event_loop_run.simps) (simp add: guarded_def)
  also have "\<dots> = Some (run_turn X ?q (T n))" using f(3) assms(5) by (subst event_loop_run.simps) simp
  finally show ?thesis by simp
qed

text \<open>Without one it does not return.\<close>

lemma event_loop_run_diverges:
  assumes "event_loop_run X T i p = Some q"
  shows "guarded p \<longrightarrow> running (sloop (srv p)) \<longrightarrow> \<not> g_shutdown p \<longrightarrow> (\<exists>j. turn_ends (T j))"
proof (rule event_loop_run.raw_induct [OF _ assms])
  fix f X T i p q
  assume ih: "\<And>X T i p q. f X T i p = Some q \<Longrightarrow>
      guarded p \<longrightarrow> running (sloop (srv p)) \<longrightarrow> \<not> g_shutdown p \<longrightarrow> (\<exists>j. turn_ends (T j))"
    and body: "(if running (sloop (srv p)) \<and> \<not> killed p then f X T (Suc i) (run_turn X p (T i)) else Some p) = Some q"
  show "guarded p \<longrightarrow> running (sloop (srv p)) \<longrightarrow> \<not> g_shutdown p \<longrightarrow> (\<exists>j. turn_ends (T j))"
  proof (cases "turn_ends (T i)")
    case False
    then have "\<not> stop_signal (t_signals (T i))" by (simp add: turn_ends_def)
    then show ?thesis using ih body run_turn_facts [of p X "T i"] False by (auto simp: guarded_def split: if_splits)
  qed blast
qed

text \<open>When it returns, it was stopped.\<close>

lemma event_loop_run_stopped:
  assumes "event_loop_run X T i p = Some q"
  shows "\<not> running (sloop (srv q)) \<or> killed q"
proof (rule event_loop_run.raw_induct [OF _ assms])
  fix f X T i p q
  assume ih: "\<And>(X :: fixtures) T i p q. f X T i p = Some q \<Longrightarrow> \<not> running (sloop (srv q)) \<or> killed q"
    and body: "(if running (sloop (srv p)) \<and> \<not> killed p then f X T (Suc i) (run_turn X p (T i)) else Some p) = Some q"
  then show "\<not> running (sloop (srv q)) \<or> killed q" by (auto split: if_splits)
qed

text \<open>
  Both together, from any state with the handlers installed: a stop signal that came before the
  loop is seen by the first turn.
\<close>

definition last_turn :: "bool \<Rightarrow> (nat \<Rightarrow> turn) \<Rightarrow> nat" where
  "last_turn flag T = (LEAST i. flag \<or> turn_ends (T i))"

lemma event_loop_run_exact:
  assumes "guarded p" "running (sloop (srv p))"
  shows "event_loop_run X T 0 p =
    (if g_shutdown p \<or> (\<exists>i. turn_ends (T i)) then Some (turns X p (map T [0..<Suc (last_turn (g_shutdown p) T)])) else None)"
proof (cases "g_shutdown p")
  case True
  have "event_loop_run X T 0 p = event_loop_run X T 1 (run_turn X p (T 0))"
    using assms by (subst event_loop_run.simps) (simp add: guarded_def)
  also have "\<dots> = Some (run_turn X p (T 0))"
    using run_turn_facts(3) [OF assms(1), of X "T 0"] True by (subst event_loop_run.simps) simp
  finally show ?thesis using True by (simp add: last_turn_def)
next
  case False
  show ?thesis
  proof (cases "\<exists>i. turn_ends (T i)")
    case True
    have l: "last_turn False T = (LEAST i. turn_ends (T i))" by (simp add: last_turn_def)
    have "turn_ends (T (last_turn False T))" unfolding l using LeastI_ex [OF True] .
    moreover have "\<forall>j < last_turn False T. \<not> turn_ends (T j)" unfolding l using not_less_Least by blast
    ultimately have "event_loop_run X T 0 p = Some (turns X p (map T [0..<Suc (last_turn False T)]))"
      using event_loop_run_returns [OF assms False] by blast
    then show ?thesis using True False by simp
  next
    case no: False
    then show ?thesis using event_loop_run_diverges [of X T 0 p] assms False by (cases "event_loop_run X T 0 p") auto
  qed
qed

subsection \<open>The process as a whole\<close>

text \<open>Every state of the process between the turns is a reachable server.\<close>

lemma run_turn_reachable:
  assumes "guarded p" "reachable (fx_layout X) s0 (srv p)" "running (sloop (srv p))" "kernel_ok (kern (srv p))"
  shows "reachable (fx_layout X) s0 (srv (run_turn X p t))"
proof -
  let ?s = "set_sends (t_sends t) (srv p)"
  have "reachable (fx_layout X) s0 ?s"
    unfolding set_sends_def using assms(4) by (intro reach_kernel [OF assms(2)]) (simp_all add: kernel_ok_def fd_state_def)
  moreover have "running (sloop ?s)" using assms(3) by (simp add: set_sends_def)
  ultimately have "reachable (fx_layout X) s0 (loop_body (fx_layout X) evs sd ?s)" for evs sd by (rule reach_turn)
  then show ?thesis using run_turn_body [OF assms(1), of X t] by (metis process.select_convs(1) process.surjective process.update_convs(1))
qed

lemma turns_reachable:
  assumes "guarded p" "descr_ok I (srv p)" "reachable (fx_layout X) s0 (srv p)" "running (sloop (srv p))" "\<not> g_shutdown p"
    "\<forall>t \<in> set ts. \<not> turn_ends t"
  shows "reachable (fx_layout X) s0 (srv (turns X p (ts @ [t])))"
proof -
  have "reachable (fx_layout X) s0 (srv (turns X p ts))"
    using assms
  proof (induction ts arbitrary: p)
    case (Cons t ts)
    note f = run_turn_facts [OF Cons.prems(1), of X t]
    have "kernel_ok (kern (srv p))" using Cons.prems(2) by (simp add: descr_ok_def)
    then have "reachable (fx_layout X) s0 (srv (run_turn X p t))" using Cons.prems by (intro run_turn_reachable) auto
    moreover have "\<not> turn_ends t" using Cons.prems(6) by simp
    ultimately show ?case
      using Cons.IH [of "run_turn X p t"] Cons.prems f run_turn_descr [OF Cons.prems(1,2)] by (auto simp: turn_ends_def)
  qed simp
  moreover have "kernel_ok (kern (srv (turns X p ts)))" using turns_descr [OF assms(1,2)] by (simp add: descr_ok_def)
  moreover have "guarded (turns X p ts)" "running (sloop (srv (turns X p ts)))" using turns_facts [OF assms(1)] assms(4-6) by blast+
  ultimately show ?thesis by (simp add: run_turn_reachable)
qed

lemma begin_run_running [simp]: "running (sloop (begin_run s))"
  by (simp add: begin_run_def)

lemma begin_run_descr [simp]: "descr_ok I (begin_run s) = descr_ok I s"
  by (simp add: begin_run_def)

lemma guarded_srv [simp]: "guarded (p\<lparr>srv := s\<rparr>) = guarded p"
  by (simp add: guarded_def)

text \<open>The process at the moment \<^verbatim>\<open>run\<close> is called.\<close>

definition launched :: "signal list \<Rightarrow> server \<Rightarrow> process" where
  "launched early s = foldl deliver (install_signal_handlers (new_process s)) early"

lemma launched_facts:
  "guarded (launched early s)" "g_shutdown (launched early s) \<longleftrightarrow> stop_signal early" "srv (launched early s) = s"
  using deliver_signals [OF guarded_installed, of s early]
  by (simp_all add: launched_def install_signal_handlers_def new_process_def)

lemma server_run_exact:
  "server_run X T (launched early s) =
    (if stop_signal early \<or> (\<exists>i. turn_ends (T i))
     then Some (turns X ((launched early s)\<lparr>srv := begin_run s\<rparr>) (map T [0..<Suc (last_turn (stop_signal early) T)]))
     else None)"
  using event_loop_run_exact [of "(launched early s)\<lparr>srv := begin_run s\<rparr>" X T] launched_facts [of early s]
  by (simp add: server_run_def)

lemma main_run_start:
  "parse_args argv0 args default_config False = Inr (c, verbose) \<Longrightarrow>
   start (new_server c d (set_verbosity verbose k)) = (None, s) \<Longrightarrow>
   main_run X T early order argv0 args d k =
     (case server_run X T (launched early s) of
        None \<Rightarrow> None
      | Some p \<Rightarrow> if killed p then Some (Killed, kern (srv p))
                  else Some (Stopped, kern (destroy (order (conns (srv p))) (logs (log_info stopped_msg) (srv p)))))"
  by (simp add: main_run_def launched_def install_signal_handlers_def new_process_def)

lemma server_run_descr:
  assumes "descr_ok I s" "server_run X T (launched early s) = Some p"
  shows "descr_ok I (srv p)" "\<not> killed p"
proof -
  let ?p = "(launched early s)\<lparr>srv := begin_run s\<rparr>"
  have g: "guarded ?p" "descr_ok I (srv ?p)" using assms(1) launched_facts(1) by simp_all
  obtain ts where "p = turns X ?p ts" using assms(2) unfolding server_run_exact by (metis option.distinct(1) option.inject)
  then show "descr_ok I (srv p)" "\<not> killed p"
    using turns_descr [OF g] turns_facts(1) [OF g(1)] by (simp_all add: guarded_def)
qed

lemma descr_finite: "descr_ok I s \<Longrightarrow> finite (dom (conns s))"
proof -
  assume "descr_ok I s"
  then have "dom (conns s) \<subseteq> fset (open_fds (kern s))" by (auto simp: descr_ok_def held_def)
  then show ?thesis using finite_fset finite_subset by blast
qed

lemma main_run_descr:
  assumes "kernel_ok k" "\<And>m. finite (dom m) \<Longrightarrow> set (order m) = dom m"
    "main_run X T early order argv0 args d k = Some (r, k')"
  shows "r \<noteq> Killed" "fset (open_fds k') = fset (open_fds k)"
proof -
  have "r \<noteq> Killed \<and> fset (open_fds k') = fset (open_fds k)"
  proof (cases "parse_args argv0 args default_config False")
    case (Inl e)
    then show ?thesis using assms(3) by (auto simp: main_run_def split: prod.splits)
  next
    case (Inr cv)
    obtain c v where cv: "cv = (c, v)" by fastforce
    let ?k = "set_verbosity v k"
    have k: "kernel_ok ?k" "open_fds ?k = open_fds k" using assms(1) by (simp_all add: set_verbosity_def)
    obtain e s where st: "start (new_server c d ?k) = (e, s)" by fastforce
    show ?thesis
    proof (cases e)
      case None
      note d = start_descr [OF k(1), of c d s]
      have m: "main_run X T early order argv0 args d k =
         (case server_run X T (launched early s) of
            None \<Rightarrow> None
          | Some p \<Rightarrow> if killed p then Some (Killed, kern (srv p))
                      else Some (Stopped, kern (destroy (order (conns (srv p))) (logs (log_info stopped_msg) (srv p)))))"
        using Inr st cv None by (intro main_run_start) simp_all
      then obtain p where p: "server_run X T (launched early s) = Some p" using assms(3) by (cases "server_run X T (launched early s)") auto
      note sd = server_run_descr [OF _ p, of "fset (open_fds k)"]
      have "descr_ok (fset (open_fds k)) s" using d st None k(2) by simp
      then have pd: "descr_ok (fset (open_fds k)) (srv p)" "\<not> killed p" using sd by blast+
      then have "r = Stopped" "k' = kern (destroy (order (conns (srv p))) (logs (log_info stopped_msg) (srv p)))" using m p assms(3) by simp_all
      then show ?thesis
        using destroy_descr [of "fset (open_fds k)" "logs (log_info stopped_msg) (srv p)" "order (conns (srv p))"] pd(1)
          assms(2) [OF descr_finite [OF pd(1)]] by simp
    next
      case (Some err)
      then have "r = StartFailed err" "k' = kern (destroy [] (logs (log_error (startup_failed_msg err)) s))" using Inr cv st assms(3)
        by (simp_all add: main_run_def install_signal_handlers_def new_process_def)
      then show ?thesis using failed_start_descr [OF k(1)] st Some k(2) by simp
    qed
  qed
  then show "r \<noteq> Killed" "fset (open_fds k') = fset (open_fds k)" by blast+
qed

end
