(* ===== verification/Backends.thy ===== *)
theory Backends
  imports Poller Event_Loop
begin

text \<open>
  How the two backends keep the interest list (\<^verbatim>\<open>src/net/poller_epoll.cpp\<close>,
  \<^verbatim>\<open>src/net/poller_kqueue.cpp\<close>). epoll has one entry per descriptor with a mask; kqueue has one entry
  per descriptor and filter, and a registration is a list of changes that the kernel applies in
  order until one fails. The locale \<open>interest_backend\<close> states what the event loop relies on; it is
  interpreted on both backends and on the table that the kernel model keeps.
\<close>

subsection \<open>epoll\<close>

text \<open>\<open>ep_grants\<close> is a script: whether the kernel has the resources for the next call.\<close>

record epoll_instance =
  ep_table :: "int \<rightharpoonup> 32 word"
  ep_grants :: "nat \<Rightarrow> bool"

datatype ctl_op = CtlAdd | CtlMod | CtlDel

definition epoll_ctl :: "ctl_op \<Rightarrow> int \<Rightarrow> 32 word \<Rightarrow> epoll_instance \<Rightarrow> bool \<times> epoll_instance" where
  "epoll_ctl op fd events e =
     (let e' = e\<lparr>ep_grants := (\<lambda>i. ep_grants e (Suc i))\<rparr>; known = (ep_table e fd \<noteq> None) in
      case op of
        CtlAdd \<Rightarrow> if known \<or> \<not> ep_grants e 0 then (False, e') else (True, e'\<lparr>ep_table := (ep_table e)(fd \<mapsto> events)\<rparr>)
      | CtlMod \<Rightarrow> if \<not> known \<or> \<not> ep_grants e 0 then (False, e') else (True, e'\<lparr>ep_table := (ep_table e)(fd \<mapsto> events)\<rparr>)
      | CtlDel \<Rightarrow> if \<not> known then (False, e') else (True, e'\<lparr>ep_table := (ep_table e)(fd := None)\<rparr>))"

definition epoll_add :: "epoll_flags \<Rightarrow> int \<Rightarrow> bool \<Rightarrow> epoll_instance \<Rightarrow> bool \<times> epoll_instance" where
  "epoll_add F fd want_write e = epoll_ctl CtlAdd fd (interest_mask F want_write) e"

definition epoll_set_write_interest :: "epoll_flags \<Rightarrow> int \<Rightarrow> bool \<Rightarrow> epoll_instance \<Rightarrow> bool \<times> epoll_instance" where
  "epoll_set_write_interest F fd want_write e = epoll_ctl CtlMod fd (interest_mask F want_write) e"

definition epoll_del :: "int \<Rightarrow> epoll_instance \<Rightarrow> bool \<times> epoll_instance" where
  "epoll_del fd e = epoll_ctl CtlDel fd 0 e"

text \<open>Closing a descriptor takes it off the list.\<close>

definition epoll_closed :: "int \<Rightarrow> epoll_instance \<Rightarrow> epoll_instance" where
  "epoll_closed fd e = e\<lparr>ep_table := (ep_table e)(fd := None)\<rparr>"

definition epoll_wants :: "epoll_flags \<Rightarrow> epoll_instance \<Rightarrow> int \<rightharpoonup> bool" where
  "epoll_wants F e fd = map_option (\<lambda>m. m AND EPOLLOUT F \<noteq> 0) (ep_table e fd)"

text \<open>Every entry asks for readability; the flag for writability is one of its own.\<close>

definition epoll_ok :: "epoll_flags \<Rightarrow> epoll_instance \<Rightarrow> bool" where
  "epoll_ok F e \<longleftrightarrow> EPOLLOUT F \<noteq> 0 \<and> EPOLLIN F AND EPOLLOUT F = 0 \<and> EPOLLRDHUP F AND EPOLLOUT F = 0 \<and>
     (\<forall>fd m. ep_table e fd = Some m \<longrightarrow> m AND EPOLLIN F = EPOLLIN F)"

subsection \<open>kqueue\<close>

record kq_actions =
  EV_ADD :: "16 word"
  EV_DELETE :: "16 word"
  EV_ENABLE :: "16 word"
  EV_DISABLE :: "16 word"

record kqueue_instance =
  kq_filters :: "int \<times> int \<rightharpoonup> bool"
  kq_grants :: "nat \<Rightarrow> bool"

text \<open>
  One change: \<open>EV_ADD\<close> makes an entry or updates it, everything else needs one; an entry is enabled
  unless it is disabled explicitly. A list of changes stops at the first that fails.
\<close>

definition kq_change :: "kq_actions \<Rightarrow> kqueue_instance \<Rightarrow> kevent \<Rightarrow> bool \<times> kqueue_instance" where
  "kq_change A q e =
     (let q' = q\<lparr>kq_grants := (\<lambda>i. kq_grants q (Suc i))\<rparr>; key = (ident e, kfilter e); known = kq_filters q key in
      if (kflags e AND EV_ADD A = 0 \<and> known = None) \<or> (kflags e AND EV_ADD A \<noteq> 0 \<and> \<not> kq_grants q 0) then (False, q')
      else if kflags e AND EV_DELETE A \<noteq> 0 then (True, q'\<lparr>kq_filters := (kq_filters q)(key := None)\<rparr>)
      else (True, q'\<lparr>kq_filters := (kq_filters q)(key \<mapsto>
              (if kflags e AND EV_DISABLE A \<noteq> 0 then False
               else if kflags e AND EV_ENABLE A \<noteq> 0 then True
               else case known of None \<Rightarrow> True | Some b \<Rightarrow> b))\<rparr>))"

fun kq_changes :: "kq_actions \<Rightarrow> kqueue_instance \<Rightarrow> kevent list \<Rightarrow> bool \<times> kqueue_instance" where
  "kq_changes A q [] = (True, q)"
| "kq_changes A q (e # es) = (let (ok, q) = kq_change A q e in if ok then kq_changes A q es else (False, q))"

definition kqueue_add :: "kq_consts \<Rightarrow> kq_actions \<Rightarrow> int \<Rightarrow> bool \<Rightarrow> kqueue_instance \<Rightarrow> bool \<times> kqueue_instance" where
  "kqueue_add K A fd want_write q =
     kq_changes A q
       [\<lparr>ident = fd, kfilter = EVFILT_READ K, kflags = EV_ADD A OR EV_ENABLE A\<rparr>,
        \<lparr>ident = fd, kfilter = EVFILT_WRITE K, kflags = EV_ADD A OR (if want_write then EV_ENABLE A else EV_DISABLE A)\<rparr>]"

definition kqueue_set_write_interest ::
  "kq_consts \<Rightarrow> kq_actions \<Rightarrow> int \<Rightarrow> bool \<Rightarrow> kqueue_instance \<Rightarrow> bool \<times> kqueue_instance" where
  "kqueue_set_write_interest K A fd want_write q =
     kq_changes A q
       [\<lparr>ident = fd, kfilter = EVFILT_WRITE K, kflags = (if want_write then EV_ENABLE A else EV_DISABLE A)\<rparr>]"

definition kqueue_del :: "kq_consts \<Rightarrow> kq_actions \<Rightarrow> int \<Rightarrow> kqueue_instance \<Rightarrow> bool \<times> kqueue_instance" where
  "kqueue_del K A fd q =
     kq_changes A q
       [\<lparr>ident = fd, kfilter = EVFILT_READ K, kflags = EV_DELETE A\<rparr>,
        \<lparr>ident = fd, kfilter = EVFILT_WRITE K, kflags = EV_DELETE A\<rparr>]"

definition kqueue_closed :: "int \<Rightarrow> kqueue_instance \<Rightarrow> kqueue_instance" where
  "kqueue_closed fd q = q\<lparr>kq_filters := (\<lambda>key. if fst key = fd then None else kq_filters q key)\<rparr>"

definition kqueue_wants :: "kq_consts \<Rightarrow> kqueue_instance \<Rightarrow> int \<rightharpoonup> bool" where
  "kqueue_wants K q fd = (if kq_filters q (fd, EVFILT_READ K) = Some True then kq_filters q (fd, EVFILT_WRITE K) else None)"

text \<open>The two filters of a descriptor come and go together, and the read filter is always enabled.\<close>

definition kqueue_ok :: "kq_consts \<Rightarrow> kq_actions \<Rightarrow> kqueue_instance \<Rightarrow> bool" where
  "kqueue_ok K A q \<longleftrightarrow> EVFILT_READ K \<noteq> EVFILT_WRITE K \<and>
     EV_ADD A \<noteq> 0 \<and> EV_DELETE A \<noteq> 0 \<and> EV_ENABLE A \<noteq> 0 \<and> EV_DISABLE A \<noteq> 0 \<and>
     EV_ADD A AND EV_DELETE A = 0 \<and> EV_ADD A AND EV_ENABLE A = 0 \<and> EV_ADD A AND EV_DISABLE A = 0 \<and>
     EV_DELETE A AND EV_ENABLE A = 0 \<and> EV_DELETE A AND EV_DISABLE A = 0 \<and> EV_ENABLE A AND EV_DISABLE A = 0 \<and>
     (\<forall>fd. if kq_filters q (fd, EVFILT_READ K) = None then kq_filters q (fd, EVFILT_WRITE K) = None
           else kq_filters q (fd, EVFILT_READ K) = Some True \<and> kq_filters q (fd, EVFILT_WRITE K) \<noteq> None)"

text \<open>The timeout of a wait in milliseconds, as the \<^verbatim>\<open>timespec\<close> kqueue wants; negative is no timeout.\<close>

definition kq_timeout :: "int \<Rightarrow> (int \<times> int) option" where
  "kq_timeout timeout_ms =
     (if timeout_ms \<ge> 0 then Some (timeout_ms sdiv 1000, timeout_ms smod 1000 * 1000000) else None)"

subsection \<open>The contract of a backend\<close>

text \<open>
  What the server asks of the poller: to register an accepted descriptor, which is closed if that
  fails, to arm or disarm, to stop watching the listener, and to remove a descriptor that is then
  closed. The interest list is the book kept of the requests and their results.
\<close>

datatype poll_request = Register int bool | Arm int bool | Unwatch int | Remove int

record 's backend_ops =
  b_add :: "int \<Rightarrow> bool \<Rightarrow> 's \<Rightarrow> bool \<times> 's"
  b_set_write :: "int \<Rightarrow> bool \<Rightarrow> 's \<Rightarrow> bool \<times> 's"
  b_del :: "int \<Rightarrow> 's \<Rightarrow> bool \<times> 's"
  b_closed :: "int \<Rightarrow> 's \<Rightarrow> 's"

fun serve :: "'s backend_ops \<Rightarrow> 's \<Rightarrow> poll_request \<Rightarrow> bool \<times> 's" where
  "serve B s (Register fd w) = (let (ok, s) = b_add B fd w s in (ok, if ok then s else b_closed B fd s))"
| "serve B s (Arm fd w) = b_set_write B fd w s"
| "serve B s (Unwatch fd) = b_del B fd s"
| "serve B s (Remove fd) = (let (ok, s) = b_del B fd s in (ok, b_closed B fd s))"

fun serve_all :: "'s backend_ops \<Rightarrow> 's \<Rightarrow> poll_request list \<Rightarrow> (poll_request \<times> bool) list \<times> 's" where
  "serve_all B s [] = ([], s)"
| "serve_all B s (r # rs) = (let (ok, s) = serve B s r; (bs, s) = serve_all B s rs in ((r, ok) # bs, s))"

fun book :: "(int \<rightharpoonup> bool) \<Rightarrow> poll_request \<times> bool \<Rightarrow> int \<rightharpoonup> bool" where
  "book m (Register fd w, ok) = (if ok then m(fd \<mapsto> w) else m)"
| "book m (Arm fd w, ok) = (if ok then m(fd \<mapsto> w) else m)"
| "book m (Unwatch fd, ok) = m(fd := None)"
| "book m (Remove fd, ok) = m(fd := None)"

fun legal :: "(int \<rightharpoonup> bool) \<Rightarrow> poll_request \<Rightarrow> bool" where
  "legal m (Register fd w) \<longleftrightarrow> m fd = None"
| "legal m (Arm fd w) \<longleftrightarrow> m fd \<noteq> None"
| "legal m (Unwatch fd) \<longleftrightarrow> m fd \<noteq> None"
| "legal m (Remove fd) \<longleftrightarrow> m fd \<noteq> None"

fun legal_all :: "(int \<rightharpoonup> bool) \<Rightarrow> (poll_request \<times> bool) list \<Rightarrow> bool" where
  "legal_all m [] \<longleftrightarrow> True"
| "legal_all m ((r, ok) # bs) \<longleftrightarrow> legal m r \<and> legal_all (book m (r, ok)) bs"

text \<open>
  A descriptor that is registered is not yet on the list, one that is changed or removed is. A
  registration that fails may leave a part behind, which the close that follows takes away.
\<close>

locale interest_backend =
  fixes ok :: "'s \<Rightarrow> bool"
    and wants :: "'s \<Rightarrow> int \<rightharpoonup> bool"
    and add :: "int \<Rightarrow> bool \<Rightarrow> 's \<Rightarrow> bool \<times> 's"
    and set_write :: "int \<Rightarrow> bool \<Rightarrow> 's \<Rightarrow> bool \<times> 's"
    and del :: "int \<Rightarrow> 's \<Rightarrow> bool \<times> 's"
    and closed :: "int \<Rightarrow> 's \<Rightarrow> 's"
  assumes add_True: "ok s \<Longrightarrow> wants s fd = None \<Longrightarrow> add fd w s = (True, s') \<Longrightarrow> ok s' \<and> wants s' = (wants s)(fd \<mapsto> w)"
    and add_False: "ok s \<Longrightarrow> wants s fd = None \<Longrightarrow> add fd w s = (False, s') \<Longrightarrow>
      ok (closed fd s') \<and> wants (closed fd s') = wants s"
    and set_write_True: "ok s \<Longrightarrow> wants s fd \<noteq> None \<Longrightarrow> set_write fd w s = (True, s') \<Longrightarrow> ok s' \<and> wants s' = (wants s)(fd \<mapsto> w)"
    and set_write_False: "ok s \<Longrightarrow> wants s fd \<noteq> None \<Longrightarrow> set_write fd w s = (False, s') \<Longrightarrow> ok s' \<and> wants s' = wants s"
    and del_closed: "ok s \<Longrightarrow> wants s fd \<noteq> None \<Longrightarrow> del fd s = (b, s') \<Longrightarrow>
      b \<and> ok s' \<and> wants s' = (wants s)(fd := None) \<and> ok (closed fd s') \<and> wants (closed fd s') = (wants s)(fd := None)"

begin

lemma serve_keeps_book:
  assumes "ok s" "legal (wants s) r" "B = \<lparr>b_add = add, b_set_write = set_write, b_del = del, b_closed = closed\<rparr>"
    "serve B s r = (b, s')"
  shows "ok s' \<and> wants s' = book (wants s) (r, b)"
proof (cases r)
  case (Register fd w)
  then show ?thesis
    using assms add_True [of s fd w] add_False [of s fd w] by (auto split: prod.splits if_splits)
next
  case (Arm fd w)
  then show ?thesis
    using assms set_write_True [of s fd w s'] set_write_False [of s fd w s'] by (cases b) auto
next
  case (Unwatch fd)
  then show ?thesis using assms del_closed [of s fd b s'] by auto
next
  case (Remove fd)
  then show ?thesis using assms del_closed [of s fd] by (auto split: prod.splits)
qed

lemma serve_all_keeps_book:
  "ok s \<Longrightarrow> B = \<lparr>b_add = add, b_set_write = set_write, b_del = del, b_closed = closed\<rparr> \<Longrightarrow>
   serve_all B s rs = (bs, s') \<Longrightarrow> legal_all (wants s) bs \<Longrightarrow> ok s' \<and> wants s' = foldl book (wants s) bs"
proof (induction rs arbitrary: s bs)
  case (Cons r rs)
  obtain b s1 where one: "serve B s r = (b, s1)" by fastforce
  obtain bs1 s2 where two: "serve_all B s1 rs = (bs1, s2)" by fastforce
  have bs: "bs = (r, b) # bs1" "s' = s2" using Cons.prems(3) one two by simp_all
  have k: "ok s1 \<and> wants s1 = book (wants s) (r, b)"
    using serve_keeps_book [OF Cons.prems(1) _ Cons.prems(2) one] Cons.prems(4) bs(1) by simp
  then show ?case using Cons.IH [of s1 bs1] Cons.prems(2,4) two bs by simp
qed simp

end

subsection \<open>The contract holds\<close>

lemma mask_out:
  assumes "epoll_ok F e"
  shows "interest_mask F w AND EPOLLOUT F \<noteq> 0 \<longleftrightarrow> w" "interest_mask F w AND EPOLLIN F = EPOLLIN F"
proof -
  have d: "EPOLLOUT F \<noteq> 0" "EPOLLIN F AND EPOLLOUT F = 0" "EPOLLRDHUP F AND EPOLLOUT F = 0"
    using assms by (simp_all add: epoll_ok_def)
  then show "interest_mask F w AND EPOLLOUT F \<noteq> 0 \<longleftrightarrow> w"
    by (auto simp: interest_mask_def Let_def bit.conj_disj_distrib2)
  show "interest_mask F w AND EPOLLIN F = EPOLLIN F"
    by (auto simp: interest_mask_def Let_def bit_eq_iff bit_simps)
qed

interpretation ep: interest_backend "epoll_ok F" "epoll_wants F" "epoll_add F" "epoll_set_write_interest F" epoll_del epoll_closed for F
proof
  fix s s' :: epoll_instance and fd w b
  assume ok: "epoll_ok F s"
  note m = mask_out [OF ok]
  show "epoll_ok F s' \<and> epoll_wants F s' = (epoll_wants F s)(fd \<mapsto> w)"
    if "epoll_wants F s fd = None" "epoll_add F fd w s = (True, s')"
    using ok that m
    by (auto simp: epoll_add_def epoll_ctl_def epoll_wants_def epoll_ok_def fun_eq_iff Let_def split: if_splits)
  show "epoll_ok F (epoll_closed fd s') \<and> epoll_wants F (epoll_closed fd s') = epoll_wants F s"
    if "epoll_wants F s fd = None" "epoll_add F fd w s = (False, s')"
    using ok that
    by (auto simp: epoll_add_def epoll_ctl_def epoll_wants_def epoll_ok_def epoll_closed_def fun_eq_iff Let_def split: if_splits)
  show "epoll_ok F s' \<and> epoll_wants F s' = (epoll_wants F s)(fd \<mapsto> w)"
    if "epoll_wants F s fd \<noteq> None" "epoll_set_write_interest F fd w s = (True, s')"
    using ok that m
    by (auto simp: epoll_set_write_interest_def epoll_ctl_def epoll_wants_def epoll_ok_def fun_eq_iff Let_def split: if_splits)
  show "epoll_ok F s' \<and> epoll_wants F s' = epoll_wants F s"
    if "epoll_wants F s fd \<noteq> None" "epoll_set_write_interest F fd w s = (False, s')"
    using ok that
    by (auto simp: epoll_set_write_interest_def epoll_ctl_def epoll_wants_def epoll_ok_def fun_eq_iff Let_def split: if_splits)
  show "b \<and> epoll_ok F s' \<and> epoll_wants F s' = (epoll_wants F s)(fd := None) \<and> epoll_ok F (epoll_closed fd s') \<and>
      epoll_wants F (epoll_closed fd s') = (epoll_wants F s)(fd := None)"
    if "epoll_wants F s fd \<noteq> None" "epoll_del fd s = (b, s')"
    using ok that
    by (auto simp: epoll_del_def epoll_ctl_def epoll_wants_def epoll_ok_def epoll_closed_def fun_eq_iff Let_def split: if_splits)
qed

text \<open>For kqueue, first what each list of changes does to the table.\<close>

lemma action_bits:
  assumes "kqueue_ok K A q"
  shows "(EV_ADD A OR EV_ENABLE A) AND EV_ADD A \<noteq> 0" "(EV_ADD A OR EV_DISABLE A) AND EV_ADD A \<noteq> 0"
    "(EV_ADD A OR EV_ENABLE A) AND EV_DELETE A = 0" "(EV_ADD A OR EV_DISABLE A) AND EV_DELETE A = 0"
    "(EV_ADD A OR EV_ENABLE A) AND EV_DISABLE A = 0" "(EV_ADD A OR EV_DISABLE A) AND EV_DISABLE A \<noteq> 0"
    "(EV_ADD A OR EV_ENABLE A) AND EV_ENABLE A \<noteq> 0"
    "EV_ENABLE A AND EV_ADD A = 0" "EV_DISABLE A AND EV_ADD A = 0" "EV_DELETE A AND EV_ADD A = 0"
    "EV_ENABLE A AND EV_DELETE A = 0" "EV_DISABLE A AND EV_DELETE A = 0" "EV_ENABLE A AND EV_DISABLE A = 0"
    "EV_DELETE A \<noteq> 0" "EV_DISABLE A \<noteq> 0" "EV_ENABLE A \<noteq> 0" "EVFILT_READ K \<noteq> EVFILT_WRITE K"
proof -
  have d: "EV_ADD A AND EV_DELETE A = 0" "EV_ADD A AND EV_ENABLE A = 0" "EV_ADD A AND EV_DISABLE A = 0"
    "EV_DELETE A AND EV_ENABLE A = 0" "EV_DELETE A AND EV_DISABLE A = 0" "EV_ENABLE A AND EV_DISABLE A = 0"
    "EV_ADD A \<noteq> 0" "EV_DELETE A \<noteq> 0" "EV_ENABLE A \<noteq> 0" "EV_DISABLE A \<noteq> 0" "EVFILT_READ K \<noteq> EVFILT_WRITE K"
    using assms by (simp_all add: kqueue_ok_def)
  have c: "EV_DELETE A AND EV_ADD A = 0" "EV_ENABLE A AND EV_ADD A = 0" "EV_DISABLE A AND EV_ADD A = 0"
    "EV_ENABLE A AND EV_DELETE A = 0" "EV_DISABLE A AND EV_DELETE A = 0" "EV_DISABLE A AND EV_ENABLE A = 0"
    using d(1-6) by (simp_all add: and.commute)
  show "(EV_ADD A OR EV_ENABLE A) AND EV_ADD A \<noteq> 0" "(EV_ADD A OR EV_DISABLE A) AND EV_ADD A \<noteq> 0"
    "(EV_ADD A OR EV_ENABLE A) AND EV_DELETE A = 0" "(EV_ADD A OR EV_DISABLE A) AND EV_DELETE A = 0"
    "(EV_ADD A OR EV_ENABLE A) AND EV_DISABLE A = 0" "(EV_ADD A OR EV_DISABLE A) AND EV_DISABLE A \<noteq> 0"
    "(EV_ADD A OR EV_ENABLE A) AND EV_ENABLE A \<noteq> 0"
    "EV_ENABLE A AND EV_ADD A = 0" "EV_DISABLE A AND EV_ADD A = 0" "EV_DELETE A AND EV_ADD A = 0"
    "EV_ENABLE A AND EV_DELETE A = 0" "EV_DISABLE A AND EV_DELETE A = 0" "EV_ENABLE A AND EV_DISABLE A = 0"
    "EV_DELETE A \<noteq> 0" "EV_DISABLE A \<noteq> 0" "EV_ENABLE A \<noteq> 0" "EVFILT_READ K \<noteq> EVFILT_WRITE K"
    using c d by (simp_all add: bit.conj_disj_distrib2)
qed

lemma kqueue_add_table:
  assumes "kqueue_ok K A q"
  shows "kqueue_add K A fd w q = (True, q') \<Longrightarrow>
      kq_filters q' = (kq_filters q)((fd, EVFILT_READ K) \<mapsto> True, (fd, EVFILT_WRITE K) \<mapsto> w)"
    "kqueue_add K A fd w q = (False, q') \<Longrightarrow>
      kq_filters q' = kq_filters q \<or> kq_filters q' = (kq_filters q)((fd, EVFILT_READ K) \<mapsto> True)"
  using action_bits [OF assms] by (auto simp: kqueue_add_def kq_change_def Let_def split: if_splits)

lemma kqueue_set_write_table:
  assumes "kqueue_ok K A q"
  shows "kqueue_set_write_interest K A fd w q = (True, q') \<Longrightarrow> kq_filters q' = (kq_filters q)((fd, EVFILT_WRITE K) \<mapsto> w)"
    "kqueue_set_write_interest K A fd w q = (False, q') \<Longrightarrow> kq_filters q' = kq_filters q"
  using action_bits [OF assms] by (auto simp: kqueue_set_write_interest_def kq_change_def Let_def split: if_splits)

lemma kqueue_del_table:
  assumes "kqueue_ok K A q" "kqueue_wants K q fd \<noteq> None" "kqueue_del K A fd q = (b, q')"
  shows "b" "kq_filters q' = (kq_filters q)((fd, EVFILT_READ K) := None, (fd, EVFILT_WRITE K) := None)"
  using action_bits [OF assms(1)] assms(2,3)
  by (auto simp: kqueue_del_def kqueue_wants_def kq_change_def Let_def split: if_splits)

text \<open>Changing the entries of one descriptor, together.\<close>

lemma kqueue_entry:
  assumes "kqueue_ok K A q" "\<And>f x. f \<noteq> fd \<Longrightarrow> kq_filters q' (f, x) = kq_filters q (f, x)"
    "kq_filters q' (fd, EVFILT_READ K) = map_option (\<lambda>v. True) p" "kq_filters q' (fd, EVFILT_WRITE K) = p"
  shows "kqueue_ok K A q' \<and> kqueue_wants K q' = (kqueue_wants K q)(fd := p)"
proof
  have t: "if kq_filters q (f, EVFILT_READ K) = None then kq_filters q (f, EVFILT_WRITE K) = None
      else kq_filters q (f, EVFILT_READ K) = Some True \<and> kq_filters q (f, EVFILT_WRITE K) \<noteq> None" for f
    using assms(1) by (simp add: kqueue_ok_def)
  have "if kq_filters q' (f, EVFILT_READ K) = None then kq_filters q' (f, EVFILT_WRITE K) = None
      else kq_filters q' (f, EVFILT_READ K) = Some True \<and> kq_filters q' (f, EVFILT_WRITE K) \<noteq> None" for f
    using t [of f] assms(2) [of f] assms(3,4) by (cases "f = fd"; cases p) simp_all
  then show "kqueue_ok K A q'" using assms(1) by (simp add: kqueue_ok_def)
  show "kqueue_wants K q' = (kqueue_wants K q)(fd := p)"
  proof
    fix f
    show "kqueue_wants K q' f = ((kqueue_wants K q)(fd := p)) f"
      using assms(2) [of f] assms(3,4) by (cases "f = fd"; cases p) (simp_all add: kqueue_wants_def)
  qed
qed

lemma kqueue_pair:
  assumes "kqueue_ok K A q"
  shows "kqueue_wants K q fd = None \<Longrightarrow> kq_filters q (fd, EVFILT_READ K) = None \<and> kq_filters q (fd, EVFILT_WRITE K) = None"
    "kqueue_wants K q fd \<noteq> None \<Longrightarrow> kq_filters q (fd, EVFILT_READ K) = Some True"
proof -
  have "if kq_filters q (fd, EVFILT_READ K) = None then kq_filters q (fd, EVFILT_WRITE K) = None
      else kq_filters q (fd, EVFILT_READ K) = Some True \<and> kq_filters q (fd, EVFILT_WRITE K) \<noteq> None"
    using assms by (simp add: kqueue_ok_def)
  then show "kqueue_wants K q fd = None \<Longrightarrow> kq_filters q (fd, EVFILT_READ K) = None \<and> kq_filters q (fd, EVFILT_WRITE K) = None"
    "kqueue_wants K q fd \<noteq> None \<Longrightarrow> kq_filters q (fd, EVFILT_READ K) = Some True"
    by (auto simp: kqueue_wants_def split: if_splits)
qed

interpretation kq: interest_backend "kqueue_ok K A" "kqueue_wants K" "kqueue_add K A" "kqueue_set_write_interest K A"
  "kqueue_del K A" kqueue_closed for K A
proof
  fix s s' :: kqueue_instance and fd w b
  assume ok: "kqueue_ok K A s"
  note rw = action_bits(17) [OF ok]
  show "kqueue_ok K A s' \<and> kqueue_wants K s' = (kqueue_wants K s)(fd \<mapsto> w)"
    if "kqueue_wants K s fd = None" "kqueue_add K A fd w s = (True, s')"
    using kqueue_add_table(1) [OF ok that(2)] rw by (intro kqueue_entry [OF ok]) simp_all
  show "kqueue_ok K A (kqueue_closed fd s') \<and> kqueue_wants K (kqueue_closed fd s') = kqueue_wants K s"
    if "kqueue_wants K s fd = None" "kqueue_add K A fd w s = (False, s')"
  proof -
    have "kqueue_ok K A (kqueue_closed fd s') \<and> kqueue_wants K (kqueue_closed fd s') = (kqueue_wants K s)(fd := None)"
      using kqueue_add_table(2) [OF ok that(2)] by (intro kqueue_entry [OF ok]) (auto simp: kqueue_closed_def)
    then show ?thesis using that(1) by (simp add: fun_upd_idem)
  qed
  show "kqueue_ok K A s' \<and> kqueue_wants K s' = (kqueue_wants K s)(fd \<mapsto> w)"
    if "kqueue_wants K s fd \<noteq> None" "kqueue_set_write_interest K A fd w s = (True, s')"
    using kqueue_set_write_table(1) [OF ok that(2)] rw kqueue_pair(2) [OF ok that(1)] by (intro kqueue_entry [OF ok]) simp_all
  show "kqueue_ok K A s' \<and> kqueue_wants K s' = kqueue_wants K s"
    if "kqueue_wants K s fd \<noteq> None" "kqueue_set_write_interest K A fd w s = (False, s')"
    using kqueue_set_write_table(2) [OF ok that(2)] ok by (simp add: kqueue_wants_def kqueue_ok_def fun_eq_iff)
  show "b \<and> kqueue_ok K A s' \<and> kqueue_wants K s' = (kqueue_wants K s)(fd := None) \<and> kqueue_ok K A (kqueue_closed fd s') \<and>
      kqueue_wants K (kqueue_closed fd s') = (kqueue_wants K s)(fd := None)"
    if "kqueue_wants K s fd \<noteq> None" "kqueue_del K A fd s = (b, s')"
  proof -
    note t = kqueue_del_table [OF ok that]
    have "kqueue_ok K A s' \<and> kqueue_wants K s' = (kqueue_wants K s)(fd := None)"
      using t rw by (intro kqueue_entry [OF ok]) simp_all
    moreover have "kqueue_ok K A (kqueue_closed fd s') \<and> kqueue_wants K (kqueue_closed fd s') = (kqueue_wants K s)(fd := None)"
      using t by (intro kqueue_entry [OF ok]) (simp_all add: kqueue_closed_def)
    ultimately show ?thesis using t(1) by blast
  qed
qed

text \<open>The table of the kernel model, on which the server is proved, meets the same contract.\<close>

interpretation kt: interest_backend "\<lambda>k. True" interest poller_add poller_set_write_interest poller_del sys_close
  by unfold_locales
    (auto simp: poller_add_def poller_set_write_interest_def poller_del_def sys_close_def Let_def fun_eq_iff split: if_splits)

lemma kq_timeout_exact:
  assumes "0 \<le> ms" "kq_timeout ms = Some (sec, nsec)"
  shows "sec * 1000000000 + nsec = ms * 1000000" "0 \<le> nsec" "nsec < 1000000000" "0 \<le> sec"
proof -
  have sn: "sec = ms div 1000" "nsec = ms mod 1000 * 1000000"
    using assms by (auto simp: kq_timeout_def signed_modulo_int_def sdiv_pos_eq sgn_if split: if_splits)
  have "(q * 1000 + m) * 1000000 = q * 1000000000 + m * 1000000" for q m :: int by simp
  from this [of "ms div 1000" "ms mod 1000"] show "sec * 1000000000 + nsec = ms * 1000000" by (simp add: sn)
  show "0 \<le> nsec" "nsec < 1000000000" "0 \<le> sec" using assms(1) pos_mod_bound [of 1000 ms] by (simp_all add: sn)
qed

text \<open>The operations of the three, as the server calls them.\<close>

definition epoll_ops :: "epoll_flags \<Rightarrow> epoll_instance backend_ops" where
  "epoll_ops F = \<lparr>b_add = epoll_add F, b_set_write = epoll_set_write_interest F, b_del = epoll_del, b_closed = epoll_closed\<rparr>"

definition kqueue_ops :: "kq_consts \<Rightarrow> kq_actions \<Rightarrow> kqueue_instance backend_ops" where
  "kqueue_ops K A =
     \<lparr>b_add = kqueue_add K A, b_set_write = kqueue_set_write_interest K A, b_del = kqueue_del K A, b_closed = kqueue_closed\<rparr>"

definition kernel_ops :: "kernel backend_ops" where
  "kernel_ops = \<lparr>b_add = poller_add, b_set_write = poller_set_write_interest, b_del = poller_del, b_closed = sys_close\<rparr>"

end
