(* ===== verification/Server_Log.thy ===== *)
theory Server_Log
  imports Process "HOL-Library.Sublist"
begin

text \<open>
  What the server writes to the log. The log only grows and the minimal level stays what \<^verbatim>\<open>main\<close> has
  made it; with the level for debugging, the lines about accepted and closed connections balance
  with the connections there are.
\<close>

subsection \<open>Additions to the log\<close>

definition logged :: "(log_line \<Rightarrow> bool) \<Rightarrow> logger \<Rightarrow> logger \<Rightarrow> bool" where
  "logged P L L' \<longleftrightarrow> g_min_level L' = g_min_level L \<and> (\<exists>ls. stderr L' = stderr L @ ls \<and> list_all P ls)"

lemma logged_refl [simp]: "logged P L L"
  by (simp add: logged_def)

lemma logged_trans: "logged P L L' \<Longrightarrow> logged P L' L'' \<Longrightarrow> logged P L L''"
  unfolding logged_def by (metis append.assoc list_all_append)

lemma logged_mono: "logged P L L' \<Longrightarrow> (\<And>l. P l \<Longrightarrow> Q l) \<Longrightarrow> logged Q L L'"
  unfolding logged_def list_all_iff by blast

lemma vwrite_logged: "(\<And>st. P (st, level, msg)) \<Longrightarrow> logged P L (vwrite level msg L)"
  by (auto simp: vwrite_def logged_def split: prod.split)

lemmas log_calls = log_debug_def log_info_def log_warn_def log_error_def

text \<open>The lines that say that a connection has come or goes.\<close>

definition announces :: "bytes \<Rightarrow> log_line \<Rightarrow> bool" where
  "announces word l \<longleftrightarrow> (case l of (st, level, msg) \<Rightarrow> level = Debug \<and> prefix word msg)"

definition log_count :: "bytes \<Rightarrow> logger \<Rightarrow> nat" where
  "log_count word L = length (filter (announces word) (stderr L))"

definition bystander :: "log_line \<Rightarrow> bool" where
  "bystander l \<longleftrightarrow> \<not> announces ''accepted '' l \<and> \<not> announces ''closing '' l"

lemma bystander_level: "level \<noteq> Debug \<Longrightarrow> bystander (st, level, msg)"
  by (simp add: bystander_def announces_def)

lemma bystander_reclaimed: "bystander (st, level, reclaimed_msg n)"
  by (simp add: bystander_def announces_def reclaimed_msg_def)

lemma log_count_bystander:
  assumes "logged bystander L L'"
  shows "log_count ''accepted '' L' = log_count ''accepted '' L" "log_count ''closing '' L' = log_count ''closing '' L"
proof -
  obtain ls where ls: "stderr L' = stderr L @ ls" "list_all bystander ls" using assms by (auto simp: logged_def)
  then have "filter (announces ''accepted '') ls = []" "filter (announces ''closing '') ls = []"
    by (auto simp: filter_empty_conv list_all_iff bystander_def)
  then show "log_count ''accepted '' L' = log_count ''accepted '' L" "log_count ''closing '' L' = log_count ''closing '' L"
    using ls(1) by (simp_all add: log_count_def)
qed

subsection \<open>The balance\<close>

definition balanced :: "server \<Rightarrow> bool" where
  "balanced s \<longleftrightarrow> finite (dom (conns s)) \<and> g_min_level (klog (kern s)) = Debug \<and>
     log_count ''accepted '' (klog (kern s)) = log_count ''closing '' (klog (kern s)) + connection_count s"

text \<open>What every handler does to the log.\<close>

definition log_kept :: "server \<Rightarrow> server \<Rightarrow> bool" where
  "log_kept s s' \<longleftrightarrow> logged (\<lambda>l. True) (klog (kern s)) (klog (kern s')) \<and> (balanced s \<longrightarrow> balanced s')"

lemma log_kept_refl [simp]: "log_kept s s"
  by (simp add: log_kept_def)

lemma log_kept_trans: "log_kept s s' \<Longrightarrow> log_kept s' s'' \<Longrightarrow> log_kept s s''"
  using logged_trans by (auto simp: log_kept_def)

text \<open>Most of it has nothing to do with connections.\<close>

definition aside :: "server \<Rightarrow> server \<Rightarrow> bool" where
  "aside s s' \<longleftrightarrow> conns s' = conns s \<and> logged bystander (klog (kern s)) (klog (kern s'))"

lemma aside_refl [simp]: "aside s s"
  by (simp add: aside_def)

lemma aside_trans: "aside s s' \<Longrightarrow> aside s' s'' \<Longrightarrow> aside s s''"
  using logged_trans by (auto simp: aside_def)

lemma aside_log_kept: "aside s s' \<Longrightarrow> log_kept s s'"
  using log_count_bystander [of "klog (kern s)" "klog (kern s')"] logged_mono [of bystander "klog (kern s)" "klog (kern s')"]
  by (auto simp: aside_def log_kept_def balanced_def connection_count_def logged_def)

lemma aside_same: "conns s' = conns s \<Longrightarrow> klog (kern s') = klog (kern s) \<Longrightarrow> aside s s'"
  by (simp add: aside_def)

lemma aside_logs:
  "aside s (logs (log_info m) s)" "aside s (logs (log_warn m) s)" "aside s (logs (log_error m) s)"
  "aside s (logs (log_debug (reclaimed_msg n)) s)"
  by (simp_all add: aside_def log_calls vwrite_logged bystander_level bystander_reclaimed)

lemma klog_calls [simp]:
  "klog (snd (sys_call k)) = klog k" "klog (snd (set_nonblocking fd k)) = klog k" "klog (snd (set_tcp_nodelay fd k)) = klog k"
  "klog (snd (suppress_sigpipe fd k)) = klog k" "klog (snd (peer_name fd k)) = klog k" "klog (snd (local_port fd k)) = klog k"
  "klog (sys_close fd k) = klog k" "klog (snd (sys_open k)) = klog k" "klog (snd (snd (sys_accept k))) = klog k"
  "klog (snd (poller_create k)) = klog k" "klog (snd (listen_on a p b k)) = klog k"
  by (auto simp: set_nonblocking_def set_tcp_nodelay_def suppress_sigpipe_def peer_name_def local_port_def sys_close_def
      sys_open_def sys_accept_def poller_create_defs listen_on_def sys_setsockopt_def sys_getpeername_def sys_getsockname_def
      sys_getfl_def sys_setfl_def sys_socket_def sys_bind_def sys_listen_def sys_call_def Let_def split: option.split prod.split backend.split)

subsection \<open>The listener\<close>

lemma reopen_aside: "reopen_spare_fd s = (ok, s') \<Longrightarrow> aside s s'"
  by (auto simp: reopen_spare_fd_def sys_open_def Let_def aside_same split: if_splits)

lemma register_aside: "register fd cb s = (ok, s') \<Longrightarrow> aside s s'"
  by (auto simp: register_def loop_add_def poller_add_def Let_def aside_same split: if_splits prod.splits)

lemma unregister_aside: "aside s (unregister fd s)"
  by (auto simp: unregister_def loop_remove_def poller_del_def aside_same split: option.split prod.split)

lemma pause_aside: "aside s (pause_listener s)"
proof (cases "listener_paused s")
  case False
  let ?s = "(unregister (listen_fd s) s)\<lparr>listener_paused := True\<rparr>"
  have "aside s ?s" using unregister_aside [of s "listen_fd s"] by (simp add: aside_def)
  from aside_trans [OF this aside_logs(2)] show ?thesis using False by (simp add: pause_listener_def Let_def)
qed (simp add: pause_listener_def)

lemma resume_aside: "aside s (resume_listener s)"
proof (cases "listener_paused s")
  case True
  obtain ok1 s1 where r: "reopen_spare_fd s = (ok1, s1)" by fastforce
  obtain ok2 s2 where g: "register (listen_fd s1) ListenerCb s1 = (ok2, s2)" by fastforce
  have a: "aside s s1" "aside s s2" using reopen_aside [OF r] register_aside [OF g] aside_trans by blast+
  then have "aside s (s2\<lparr>listener_paused := False\<rparr>)" by (simp add: aside_def)
  then have "aside s (logs (log_info resumed_msg) (s2\<lparr>listener_paused := False\<rparr>))" "aside s (logs (log_error not_resumed_msg) s2)"
    using a(2) aside_trans aside_logs(1,3) by blast+
  then show ?thesis using True r g a(1) by (simp add: resume_listener_def)
qed (simp add: resume_listener_def)

lemma shed_aside: "aside s (shed_connection s)"
proof (cases "0 \<le> spare_fd s")
  case True
  obtain r fd k where a: "sys_accept (sys_close (spare_fd s) (kern s)) = (r, fd, k)" by (metis prod_cases3)
  let ?s2 = "s\<lparr>spare_fd := - 1, kern := if fd \<ge> 0 then sys_close fd k else k\<rparr>" let ?m = "shed_msg (connection_count ?s2)"
  obtain ok s3 where ro: "reopen_spare_fd (logs (log_warn ?m) ?s2) = (ok, s3)" by fastforce
  have "klog k = klog (kern s)" using a klog_calls(9) [of "sys_close (spare_fd s) (kern s)"] by simp
  then have "aside s ?s2" by (simp add: aside_same)
  then have "aside s (logs (log_warn ?m) ?s2)" using aside_logs(2) by (rule aside_trans)
  then have s3: "aside s s3" using reopen_aside [OF ro] by (rule aside_trans)
  moreover from s3 have "aside s (pause_listener s3)" using pause_aside by (rule aside_trans)
  moreover have "shed_connection s = (if ok then s3 else pause_listener s3)"
    using True a ro by (simp add: shed_connection_def Let_def)
  ultimately show ?thesis by simp
qed (simp add: shed_connection_def pause_aside)

subsection \<open>Connections come and go\<close>

lemma log_count_debug:
  assumes "g_min_level L = Debug"
  shows "log_count w (log_debug m L) = log_count w L + (if prefix w m then 1 else 0)" "g_min_level (log_debug m L) = Debug"
  using assms by (auto simp: log_debug_def vwrite_def log_count_def announces_def less_log_level_def split: prod.split)

lemma prefix_accepted: "prefix ''accepted '' (accepted_msg p fd n)" "\<not> prefix ''closing '' (accepted_msg p fd n)"
  by (simp_all add: accepted_msg_def)

lemma prefix_closing: "prefix ''closing '' (closing_msg p fd m)" "\<not> prefix ''accepted '' (closing_msg p fd m)"
  by (simp_all add: closing_msg_def)

lemma debug_logged: "logged (\<lambda>l. True) L (log_debug m L)"
  by (simp add: log_debug_def vwrite_logged)

text \<open>A connection is announced as it is put into the table.\<close>

lemma accept_announced:
  assumes "conns s fd = None" "s' = s\<lparr>kern := (kern s)\<lparr>klog := log_debug (accepted_msg p fd n) (klog (kern s))\<rparr>, conns := (conns s)(fd \<mapsto> c)\<rparr>"
  shows "log_kept s s'"
proof -
  have "fd \<notin> dom (conns s)" using assms(1) by auto
  then show ?thesis
    using log_count_debug [of "klog (kern s)"] debug_logged prefix_accepted
    by (auto simp: assms(2) log_kept_def balanced_def connection_count_def)
qed

lemma close_announced:
  assumes "conns s fd \<noteq> None" "s' = s\<lparr>kern := (kern s)\<lparr>klog := log_debug (closing_msg p fd m) (klog (kern s))\<rparr>, conns := (conns s)(fd := None)\<rparr>"
  shows "log_kept s s'"
proof -
  have "fd \<in> dom (conns s)" using assms(1) by auto
  then have "finite (dom (conns s)) \<Longrightarrow> card (dom (conns s)) = Suc (card (dom (conns s) - {fd}))"
    using card.remove by fastforce
  then show ?thesis
    using log_count_debug [of "klog (kern s)"] debug_logged prefix_closing
    by (auto simp: assms(2) log_kept_def balanced_def connection_count_def)
qed

lemma add_connection_log:
  assumes "conns s fd = None"
  shows "log_kept s (add_connection s fd)"
proof -
  obtain err k1 where n: "set_nonblocking fd (kern s) = (err, k1)" by fastforce
  have l1: "klog k1 = klog (kern s)" using klog_calls(2) [of fd "kern s"] n by simp
  let ?k2 = "snd (set_tcp_nodelay fd k1)" let ?k3 = "snd (suppress_sigpipe fd ?k2)" let ?k4 = "snd (peer_name fd ?k3)"
  let ?peer = "fst (peer_name fd ?k3)"
  obtain ok s2 where r: "register fd ConnCb (s\<lparr>kern := ?k4\<rparr>) = (ok, s2)" by fastforce
  have "aside s (s\<lparr>kern := ?k4\<rparr>)" using l1 by (simp add: aside_same)
  then have a2: "aside s s2" using register_aside [OF r] by (rule aside_trans)
  show ?thesis
  proof (cases err)
    case (Some e)
    let ?s = "logs (log_error (rejected_msg e)) (s\<lparr>kern := k1\<rparr>)"
    have "aside s (s\<lparr>kern := k1\<rparr>)" using l1 by (simp add: aside_same)
    then have "aside s ?s" using aside_logs(3) by (rule aside_trans)
    then have "aside s (?s\<lparr>kern := sys_close fd (kern ?s)\<rparr>)" by (simp add: aside_def)
    then show ?thesis using n Some by (simp add: add_connection_def aside_log_kept)
  next
    case None
    have "log_kept s (add_connection s fd)" if "\<not> ok"
    proof -
      let ?s = "logs (log_error (unregistered_msg ?peer)) s2"
      have "aside s ?s" using a2 aside_logs(3) by (rule aside_trans)
      then have "aside s (?s\<lparr>kern := sys_close fd (kern ?s)\<rparr>)" by (simp add: aside_def)
      then show ?thesis using n None r that by (simp add: add_connection_def case_prod_beta Let_def aside_log_kept)
    qed
    moreover have "log_kept s (add_connection s fd)" if ok
    proof -
      have "conns s2 fd = None" using a2 assms by (simp add: aside_def)
      from log_kept_trans [OF aside_log_kept [OF a2] accept_announced [OF this refl]] show ?thesis
        using n None r that by (simp add: add_connection_def case_prod_beta Let_def)
    qed
    ultimately show ?thesis by blast
  qed
qed

lemma close_conn_log:
  assumes "conns s (conn_fd c) \<noteq> None"
  shows "log_kept s (close_conn s c why)"
proof -
  let ?fd = "conn_fd c" let ?s0 = "logs (log_debug (closing_msg (conn_peer c) ?fd why)) s" let ?s1 = "unregister ?fd ?s0"
  let ?s2 = "?s1\<lparr>kern := sys_close ?fd (kern ?s1), conns := (conns ?s1)(?fd := None)\<rparr>"
  have u: "conns ?s1 = conns s" "klog (kern ?s1) = log_debug (closing_msg (conn_peer c) ?fd why) (klog (kern s))"
    by (auto simp: unregister_def loop_remove_def poller_del_def split: option.split prod.split)
  have "log_kept s (s\<lparr>kern := (kern s)\<lparr>klog := log_debug (closing_msg (conn_peer c) ?fd why) (klog (kern s))\<rparr>, conns := (conns s)(?fd := None)\<rparr>)"
    using close_announced [OF assms refl] .
  then have "log_kept s ?s2" using u by (simp add: log_kept_def balanced_def connection_count_def)
  from log_kept_trans [OF this aside_log_kept [OF resume_aside]] show ?thesis by (simp add: close_conn_def Let_def)
qed

lemma accept_loop_log: "inv_but X s \<Longrightarrow> log_kept s (accept_loop n s)"
proof (induction n arbitrary: s)
  case (Suc n)
  obtain r fd k where a: "sys_accept (kern s) = (r, fd, k)" by (metis prod_cases3)
  note sa = sys_accept_inv [OF Suc.prems a]
  let ?s = "s\<lparr>kern := k\<rparr>"
  have "klog k = klog (kern s)" using a klog_calls(9) [of "kern s"] by simp
  then have one: "aside s ?s" "aside s (s\<lparr>kern := k\<lparr>errnos := E\<rparr>\<rparr>)" for E by (simp_all add: aside_same)
  have "log_kept s (accept_loop n (add_connection ?s fd))" if "r = AcceptReady"
  proof -
    have "inv_but X (add_connection ?s fd)" using sa that by (intro add_connection_inv) auto
    from Suc.IH [OF this] show ?thesis
      using log_kept_trans [OF aside_log_kept [OF one(1)] add_connection_log [of ?s fd]] sa that log_kept_trans by auto
  qed
  moreover have "log_kept s (accept_loop n ?s)" "log_kept s (shed_connection ?s)" "log_kept s ?s"
    using Suc.IH [OF sa(1)] aside_log_kept [OF one(1)] aside_log_kept [OF shed_aside] log_kept_trans by blast+
  moreover have "log_kept s (logs (log_error m) (s\<lparr>kern := k\<lparr>errnos := E\<rparr>\<rparr>))" for m E
    using aside_trans [OF one(2) aside_logs(3)] by (rule aside_log_kept)
  ultimately show ?case using a by (auto simp: Let_def split: accept_outcome.split)
qed simp

subsection \<open>The data path\<close>

text \<open>A function on a connection writes lines of no account, and may close the connection as its last act.\<close>

definition aside_or_closes :: "server \<Rightarrow> conn \<Rightarrow> conn option \<times> server \<Rightarrow> bool" where
  "aside_or_closes s c r \<longleftrightarrow>
     (case r of
        (Some c', s') \<Rightarrow> aside s s' \<and> conn_fd c' = conn_fd c
      | (None, s') \<Rightarrow> \<exists>s1 c1 why. aside s s1 \<and> conn_fd c1 = conn_fd c \<and> s' = close_conn s1 c1 why)"

lemma goes_aside: "aside s s' \<Longrightarrow> conn_fd c' = conn_fd c \<Longrightarrow> aside_or_closes s c (Some c', s')"
  by (simp add: aside_or_closes_def)

lemma aside_closes: "aside s s' \<Longrightarrow> conn_fd c' = conn_fd c \<Longrightarrow> aside_or_closes s c (None, close_conn s' c' why)"
  by (auto simp: aside_or_closes_def)

lemma aside_or_closes_from:
  "aside_or_closes s' c' r \<Longrightarrow> aside s s' \<Longrightarrow> conn_fd c' = conn_fd c \<Longrightarrow> aside_or_closes s c r"
  unfolding aside_or_closes_def using aside_trans by (auto split: prod.splits option.splits)

lemma flush_output_log: "aside_or_closes s c (flush_output s c)"
proof -
  obtain ok os out w where l: "send_loop (sends (kern s)) (conn_out c) (wire (kern s) (conn_fd c)) = (ok, os, out, w)"
    by (metis prod_cases4)
  let ?s = "s\<lparr>kern := (kern s)\<lparr>sends := os, wire := (wire (kern s))(conn_fd c := w)\<rparr>\<rparr>"
  have st: "aside s ?s" "aside s (?s\<lparr>kern := (kern ?s)\<lparr>errnos := E\<rparr>\<rparr>)" for E by (simp_all add: aside_same)
  have "aside s (arm_write (conn_fd c) b ?s)" for b
    by (simp add: aside_same arm_write_def loop_set_write_interest_def poller_set_write_interest_def Let_def)
  then show ?thesis using l st by (simp add: flush_output_def Let_def goes_aside aside_closes)
qed

lemma input_loop_log: "aside_or_closes s c (input_loop s c)"
proof (induction s c rule: input_loop.induct)
  case (1 s c)
  obtain st p b where p: "parse (conn_parser c) (conn_in c) = (st, p, b)" by (metis prod_cases3)
  show ?case
  proof (cases st)
    case (Complete argv)
    let ?x = "dispatch (fresh_ctx argv (conn_out c) (sdb s))"
    have p': "(Complete argv, p, b) = parse (conn_parser c) (conn_in c)" using p Complete by simp
    have d: "aside s (s\<lparr>sdb := cdb ?x\<rparr>)" by (simp add: aside_same)
    have "aside_or_closes s c (input_loop s (c\<lparr>conn_parser := p, conn_in := b\<rparr>))" if "argv = []"
      using "1.IH"(1) [OF p' refl refl that] by (rule aside_or_closes_from) simp_all
    moreover have "aside_or_closes s c (input_loop (s\<lparr>sdb := cdb ?x\<rparr>) (c\<lparr>conn_parser := p, conn_in := b, conn_out := cout ?x\<rparr>))"
      if "argv \<noteq> []" "\<not> close_after_reply ?x" "\<not> readable (cout ?x) > max_output_buffer (cfg s)"
      using "1.IH"(2) [OF p' refl refl that(1) refl that(2,3)] d by (rule aside_or_closes_from) simp
    moreover have "aside_or_closes s c (None, close_conn (logs (log_warn m) (s\<lparr>sdb := cdb ?x\<rparr>)) c why)" for m why
      using aside_trans [OF d aside_logs(2)] by (rule aside_closes) simp
    ultimately show ?thesis
      using p Complete d by (subst input_loop.simps) (auto simp: Let_def intro: goes_aside)
  qed (use p aside_logs(2) in \<open>simp_all add: input_loop.simps [of s c] goes_aside\<close>)
qed

lemma process_input_log: "aside_or_closes s c (process_input s c)"
proof -
  obtain r s' where l: "input_loop s c = (r, s')" by fastforce
  show ?thesis
  proof (cases r)
    case None
    then show ?thesis using input_loop_log [of s c] l by (simp add: process_input_def)
  next
    case (Some c')
    then have "aside s s'" "conn_fd c' = conn_fd c" using input_loop_log [of s c] l by (simp_all add: aside_or_closes_def)
    then show ?thesis using flush_output_log [of s' c'] l Some by (auto simp: process_input_def intro: aside_or_closes_from)
  qed
qed

lemma handle_read_log: "aside_or_closes s c (handle_read s c r)"
proof (cases r)
  case (ReadBytes bs)
  have "aside_or_closes s c (process_input s (c\<lparr>conn_in := b\<rparr>))" for b
    using process_input_log by (rule aside_or_closes_from) simp_all
  then show ?thesis using ReadBytes by (simp add: handle_read_def Let_def aside_closes)
qed (simp_all add: handle_read_def goes_aside aside_closes aside_same)

lemma aside_or_closes_log:
  assumes "conns s (conn_fd c) \<noteq> None" "aside_or_closes s c (r, s')"
  shows "log_kept s s'" "r = Some c' \<Longrightarrow> conns s' (conn_fd c) \<noteq> None \<and> conn_fd c' = conn_fd c"
proof -
  have "log_kept s (close_conn s1 c1 why)" if "aside s s1" "conn_fd c1 = conn_fd c" for s1 c1 why
    using log_kept_trans [OF aside_log_kept [OF that(1)] close_conn_log [of s1 c1 why]] that assms(1) by (simp add: aside_def)
  then show "log_kept s s'" "r = Some c' \<Longrightarrow> conns s' (conn_fd c) \<noteq> None \<and> conn_fd c' = conn_fd c"
    using assms aside_log_kept by (auto simp: aside_or_closes_def aside_def split: option.splits)
qed

text \<open>An event after its read.\<close>

lemma event_rest_log:
  assumes "conns s fd = Some c" "(if rd then handle_read s c r else (Some c, s)) = (r1, s1)"
    "\<And>c1. r1 = Some c1 \<Longrightarrow> conns s1 fd \<noteq> None \<and> conn_fd c1 = fd"
  shows "log_kept s1 (on_conn_event s fd rd wr r)"
proof (cases r1)
  case None
  then show ?thesis using assms(1,2) by (simp add: on_conn_event_def)
next
  case c1: (Some c1)
  note f1 = assms(3) [OF c1]
  obtain r2 s2 where two: "(if wr \<and> \<not> buf_empty (conn_out c1) then flush_output s1 c1 else (Some c1, s1)) = (r2, s2)"
    by fastforce
  have "aside_or_closes s1 c1 (r2, s2)" using two flush_output_log [of s1 c1] by (auto simp: goes_aside split: if_splits)
  note d2 = aside_or_closes_log [OF _ this]
  have k2: "log_kept s1 s2" using d2(1) f1 by simp
  show ?thesis
  proof (cases r2)
    case None
    then show ?thesis using k2 assms(1,2) two c1 by (simp add: on_conn_event_def)
  next
    case c2: (Some c2)
    have f2: "conns s2 fd \<noteq> None" "conn_fd c2 = fd" using d2(2) [of c2] c2 f1 by simp_all
    let ?s = "s2\<lparr>conns := (conns s2)(fd \<mapsto> c2)\<rparr>"
    have "dom (conns ?s) = dom (conns s2)" using f2(1) by auto
    then have "log_kept s2 ?s" by (simp add: log_kept_def balanced_def connection_count_def)
    then have "log_kept s1 ?s" using k2 log_kept_trans by blast
    moreover have "log_kept s1 (close_conn ?s c2 why)" for why using calculation close_conn_log [of ?s c2] f2(2) log_kept_trans by auto
    ultimately show ?thesis using f2 assms(1,2) two c1 c2 by (simp add: on_conn_event_def Let_def)
  qed
qed

lemma on_conn_event_log:
  assumes "\<And>c. conns s fd = Some c \<Longrightarrow> conn_fd c = fd" shows "log_kept s (on_conn_event s fd rd wr r)"
proof (cases "conns s fd")
  case (Some c)
  have fd: "conn_fd c = fd" using assms Some by simp
  obtain r1 s1 where one: "(if rd then handle_read s c r else (Some c, s)) = (r1, s1)" by fastforce
  have "aside_or_closes s c (r1, s1)" using one handle_read_log [of s c r] by (auto simp: goes_aside split: if_splits)
  note d1 = aside_or_closes_log [OF _ this]
  have "log_kept s1 (on_conn_event s fd rd wr r)" using event_rest_log [OF Some one] d1(2) Some fd by simp
  then show ?thesis using d1(1) Some fd log_kept_trans by auto
qed (simp add: on_conn_event_def)

text \<open>A protocol error is reported with the parser's words.\<close>

lemma vwrite_last: "g_min_level L \<le> level \<Longrightarrow> \<exists>st. stderr (vwrite level msg L) = stderr L @ [(st, level, msg)]"
  by (auto simp: vwrite_def not_less [symmetric] split: prod.split)

lemma protocol_error_logged:
  assumes "server_inv s" "conns s fd = Some c" "bs \<noteq> []" "length bs \<le> kReadChunk"
    "parse_bytes (conn_parser c) (buf_contents (conn_in c) @ bs) = (ParseError e, p', r')" "g_min_level (klog (kern s)) \<le> Warn"
  shows "\<exists>st. (st, Warn, protocol_msg (conn_peer c) e) \<in> set (stderr (klog (kern (on_conn_event s fd True wr (ReadBytes bs)))))"
proof -
  define b where "b = commit (write_at (ensure_writable (conn_in c) kReadChunk) bs) (length bs)"
  let ?c = "c\<lparr>conn_in := b\<rparr>" let ?t = "logs (log_warn (protocol_msg (conn_peer c) e)) s"
  have ih: "in_hand fd s ?c" and cb: "buf_contents b = buf_contents (conn_in c) @ bs"
    using read_in_hand [OF at_rest(1) [OF assms(1,2)] refl refl, of bs] assms(4) by (simp_all add: b_def)
  obtain st p b' where pr: "parse (conn_parser ?c) (conn_in ?c) = (st, p, b')" by (metis prod_cases3)
  have "st = ParseError e" using parse_in_hand(4) [OF ih pr] assms(5) cb by simp
  then obtain ci where il: "input_loop s ?c = (Some ci, ?t)" "conn_fd ci = conn_fd c"
    using pr by (simp add: input_loop.simps [of s ?c])
  have fd: "conn_fd ci = fd" using ih il(2) by (simp add: in_hand_def)
  obtain oc1 s1 where fl: "flush_output ?t ci = (oc1, s1)" by fastforce
  have e1: "(if True then handle_read s c (ReadBytes bs) else (Some c, s)) = (oc1, s1)"
    using assms(3,4) il(1) fl by (simp add: handle_read_bytes process_input_def b_def)
  have "aside_or_closes ?t ci (oc1, s1)" using flush_output_log [of ?t ci] fl by simp
  note d = aside_or_closes_log [OF _ this]
  have "log_kept s1 (on_conn_event s fd True wr (ReadBytes bs))"
    using event_rest_log [OF assms(2) e1] d(2) assms(2) fd by simp
  then have "log_kept ?t (on_conn_event s fd True wr (ReadBytes bs))" using d(1) assms(2) fd log_kept_trans by auto
  then show ?thesis
    using vwrite_last [OF assms(6), of "protocol_msg (conn_peer c) e"] by (auto simp: log_kept_def logged_def log_warn_def)
qed

text \<open>The byte in place of a length is quoted as it came, a line feed too.\<close>

lemma lf_quoted:
  obtains e p' r' b a where "parse_bytes (new_parser default_limits) (''*1'' @ CRLF @ [LF] @ CRLF) = (ParseError e, p', r')"
    "e = b @ [LF] @ a" "CHR 0x00 \<notin> set b"
proof -
  let ?p = "new_parser default_limits" let ?bs = "''*1'' @ CRLF @ [LF] @ CRLF"
  have f: "find_crlf ?bs = Some 2" "find_crlf ([LF] @ CRLF) = Some 1" "string_to_int64 ''1'' = Some 1" by code_simp+
  let ?q = "?p\<lparr>args_remaining := 1, pargv := [], pstate := ArgLen\<rparr>"
  let ?b = "''Protocol error: expected '' @ [SQUOTE] @ ''$'' @ [SQUOTE] @ '', got '' @ [SQUOTE]"
  have one: "parse_case ?p ?bs = (None, ?q, Some 4)"
    using f(1,3) by (simp add: parse_case_def parse_start_def new_parser_def default_limits_def)
  have two: "parse_case ?q ([LF] @ CRLF) = (Some (ParseError (?b @ [LF] @ [SQUOTE])), parser_reset ?q, None)"
    using f(2) by (simp add: parse_case_def parse_arg_len_def fail_def)
  have "parse_bytes ?p ?bs = (ParseError (?b @ [LF] @ [SQUOTE]), parser_reset ?q, [LF] @ CRLF)"
    using one two by (simp add: parse_bytes.simps [of ?p] parse_bytes.simps [of ?q])
  then show thesis by (rule that [OF _ refl]) simp
qed

subsection \<open>The life of the process\<close>

lemma dispatch_event_log: "server_inv s \<Longrightarrow> log_kept s (dispatch_event s er)"
proof -
  assume i: "server_inv s"
  then have "conns s fd = Some c \<Longrightarrow> conn_fd c = fd" for fd c by (auto simp: server_inv_def inv_defs)
  then show ?thesis
    using i accept_loop_log [of "{}" s]
    by (auto simp: dispatch_event_def on_listener_readable_def server_inv_def intro!: on_conn_event_log
        split: option.split callback.split prod.split)
qed

lemma batch_log: "server_inv s \<Longrightarrow> log_kept s (foldl dispatch_event s evs)"
proof (induction evs arbitrary: s)
  case (Cons e evs)
  have "server_inv (dispatch_event s e)" using batch_inv [OF Cons.prems, of "[e]"] by simp
  from log_kept_trans [OF dispatch_event_log [OF Cons.prems] Cons.IH [OF this]] show ?case by simp
qed simp

lemma on_tick_log: "log_kept s (on_tick lay sd s)"
proof -
  obtain r d where e: "active_expire_cycle lay (active_expire_samples (cfg s)) (sdb s) = (r, d)" by fastforce
  let ?s1 = "s\<lparr>sdb := d\<rparr>" let ?s2 = "if r > 0 then logs (log_debug (reclaimed_msg r)) ?s1 else ?s1"
  have "aside s ?s1" by (simp add: aside_same)
  then have a: "aside s ?s2" using aside_trans [OF _ aside_logs(4), of s ?s1 r] by simp
  then have "aside s (logs (log_info m) ?s2)" for m using aside_logs(1) by (rule aside_trans)
  then have "aside s ((logs (log_info m) ?s2)\<lparr>sloop := l\<rparr>)" for m l by (simp add: aside_def)
  then show ?thesis using e aside_log_kept [OF a] by (simp add: on_tick_def Let_def aside_log_kept)
qed

lemma loop_body_log: "server_inv s \<Longrightarrow> log_kept s (loop_body lay evs sd s)"
proof (cases evs)
  case (Some es)
  assume "server_inv s"
  then have "log_kept s (on_tick lay sd (foldl dispatch_event s es))" using batch_log on_tick_log log_kept_trans by blast
  then show ?thesis using Some by (simp add: loop_body_def Let_def log_kept_def balanced_def connection_count_def)
qed (simp add: loop_body_def log_kept_def balanced_def connection_count_def)

lemma reachable_log: "reachable lay s0 s \<Longrightarrow> server_inv s0 \<Longrightarrow> log_kept s0 s"
proof (induction rule: reachable.induct)
  case reach_start
  then show ?case by (simp add: begin_run_def log_kept_def balanced_def connection_count_def)
next
  case (reach_turn s evs shutdown)
  then show ?case using loop_body_log reachable_inv log_kept_trans by blast
next
  case (reach_kernel s k)
  then show ?case by (simp add: log_kept_def balanced_def connection_count_def)
qed

text \<open>What a start writes.\<close>

lemma bound_port_log: "klog (kern (snd (bound_port s))) = klog (kern s)"
  by (simp add: bound_port_def case_prod_beta)

lemma start_aside: "aside s (snd (start s))"
proof -
  obtain r k1 where l: "listen_on (bind_addr (cfg s)) (word_of_nat (port (cfg s))) (backlog (cfg s)) (kern s) = (r, k1)" by fastforce
  have k1: "klog k1 = klog (kern s)" using l klog_calls(11) by (metis snd_conv)
  show ?thesis
  proof (cases r)
    case (Inl e)
    then show ?thesis using l k1 by (simp add: start_def aside_same Let_def)
  next
    case (Inr lfd)
    obtain ok s1 where ro: "reopen_spare_fd (s\<lparr>kern := k1, listen_fd := lfd\<rparr>) = (ok, s1)" by fastforce
    have "aside s (s\<lparr>kern := k1, listen_fd := lfd\<rparr>)" using k1 by (simp add: aside_same)
    then have a1: "aside s s1" using reopen_aside [OF ro] by (rule aside_trans)
    let ?w = "logs (log_warn (no_spare_msg (strerror (plat (kern s1)) (errnos (kern s1) 0)))) (s1\<lparr>kern := (kern s1)\<lparr>errnos := (\<lambda>i. errnos (kern s1) (Suc i))\<rparr>\<rparr>)"
    have "aside s (s1\<lparr>kern := (kern s1)\<lparr>errnos := (\<lambda>i. errnos (kern s1) (Suc i))\<rparr>\<rparr>)" using a1 by (simp add: aside_def)
    then have "aside s ?w" using aside_logs(2) by (rule aside_trans)
    then have a2: "aside s ((if ok then s1 else ?w)\<lparr>sloop := l\<rparr>)" for l using a1 by (simp add: aside_def)
    let ?s2 = "(if ok then s1 else ?w)\<lparr>sloop := (sloop s1)\<lparr>tick_interval := tick_interval_ms (cfg s1)\<rparr>\<rparr>"
    obtain ok2 s3 where g: "register lfd ListenerCb ?s2 = (ok2, s3)" by fastforce
    have a3: "aside s s3" using a2 register_aside [OF g] by (rule aside_trans)
    have "conns (snd (bound_port s3)) = conns s3" using bound_port_steady [of s3] by (simp add: steady_def)
    then have "aside s (snd (bound_port s3))" using a3 bound_port_log by (simp add: aside_def)
    then have "aside s (logs (log_info m) (snd (bound_port s3)))" for m using aside_logs(1) by (rule aside_trans)
    then show ?thesis using l Inr ro g a3 by (cases ok) (auto simp: start_def aside_same Let_def case_prod_beta split: if_splits)
  qed
qed

lemma new_server_log: "klog (kern (new_server cf d k)) = klog k" "conns (new_server cf d k) = Map.empty"
  using klog_calls(10) [of k] by (simp_all add: new_server_def case_prod_beta)

lemma start_balanced:
  assumes "g_min_level (klog k) = Debug" "stderr (klog k) = []" "start (new_server cf d k) = (e, s)"
  shows "balanced s"
proof -
  have "balanced (new_server cf d k)"
    using assms(1,2) by (simp add: balanced_def new_server_log connection_count_def log_count_def)
  moreover have "aside (new_server cf d k) s" using start_aside [of "new_server cf d k"] assms(3) by simp
  ultimately show ?thesis using aside_log_kept by (simp add: log_kept_def)
qed

text \<open>The log over whole runs.\<close>

lemma run_turn_log:
  assumes "guarded p" "server_inv (srv p)"
  shows "log_kept (srv p) (srv (run_turn X p t))" "server_inv (srv (run_turn X p t))"
proof -
  let ?s = "set_sends (t_sends t) (srv p)"
  have i: "server_inv ?s" using set_sends_inv [OF assms(2)] .
  have k: "log_kept (srv p) ?s" by (simp add: set_sends_def log_kept_def balanced_def connection_count_def)
  obtain evs sd where "srv (run_turn X p t) = loop_body (fx_layout X) evs sd ?s"
    using run_turn_body [OF assms(1), of X t] by (metis process.select_convs(1) process.surjective process.update_convs(1))
  then show "log_kept (srv p) (srv (run_turn X p t))" "server_inv (srv (run_turn X p t))"
    using loop_body_inv [OF i] log_kept_trans [OF k loop_body_log [OF i]] by simp_all
qed

lemma turns_log: "guarded p \<Longrightarrow> server_inv (srv p) \<Longrightarrow> log_kept (srv p) (srv (turns X p ts))"
proof (induction ts arbitrary: p)
  case (Cons t ts)
  from log_kept_trans [OF run_turn_log(1) [OF Cons.prems] Cons.IH [OF run_turn_facts(1) [OF Cons.prems(1)] run_turn_log(2) [OF Cons.prems]]]
  show ?case by simp
qed simp

lemma server_run_log:
  assumes "server_inv s" "server_run X T (launched early s) = Some p"
  shows "log_kept s (srv p)"
proof -
  let ?p = "(launched early s)\<lparr>srv := begin_run s\<rparr>"
  have g: "guarded ?p" "server_inv (srv ?p)" using assms(1) launched_facts(1) begin_run_inv by simp_all
  obtain ts where "p = turns X ?p ts" using assms(2) unfolding server_run_exact by (metis option.distinct(1) option.inject)
  moreover have "log_kept s (begin_run s)" by (simp add: begin_run_def log_kept_def balanced_def connection_count_def)
  ultimately show ?thesis using turns_log [OF g, of X ts] log_kept_trans by auto
qed

lemma destroy_klog: "klog (kern (destroy order s)) = klog (kern s)"
proof -
  have "klog (foldl (\<lambda>k fd. case conns s fd of None \<Rightarrow> k | Some c \<Rightarrow> sys_close (conn_fd c) k) k order) = klog k" for k
    by (induction order arbitrary: k) (simp_all split: option.split)
  then show ?thesis by (simp add: destroy_def poller_destroy_def Let_def)
qed

text \<open>The last line says how the process ended.\<close>

definition last_words_of :: "ending \<Rightarrow> (log_level \<times> bytes) option" where
  "last_words_of r = (case r of Stopped \<Rightarrow> Some (Info, stopped_msg) | StartFailed err \<Rightarrow> Some (Error, startup_failed_msg err) | _ \<Rightarrow> None)"

lemma main_run_log:
  assumes "kernel_ok k" "db_ok d" "interest k = Map.empty" "g_min_level (klog k) \<le> Info"
    "main_run X T early order argv0 args d k = Some (r, k')" "last_words_of r = Some (level, msg)"
  shows "\<exists>ls st. stderr (klog k') = stderr (klog k) @ ls @ [(st, level, msg)]"
proof -
  obtain c v where pa: "parse_args argv0 args default_config False = Inr (c, v)"
    using assms(5,6) by (auto simp: main_run_def last_words_of_def split: sum.splits prod.splits)
  let ?k = "set_verbosity v k"
  have k: "kernel_ok ?k" "interest ?k = Map.empty" "stderr (klog ?k) = stderr (klog k)" "g_min_level (klog ?k) \<le> Info"
    using assms(1,3,4) by (simp_all add: set_verbosity_def set_min_level_def less_eq_log_level_def)
  obtain e s where st: "start (new_server c d ?k) = (e, s)" by fastforce
  have "aside (new_server c d ?k) s" using start_aside [of "new_server c d ?k"] st by simp
  then have a: "logged (\<lambda>l. True) (klog ?k) (klog (kern s))"
    using logged_mono by (fastforce simp: aside_def new_server_log)
  show ?thesis
  proof (cases e)
    case (Some err)
    then have "r = StartFailed err" "k' = kern (destroy [] (logs (log_error (startup_failed_msg err)) s))" using pa st assms(5)
      by (simp_all add: main_run_def install_signal_handlers_def new_process_def)
    moreover from this have "klog k' = log_error (startup_failed_msg err) (klog (kern s))" by (simp add: destroy_klog)
    moreover have "g_min_level (klog (kern s)) \<le> Error" using a k(4) by (auto simp: logged_def less_eq_log_level_def)
    ultimately show ?thesis
      using vwrite_last [of "klog (kern s)" Error "startup_failed_msg err"] a k(3) assms(6)
      by (auto simp: logged_def log_error_def last_words_of_def)
  next
    case None
    have i: "server_inv s" using start_inv [OF k(1) assms(2) k(2)] st None by blast
    have m: "main_run X T early order argv0 args d k =
       (case server_run X T (launched early s) of
          None \<Rightarrow> None
        | Some p \<Rightarrow> if killed p then Some (Killed, kern (srv p))
                    else Some (Stopped, kern (destroy (order (conns (srv p))) (logs (log_info stopped_msg) (srv p)))))"
      using pa st None by (intro main_run_start) simp_all
    then obtain p where p: "server_run X T (launched early s) = Some p" using assms(5) by (cases "server_run X T (launched early s)") auto
    then have r: "r = Stopped" "klog k' = log_info stopped_msg (klog (kern (srv p)))"
      using m assms(5,6) by (auto simp: destroy_klog last_words_of_def split: if_splits)
    have "logged (\<lambda>l. True) (klog (kern s)) (klog (kern (srv p)))" using server_run_log [OF i p] by (simp add: log_kept_def)
    with a have a2: "logged (\<lambda>l. True) (klog ?k) (klog (kern (srv p)))" by (rule logged_trans)
    then have "g_min_level (klog (kern (srv p))) \<le> Info" using k(4) by (simp add: logged_def)
    from vwrite_last [OF this, of stopped_msg] show ?thesis
      using r a2 k(3) assms(6) by (auto simp: logged_def log_info_def last_words_of_def)
  qed
qed

end
