(* ===== verification/Keyspace_Spec.thy ===== *)
theory Keyspace_Spec
  imports Framing
begin

text \<open>
  The abstract key-value store the command layer promises, and the refinement: a map from keys to
  a value with an optional deadline, one equation per command, no lazy deletion, no volatile
  index, no buffers. Time is a parameter. A stored entry whose deadline has passed is simply not
  there (\<open>prune\<close>).
\<close>

subsection \<open>The abstract store\<close>

type_synonym kspace = "key \<rightharpoonup> bytes \<times> int option"

fun alive_at :: "int \<Rightarrow> bytes \<times> int option \<Rightarrow> bool" where
  "alive_at t (v, None) = True"
| "alive_at t (v, Some dl) = (t < dl)"

definition prune :: "int \<Rightarrow> kspace \<Rightarrow> kspace" where
  "prune t A k = (case A k of None \<Rightarrow> None | Some e \<Rightarrow> if alive_at t e then Some e else None)"

datatype acmd =
    AGet key
  | ASet key bytes bool bool "int option"
  | AIncr key int
  | ADel "key list"
  | AExists "key list"
  | AType key
  | AExpire key int
  | ATtl key
  | APersist key
  | AFlushall
  | APing "bytes option"
  | AEcho bytes
  | ACommand bool
  | ARefuse bytes

definition store_deadline :: "int \<Rightarrow> int \<Rightarrow> int option" where
  "store_deadline t ms = (if t + ms \<le> INT64_MAX then Some (t + ms) else None)"

text \<open>
  The meaning of a command at time \<open>t\<close> on a store without dead entries: the reply and the new
  store. \<open>ASet\<close> takes the NX flag, the XX flag and a time to live in milliseconds, \<open>ACommand\<close> whether
  the count was asked for. \<open>ARefuse\<close> is a request that is answered with an error and does nothing.
\<close>

fun aspec :: "int \<Rightarrow> kspace \<Rightarrow> acmd \<Rightarrow> reply \<times> kspace" where
  "aspec t A (AGet k) = (case A k of None \<Rightarrow> RNull | Some (v, e) \<Rightarrow> RBulk v, A)"
| "aspec t A (ASet k v nx xx ttl) =
     (if nx \<and> A k \<noteq> None \<or> xx \<and> A k = None then (RNull, A)
      else case ttl of
        None \<Rightarrow> (RSimple ''OK'', A(k \<mapsto> (v, None)))
      | Some ms \<Rightarrow> (case store_deadline t ms of
                      None \<Rightarrow> (RError err_set_expire, A)
                    | Some dl \<Rightarrow> (RSimple ''OK'', A(k \<mapsto> (v, Some dl)))))"
| "aspec t A (AIncr k delta) =
     (case A k of
        None \<Rightarrow> (RInt delta, A(k \<mapsto> (std_to_string delta, None)))
      | Some (v, e) \<Rightarrow>
          (case string_to_int64 v of
             None \<Rightarrow> (RError err_kNotInteger, A)
           | Some n \<Rightarrow>
               if in_int64 (n + delta) then (RInt (n + delta), A(k \<mapsto> (std_to_string (n + delta), e)))
               else (RError ''ERR increment or decrement would overflow'', A)))"
| "aspec t A (ADel ks) = (RInt (int (card (set ks \<inter> dom A))), A |` (- set ks))"
| "aspec t A (AExists ks) = (RInt (int (length (filter (\<lambda>k. A k \<noteq> None) ks))), A)"
| "aspec t A (AType k) = (RSimple (if A k = None then ''none'' else ''string''), A)"
| "aspec t A (AExpire k secs) =
     (case A k of
        None \<Rightarrow> (RInt 0, A)
      | Some (v, e) \<Rightarrow>
          if secs \<le> 0 then (RInt 1, A(k := None))
          else (case store_deadline t (secs * 1000) of
                  None \<Rightarrow> (RError (''ERR invalid expire time in '' @ quoted ''expire'' @ '' command''), A)
                | Some dl \<Rightarrow> (RInt 1, A(k \<mapsto> (v, Some dl)))))"
| "aspec t A (ATtl k) =
     (RInt (case A k of
              None \<Rightarrow> - 2
            | Some (v, None) \<Rightarrow> - 1
            | Some (v, Some dl) \<Rightarrow> (dl - t + 500) div 1000), A)"
| "aspec t A (APersist k) =
     (case A k of
        Some (v, Some dl) \<Rightarrow> (RInt 1, A(k \<mapsto> (v, None)))
      | _ \<Rightarrow> (RInt 0, A))"
| "aspec t A AFlushall = (RSimple ''OK'', Map.empty)"
| "aspec t A (APing m) = (case m of None \<Rightarrow> RSimple ''PONG'' | Some s \<Rightarrow> RBulk s, A)"
| "aspec t A (AEcho s) = (RBulk s, A)"
| "aspec t A (ACommand cnt) = (if cnt then RInt 16 else RArray 0, A)"
| "aspec t A (ARefuse e) = (RError e, A)"

text \<open>
  Which requests are refused, and how. A command takes at least and at most so many arguments;
  three commands look at their arguments before they do anything.
\<close>

definition arg_counts :: "(bytes \<times> nat \<times> nat option) list" where
  "arg_counts =
     [(''ping'', 0, Some 1), (''echo'', 1, Some 1), (''quit'', 0, Some 0), (''set'', 2, None), (''get'', 1, Some 1),
      (''incr'', 1, Some 1), (''decr'', 1, Some 1), (''del'', 1, None), (''exists'', 1, None), (''type'', 1, Some 1),
      (''expire'', 2, Some 2), (''ttl'', 1, Some 1), (''persist'', 1, Some 1), (''dbsize'', 0, Some 0),
      (''flushall'', 0, None), (''command'', 0, None)]"

fun counts_fit :: "nat \<times> nat option \<Rightarrow> nat \<Rightarrow> bool" where
  "counts_fit (lo, None) n \<longleftrightarrow> lo \<le> n"
| "counts_fit (lo, Some hi) n \<longleftrightarrow> lo \<le> n \<and> n \<le> hi"

definition refusal :: "bytes list \<Rightarrow> bytes option" where
  "refusal argv =
     (let nm = to_lower_ascii (argv ! 0); args = drop 1 argv in
      case map_of arg_counts nm of
        None \<Rightarrow> Some (unknown_command_msg argv)
      | Some b \<Rightarrow>
          if \<not> counts_fit b (length args)
          then Some (''ERR wrong number of arguments for '' @ quoted nm @ '' command'')
          else if nm = ''set''
          then (case set_options (drop 2 args) no_opts of Inl e \<Rightarrow> Some e | Inr s \<Rightarrow> None)
          else if nm = ''expire''
          then (case string_to_int64 (args ! 1) of None \<Rightarrow> Some err_kNotInteger | Some n \<Rightarrow> None)
          else if nm = ''flushall'' \<and> args \<noteq> [] \<and> \<not> (length args = 1 \<and> to_lower_ascii (args ! 0) \<in> {''async'', ''sync''})
          then Some err_kSyntax
          else None)"

text \<open>Which argument vectors denote which abstract command.\<close>

definition denotes :: "bytes list \<Rightarrow> acmd \<Rightarrow> bool" where
  "denotes argv a \<longleftrightarrow> argv \<noteq> [] \<and>
     (let nm = to_lower_ascii (argv ! 0); args = drop 1 argv in
      case a of
        AGet k \<Rightarrow> nm = ''get'' \<and> args = [k]
      | ASet k v nx xx ttl \<Rightarrow>
          nm = ''set'' \<and> (\<exists>opts s. args = k # v # opts \<and> set_options opts no_opts = Inr s \<and>
             opt_nx s = nx \<and> opt_xx s = xx \<and>
             ttl = (if opt_has_ttl s then Some (opt_amount s * opt_unit_ms s) else None))
      | AIncr k delta \<Rightarrow> args = [k] \<and> (nm = ''incr'' \<and> delta = 1 \<or> nm = ''decr'' \<and> delta = - 1)
      | ADel ks \<Rightarrow> nm = ''del'' \<and> args = ks \<and> ks \<noteq> []
      | AExists ks \<Rightarrow> nm = ''exists'' \<and> args = ks \<and> ks \<noteq> []
      | AType k \<Rightarrow> nm = ''type'' \<and> args = [k]
      | AExpire k secs \<Rightarrow> nm = ''expire'' \<and> (\<exists>s. args = [k, s] \<and> string_to_int64 s = Some secs)
      | ATtl k \<Rightarrow> nm = ''ttl'' \<and> args = [k]
      | APersist k \<Rightarrow> nm = ''persist'' \<and> args = [k]
      | AFlushall \<Rightarrow> nm = ''flushall'' \<and>
          (args = [] \<or> (\<exists>m. args = [m] \<and> (to_lower_ascii m = ''async'' \<or> to_lower_ascii m = ''sync'')))
      | APing m \<Rightarrow> nm = ''ping'' \<and> args = (case m of None \<Rightarrow> [] | Some s \<Rightarrow> [s])
      | AEcho s \<Rightarrow> nm = ''echo'' \<and> args = [s]
      | ACommand cnt \<Rightarrow> nm = ''command'' \<and> cnt = (args \<noteq> [] \<and> to_lower_ascii (args ! 0) = ''count'')
      | ARefuse e \<Rightarrow> refusal argv = Some e \<and> crlf_pos e = None)"

subsection \<open>The abstraction relation\<close>

definition aval :: "kvalue \<Rightarrow> bytes \<times> int option" where
  "aval v = (vdata v, if has_expiry v then Some (expire_at v) else None)"

text \<open>
  The concrete keyspace stands for \<open>A\<close> from time \<open>t\<close> on: at every later time the same keys are
  visible, with the same values and deadlines.
\<close>

definition stands_for :: "int \<Rightarrow> db \<Rightarrow> kspace \<Rightarrow> bool" where
  "stands_for t d A \<longleftrightarrow> (\<forall>t' \<ge> t. map_option aval \<circ> visible d t' = prune t' A)"

lemma alive_aval: "alive_at t (aval v) \<longleftrightarrow> \<not> is_expired v t"
  by (auto simp: aval_def is_expired_def not_le)

lemma live_aval: "map_option aval (live t v) = (if alive_at t (aval v) then Some (aval v) else None)"
  by (simp add: live_def alive_aval)

lemma alive_at_mono: "alive_at t' e \<Longrightarrow> t \<le> t' \<Longrightarrow> alive_at t e"
  by (cases "(t, e)" rule: alive_at.cases) auto

lemma prune_prune: "t \<le> t' \<Longrightarrow> prune t' (prune t A) = prune t' A"
  by (auto simp: prune_def fun_eq_iff split: option.split dest: alive_at_mono)

lemma prune_upd: "prune t (A(k \<mapsto> e)) = (prune t A)(k := if alive_at t e then Some e else None)"
  by (auto simp: prune_def)

lemma prune_del: "prune t (A(k := None)) = (prune t A)(k := None)"
  by (auto simp: prune_def)

lemma stands_for_mono: "stands_for t d A \<Longrightarrow> t \<le> t' \<Longrightarrow> stands_for t' d A"
  by (simp add: stands_for_def)

lemma stands_for_prune: "stands_for t d (prune t A) \<longleftrightarrow> stands_for t d A"
  by (simp add: stands_for_def prune_prune)

lemma stands_for_now: "stands_for t d A \<Longrightarrow> map_option aval (visible d t k) = prune t A k"
  by (auto simp: stands_for_def fun_eq_iff)

lemma stands_for_same:
  "stands_for t d A \<Longrightarrow> (\<And>t'. t \<le> t' \<Longrightarrow> visible d' t' = visible d t') \<Longrightarrow> stands_for t d' A"
  by (simp add: stands_for_def)

lemma stands_for_upd:
  assumes "stands_for t d A" "\<And>t'. t \<le> t' \<Longrightarrow> visible d' t' = (visible d t')(k := live t' v)"
  shows "stands_for t d' (A(k \<mapsto> aval v))"
  using assms by (auto simp: stands_for_def fun_eq_iff prune_upd live_aval)

lemma stands_for_del:
  assumes "stands_for t d A" "\<And>t'. t \<le> t' \<Longrightarrow> visible d' t' = (visible d t')(k := None)"
  shows "stands_for t d' (A(k := None))"
  using assms by (auto simp: stands_for_def fun_eq_iff prune_del)

subsection \<open>The keyspace operations at a fixed time\<close>

text \<open>Within one command the clock is taken to stand still; between commands it moves on.\<close>

abbreviation frozen :: "int \<Rightarrow> db \<Rightarrow> bool" where
  "frozen t d \<equiv> clk d = (\<lambda>i. t)"

lemma frozen_now_ms: "frozen t d \<Longrightarrow> now_ms d = (t, d)"
  by (simp add: now_ms_def)

lemma frozen_lookup:
  assumes "frozen t d" "lookup d k = (ov, d')"
  shows "frozen t d'" "ov = visible d t k" "\<And>t'. t \<le> t' \<Longrightarrow> visible d' t' = visible d t'"
proof -
  show "frozen t d'"
    using assms by (cases rule: lookup_cases [of d k]) (auto simp: reclaim_def now_ms_def)
  show "ov = visible d t k" using assms lookup_visible [of d k] by simp
  show "visible d' t' = visible d t'" if "t \<le> t'" for t'
    using assms that lookup_keeps_visible [of d t' k] by simp
qed

lemma frozen_set_string: "frozen t d \<Longrightarrow> frozen t (set_string d k v dl)"
  by (simp add: set_string_def)

lemma frozen_erase:
  assumes "frozen t d" "erase d k = (b, d')"
  shows "frozen t d'" "b \<longleftrightarrow> visible d t k \<noteq> None" "\<And>t'. t \<le> t' \<Longrightarrow> visible d' t' = (visible d t')(k := None)"
proof -
  obtain ov d1 where l: "lookup d k = (ov, d1)" by fastforce
  show "frozen t d'"
    using assms l frozen_lookup(1) [OF assms(1) l] by (auto simp: erase_def split: option.splits)
  show "b \<longleftrightarrow> visible d t k \<noteq> None" using erase_result [of d k] assms by simp
  show "visible d' t' = (visible d t')(k := None)" if "t \<le> t'" for t'
    using visible_erase [of d t' k] assms that by simp
qed

lemma frozen_set_expire_at:
  assumes "frozen t d" "visible d t k = Some v" "set_expire_at d k dl = (b, d')"
  shows "frozen t d'" "\<And>t'. t \<le> t' \<Longrightarrow> visible d' t' = (visible d t')(k := live t' (v\<lparr>expire_at := dl\<rparr>))"
proof -
  obtain ov d1 where l: "lookup d k = (ov, d1)" by fastforce
  show "frozen t d'"
    using assms l frozen_lookup(1) [OF assms(1) l] by (auto simp: set_expire_at_def split: option.splits)
  show "visible d' t' = (visible d t')(k := live t' (v\<lparr>expire_at := dl\<rparr>))" if "t \<le> t'" for t'
    using visible_set_expire_at(1) [of d t' k dl] assms that by simp
qed

lemma frozen_persist:
  assumes "frozen t d" "persist d k = (b, d')"
  shows "frozen t d'" "b \<longleftrightarrow> (\<exists>v. visible d t k = Some v \<and> has_expiry v)"
    "\<And>t'. t \<le> t' \<Longrightarrow> visible d' t' = (case visible d t k of
        None \<Rightarrow> visible d t'
      | Some v \<Rightarrow> if has_expiry v then (visible d t')(k \<mapsto> v\<lparr>expire_at := kNoExpiry\<rparr>) else visible d t')"
proof -
  obtain ov d1 where l: "lookup d k = (ov, d1)" by fastforce
  show "frozen t d'"
    using assms l frozen_lookup(1) [OF assms(1) l] by (auto simp: persist_def split: option.splits if_splits)
  show "b \<longleftrightarrow> (\<exists>v. visible d t k = Some v \<and> has_expiry v)"
    using visible_persist(2) [of d t k] assms by simp
  show "visible d' t' = (case visible d t k of
        None \<Rightarrow> visible d t'
      | Some v \<Rightarrow> if has_expiry v then (visible d t')(k \<mapsto> v\<lparr>expire_at := kNoExpiry\<rparr>) else visible d t')"
    if "t \<le> t'" for t'
    using visible_persist(1) [of d t' k] assms that by simp
qed

end
