(* ===== verification/Refinement.thy ===== *)
theory Refinement
  imports Keyspace_Spec
begin

text \<open>
  The command layer refines the abstract store of \<open>Keyspace_Spec\<close>: a command that reaches
  \<open>dispatch\<close> adds to the output exactly the bytes of the reply the specification gives and leaves
  a keyspace that stands for the store the specification gives, for a single command and for a
  whole history with time passing between the commands and expiry cycles running in between.
\<close>

definition models :: "int \<Rightarrow> cmd_ctx \<Rightarrow> kspace \<Rightarrow> bool" where
  "models t c B \<longleftrightarrow> ctx_ok c \<and> frozen t (cdb c) \<and> stands_for t (cdb c) B \<and> prune t B = B"

definition answers :: "int \<Rightarrow> cmd_ctx \<Rightarrow> reply \<times> kspace \<Rightarrow> cmd_ctx \<Rightarrow> bool" where
  "answers t c ra c' \<longleftrightarrow> buf_contents (cout c') = buf_contents (cout c) @ encode_reply (fst ra) \<and>
     frozen t (cdb c') \<and> stands_for t (cdb c') (snd ra)"

lemma answers_say:
  assumes "buf_ok (cout c)" "wf_reply r" "frozen t d" "stands_for t d A"
  shows "answers t c (r, A) (say (c\<lparr>cdb := d\<rparr>) r)"
  using assms rs.emit_contents [of "cout c" r] by (simp add: answers_def say_def)

lemma answers_say_ok:
  assumes "buf_ok (cout c)" "frozen t d" "stands_for t d A"
  shows "answers t c (RSimple ''OK'', A) (say_ok (c\<lparr>cdb := d\<rparr>))"
  using assms reply_ok_eq [of "cout c"] by (simp add: answers_def say_ok_def)

lemmas answers_intros = answers_say answers_say_ok

lemma modelsD:
  assumes "models t c B"
  shows "buf_ok (cout c)" "db_ok (cdb c)" "argv_ok (cargv c)" "frozen t (cdb c)" "stands_for t (cdb c) B"
    "500 \<le> t" "t \<le> INT64_MAX" "B k = map_option aval (visible (cdb c) t k)"
proof -
  show "buf_ok (cout c)" "db_ok (cdb c)" "argv_ok (cargv c)" "frozen t (cdb c)" and s: "stands_for t (cdb c) B"
    using assms by (auto simp: models_def ctx_ok_def)
  then show "500 \<le> t" "t \<le> INT64_MAX" by (auto simp: db_ok_def clock_ok_def)
  show "B k = map_option aval (visible (cdb c) t k)"
    using stands_for_now [OF s, of k] assms by (simp add: models_def)
qed

text \<open>A lookup in a modelled context: what it returns and the state it leaves.\<close>

lemma models_lookup:
  assumes "models t c B" "lookup (cdb c) k = (ov, d)"
  shows "B k = map_option aval ov" "frozen t d" "stands_for t d B" "db_ok d" "visible d t k = ov"
    "\<And>v. ov = Some v \<Longrightarrow> fmlookup (kmap d) k = Some v \<and> value_ok v \<and> \<not> is_expired v t"
proof -
  note m = modelsD [OF assms(1)]
  note l = frozen_lookup [OF m(4) assms(2)]
  show "B k = map_option aval ov" using m(8) l(2) by simp
  show "frozen t d" by (rule l(1))
  show "stands_for t d B" using stands_for_same [OF m(5)] l(3) by blast
  show "db_ok d" using m(2) assms(2) by (rule lookup_db_ok)
  show "visible d t k = ov" using l(2,3) by simp
  show "fmlookup (kmap d) k = Some v \<and> value_ok v \<and> \<not> is_expired v t" if "ov = Some v" for v
    using assms(2) that lookup_Some_stored lookup_value_ok [OF m(2)] l(2)
    by (auto simp: visible_def split: option.splits if_splits)
qed

lemma vtype_string [simp]: "vtype v = StringType"
  by (cases "vtype v") simp

lemma aval_new [simp]:
  "aval \<lparr>vtype = StringType, vdata = s, expire_at = dl\<rparr> = (s, if dl = kNoExpiry then None else Some dl)"
  by (simp add: aval_def has_expiry_def)

lemma aval_upd [simp]:
  "aval (v\<lparr>vdata := s\<rparr>) = (s, snd (aval v))"
  "aval (v\<lparr>expire_at := dl\<rparr>) = (fst (aval v), if dl = kNoExpiry then None else Some dl)"
  by (simp_all add: aval_def has_expiry_def)

lemma stands_for_set_string:
  "stands_for t d A \<Longrightarrow>
     stands_for t (set_string d k s dl) (A(k \<mapsto> (s, if dl = kNoExpiry then None else Some dl)))"
  using stands_for_upd [OF _ visible_set_string, of t d A k s dl] by simp

lemma stands_for_write_data:
  assumes "stands_for t d A" "fmlookup (kmap d) k = Some v" "\<not> is_expired v t"
  shows "stands_for t (write_data d k v s) (A(k \<mapsto> (s, snd (aval v))))"
proof -
  have "visible (write_data d k v s) t' = (visible d t')(k := live t' (v\<lparr>vdata := s\<rparr>))" for t'
    by (simp add: visible_def write_data_def live_def fun_eq_iff)
  from stands_for_upd [OF assms(1) this] show ?thesis by simp
qed

subsection \<open>One lemma per command\<close>

lemma cmd_get_refines:
  assumes "models t c B" "cargv c = [nm, k]"
  shows "answers t c (aspec t B (AGet k)) (cmd_get c)"
proof -
  obtain ov d where l: "lookup (cdb c) k = (ov, d)" by fastforce
  note ml = models_lookup [OF assms(1) l] and m = modelsD [OF assms(1)]
  show ?thesis
    using assms(2) l ml m(1)
    by (auto simp: cmd_get_def aval_def value_ok_def Let_def intro!: answers_intros split: option.split)
qed

lemma cmd_set_refines:
  assumes "models t c B" "cargv c = nm # k # v # opts" "set_options opts no_opts = Inr s"
  shows "answers t c (aspec t B (ASet k v (opt_nx s) (opt_xx s)
           (if opt_has_ttl s then Some (opt_amount s * opt_unit_ms s) else None))) (cmd_set c)"
proof -
  obtain ov d where l: "lookup (cdb c) k = (ov, d)" by fastforce
  note ml = models_lookup [OF assms(1) l] and m = modelsD [OF assms(1)]
  have s: "opts_ok s" using assms(3) by (rule set_options_ok) simp
  have n: "now_ms d = (t, d)" using ml(2) by (rule frozen_now_ms)
  have dl: "ttl_to_deadline (opt_amount s) (opt_unit_ms s) t = store_deadline t (opt_amount s * opt_unit_ms s)"
    if "opt_has_ttl s"
    using that s m(6,7) ttl_to_deadline_exact [of "opt_amount s" "opt_unit_ms s" t]
    by (auto simp: opts_ok_def store_deadline_def in_int64_def)
  have nz: "opt_has_ttl s \<Longrightarrow> store_deadline t (opt_amount s * opt_unit_ms s) = Some x \<Longrightarrow> x \<noteq> kNoExpiry" for x
    using s m(6) by (auto simp: opts_ok_def store_deadline_def kNoExpiry_def split: if_splits)
  have st: "stands_for t (set_string d k v x) (B(k \<mapsto> (v, if x = kNoExpiry then None else Some x)))" for x
    using ml(3) by (rule stands_for_set_string)
  have ot: "opt_has_ttl s \<Longrightarrow> store_deadline t (opt_amount s * opt_unit_ms s) = Some x \<Longrightarrow>
      stands_for t (set_string d k v x) (B(k \<mapsto> (v, Some x)))" for x
    using st [of x] nz [of x] by simp
  show ?thesis
    using assms(2,3) l n ml(1-3) m(1) dl ot st [of kNoExpiry]
    by (auto simp: cmd_set_def Let_def frozen_set_string intro!: answers_intros split: option.split)
qed

lemma incr_by_refines:
  assumes "models t c B" "cargv c = [nm, k]" "delta = 1 \<or> delta = - 1"
  shows "answers t c (aspec t B (AIncr k delta)) (incr_by c delta)"
proof -
  obtain ov d where l: "lookup (cdb c) k = (ov, d)" by fastforce
  note ml = models_lookup [OF assms(1) l] and m = modelsD [OF assms(1)]
  have new: "stands_for t (set_string d k x kNoExpiry) (B(k \<mapsto> (x, None)))" for x
    using stands_for_set_string [OF ml(3), of k x kNoExpiry] by simp
  show ?thesis
  proof (cases ov)
    case None
    then show ?thesis
      using assms(2,3) l ml(1,2) m(1) new
      by (auto simp: incr_by_def Let_def frozen_set_string in_int64_def intro!: answers_intros)
  next
    case (Some v)
    have w: "stands_for t (write_data d k v x) (B(k \<mapsto> (x, snd (aval v))))" for x
      using stands_for_write_data ml(3,6) Some by blast
    have fr: "frozen t (write_data d k v x)" for x using ml(2) by (simp add: write_data_def)
    have B: "B k = Some (vdata v, snd (aval v))" using ml(1) Some by (simp add: aval_def)
    have rng: "string_to_int64 (vdata v) = Some n \<Longrightarrow>
        in_int64 (n + delta) \<longleftrightarrow> \<not> (if delta > 0 then n > INT64_MAX - delta else n < INT64_MIN - delta)" for n
      using assms(3) by (auto simp: string_to_int64_exact in_int64_def)
    show ?thesis
      using assms(2) l B Some ml(2,3) m(1) w fr rng
      by (auto simp: incr_by_def Let_def simp del: fun_upd_apply intro!: answers_intros split: option.split)
  qed
qed

text \<open>DEL counts each key once, however often it is named; EXISTS counts every mention.\<close>

lemma del_loop_refines:
  assumes "frozen t d" "stands_for t d A" "prune t A = A" "del_loop ks n d = (m, d')"
  shows "m = n + int (card (set ks \<inter> dom A)) \<and> frozen t d' \<and> stands_for t d' (A |` (- set ks))"
  using assms
proof (induction ks n d arbitrary: A rule: del_loop.induct)
  case (2 k ks n d)
  obtain b d1 where e: "erase d k = (b, d1)" by fastforce
  note fe = frozen_erase [OF "2.prems"(1) e]
  have "A k = map_option aval (visible d t k)" using stands_for_now "2.prems"(2,3) by fastforce
  then have b: "b \<longleftrightarrow> k \<in> dom A" using fe(2) by (simp add: domIff)
  define A1 where "A1 = A(k := None)"
  have "stands_for t d1 A1" using stands_for_del [OF "2.prems"(2)] fe(3) unfolding A1_def by blast
  moreover have "prune t A1 = A1" using "2.prems"(3) by (simp add: prune_del A1_def)
  ultimately have IH: "m = (if b then n + 1 else n) + int (card (set ks \<inter> dom A1))"
      "frozen t d'" "stands_for t d' (A1 |` (- set ks))"
    using "2.IH" [OF e [symmetric] refl, of A1] fe(1) "2.prems"(4) e by auto
  have "set (k # ks) \<inter> dom A = (if b then insert k else id) (set ks \<inter> dom A1)"
    using b by (auto simp: A1_def)
  then have "card (set (k # ks) \<inter> dom A) = (if b then 1 else 0) + card (set ks \<inter> dom A1)"
    by (simp add: A1_def)
  moreover have "A |` (- set (k # ks)) = A1 |` (- set ks)"
    by (auto simp: restrict_map_def fun_eq_iff A1_def)
  ultimately show ?case using IH by simp
qed (simp add: restrict_map_def)

lemma cmd_del_refines:
  assumes "models t c B" "cargv c = nm # ks"
  shows "answers t c (aspec t B (ADel ks)) (cmd_del c)"
proof -
  obtain m d where e: "del_loop ks 0 (cdb c) = (m, d)" by fastforce
  note md = modelsD [OF assms(1)]
  have r: "m = int (card (set ks \<inter> dom B))" "frozen t d" "stands_for t d (B |` (- set ks))"
    using del_loop_refines [OF md(4,5) _ e] assms(1) by (auto simp: models_def)
  moreover have "in_int64 m"
    using del_loop_ok [OF md(2) e] md(3) assms(2) by (auto simp: argv_ok_def in_int64_def)
  ultimately show ?thesis
    using assms(2) e md(1) by (auto simp: cmd_del_def intro!: answers_intros)
qed

lemma exists_loop_refines:
  assumes "frozen t d" "stands_for t d A" "prune t A = A" "exists_loop ks n d = (m, d')"
  shows "m = n + int (length (filter (\<lambda>k. A k \<noteq> None) ks)) \<and> frozen t d' \<and> stands_for t d' A"
  using assms
proof (induction ks n d rule: exists_loop.induct)
  case (2 k ks n d)
  obtain ov d1 where l: "lookup d k = (ov, d1)" by fastforce
  note fl = frozen_lookup [OF "2.prems"(1) l]
  have "A k = map_option aval ov" using stands_for_now "2.prems"(2,3) fl(2) by fastforce
  then have "ov \<noteq> None \<longleftrightarrow> A k \<noteq> None" by simp
  moreover have "stands_for t d1 A" using stands_for_same [OF "2.prems"(2)] fl(3) by blast
  ultimately show ?case using 2 l fl(1) by (auto split: if_splits)
qed simp

lemma cmd_exists_refines:
  assumes "models t c B" "cargv c = nm # ks"
  shows "answers t c (aspec t B (AExists ks)) (cmd_exists c)"
proof -
  obtain m d where e: "exists_loop ks 0 (cdb c) = (m, d)" by fastforce
  note md = modelsD [OF assms(1)]
  have r: "m = int (length (filter (\<lambda>k. B k \<noteq> None) ks))" "frozen t d" "stands_for t d B"
    using exists_loop_refines [OF md(4,5) _ e] assms(1) by (auto simp: models_def)
  moreover have "in_int64 m"
    using exists_loop_ok [OF md(2) e] md(3) assms(2) by (auto simp: argv_ok_def in_int64_def)
  ultimately show ?thesis
    using assms(2) e md(1) by (auto simp: cmd_exists_def intro!: answers_intros)
qed

lemma cmd_type_refines:
  assumes "models t c B" "cargv c = [nm, k]"
  shows "answers t c (aspec t B (AType k)) (cmd_type c)"
proof -
  obtain ov d where l: "lookup (cdb c) k = (ov, d)" by fastforce
  note ml = models_lookup [OF assms(1) l] and m = modelsD [OF assms(1)]
  show ?thesis
    using assms(2) l ml(1-3) m(1) by (cases ov) (auto simp: cmd_type_def intro!: answers_intros)
qed

lemma cmd_ttl_refines:
  assumes "models t c B" "cargv c = [nm, k]"
  shows "answers t c (aspec t B (ATtl k)) (cmd_ttl c)"
proof -
  obtain ov d where l: "lookup (cdb c) k = (ov, d)" by fastforce
  note ml = models_lookup [OF assms(1) l] and m = modelsD [OF assms(1)]
  have n: "now_ms d = (t, d)" using ml(2) by (rule frozen_now_ms)
  show ?thesis
  proof (cases "\<exists>v. ov = Some v \<and> has_expiry v")
    case False
    then show ?thesis
      using assms(2) l ml(1-3) m(1)
      by (cases ov) (auto simp: cmd_ttl_def pttl_def aval_def kNoKey_def kNoTtl_def in_int64_def intro!: answers_intros)
  next
    case True
    then obtain v where v: "ov = Some v" "has_expiry v" by blast
    have gt: "t < expire_at v" using ml(6) [OF v(1)] v(2) by (simp add: is_expired_def)
    have mx: "expire_at v \<le> INT64_MAX" using ml(6) [OF v(1)] by (simp add: value_ok_def in_int64_def)
    have "in_int64 ((expire_at v - t + 500) div 1000)" using gt mx m(6) by (auto simp: in_int64_def)
    moreover have "(expire_at v - t + 500) sdiv 1000 = (expire_at v - t + 500) div 1000"
      using gt by (simp add: sdiv_pos_eq)
    ultimately show ?thesis
      using assms(2) l n ml(1-3) m(1) v gt
      by (auto simp: cmd_ttl_def pttl_def aval_def Let_def intro!: answers_intros)
  qed
qed

lemma cmd_persist_refines:
  assumes "models t c B" "cargv c = [nm, k]"
  shows "answers t c (aspec t B (APersist k)) (cmd_persist c)"
proof -
  obtain b d where p: "persist (cdb c) k = (b, d)" by fastforce
  note m = modelsD [OF assms(1)]
  note fp = frozen_persist [OF m(4) p]
  show ?thesis
  proof (cases "\<exists>v. visible (cdb c) t k = Some v \<and> has_expiry v")
    case False
    then have "stands_for t d B"
      using stands_for_same [OF m(5)] fp(3) by (auto split: option.splits)
    moreover have "aspec t B (APersist k) = (RInt 0, B)"
      using False m(8) [of k] by (auto simp: aval_def split: option.split)
    ultimately show ?thesis
      using assms(2) p False fp(1,2) m(1) by (auto simp: cmd_persist_def in_int64_def intro!: answers_intros)
  next
    case True
    then obtain v where v: "visible (cdb c) t k = Some v" "has_expiry v" by blast
    have "visible d t' = (visible (cdb c) t')(k := live t' (v\<lparr>expire_at := kNoExpiry\<rparr>))" if "t \<le> t'" for t'
      using fp(3) [OF that] v by (simp add: live_def is_expired_def has_expiry_def)
    then have "stands_for t d (B(k \<mapsto> (vdata v, None)))"
      using stands_for_upd [OF m(5)] by (fastforce simp: aval_def has_expiry_def)
    then show ?thesis
      using assms(2) p v fp(1,2) m(1) m(8) [of k]
      by (auto simp: cmd_persist_def in_int64_def aval_def intro!: answers_intros)
  qed
qed

lemma cmd_expire_refines:
  assumes "models t c B" "cargv c = [nm, k, s]" "string_to_int64 s = Some secs"
  shows "answers t c (aspec t B (AExpire k secs)) (cmd_expire c)"
proof -
  obtain ov d where l: "lookup (cdb c) k = (ov, d)" by fastforce
  note ml = models_lookup [OF assms(1) l] and m = modelsD [OF assms(1)]
  have n: "now_ms d = (t, d)" using ml(2) by (rule frozen_now_ms)
  obtain b1 d1 where e: "erase d k = (b1, d1)" by fastforce
  note fe = frozen_erase [OF ml(2) e]
  have del: "stands_for t d1 (B(k := None))" using stands_for_del [OF ml(3)] fe(3) by blast
  have dl: "ttl_to_deadline secs 1000 t = store_deadline t (secs * 1000)" if "0 < secs"
    using that m(6,7) assms(3) ttl_to_deadline_exact [of secs 1000 t]
    by (auto simp: string_to_int64_exact store_deadline_def in_int64_def)
  have st: "frozen t (snd (set_expire_at d k x)) \<and>
      stands_for t (snd (set_expire_at d k x)) (B(k \<mapsto> (vdata v, Some x)))"
    if "ov = Some v" "0 < secs" "store_deadline t (secs * 1000) = Some x" for v x
  proof -
    obtain b2 d2 where se: "set_expire_at d k x = (b2, d2)" by fastforce
    have "x \<noteq> kNoExpiry" using that m(6) by (auto simp: store_deadline_def kNoExpiry_def split: if_splits)
    moreover note fs = frozen_set_expire_at [OF ml(2) _ se, of v]
    ultimately show ?thesis
      using stands_for_upd [OF ml(3) fs(2)] ml(5) that(1) fs(1) se by (simp add: aval_def has_expiry_def)
  qed
  show ?thesis
    using assms(2,3) l n e ml(1-3) m(1) del fe(1) dl st
    by (auto simp: cmd_expire_def Let_def aval_def in_int64_def quoted_def intro!: answers_intros split: option.split)
qed

lemma cmd_flushall_refines:
  assumes "models t c B"
    "cargv c = [nm] \<or> (\<exists>x. cargv c = [nm, x] \<and> (to_lower_ascii x = ''async'' \<or> to_lower_ascii x = ''sync''))"
  shows "answers t c (aspec t B AFlushall) (cmd_flushall c)"
proof -
  note m = modelsD [OF assms(1)]
  have "frozen t (db_clear (cdb c))" using m(4) by (simp add: db_clear_def)
  moreover have "stands_for t (db_clear (cdb c)) Map.empty"
    by (simp add: stands_for_def visible_clear prune_def fun_eq_iff)
  ultimately show ?thesis
    using assms(2) m(1) by (auto simp: cmd_flushall_def intro!: answers_intros)
qed

subsection \<open>Dispatch\<close>

lemma denotes_nonempty: "denotes argv a \<Longrightarrow> argv \<noteq> []"
  by (simp add: denotes_def)

lemma denotes_dispatch:
  assumes "cargv c = nm # args" "map_of the_table (to_lower_ascii nm) = Some cmd"
    "arity_ok (cmd_arity cmd) (length (cargv c))"
  shows "dispatch c = run_handler (cmd_handler cmd) c"
  using assms by (simp add: dispatch_def table_find_def)

lemma the_table_rows:
  "map_of the_table ''get'' = Some \<lparr>cmd_name = ''get'', cmd_handler = CmdGet, cmd_arity = 2\<rparr>"
  "map_of the_table ''set'' = Some \<lparr>cmd_name = ''set'', cmd_handler = CmdSet, cmd_arity = - 3\<rparr>"
  "map_of the_table ''incr'' = Some \<lparr>cmd_name = ''incr'', cmd_handler = CmdIncr, cmd_arity = 2\<rparr>"
  "map_of the_table ''decr'' = Some \<lparr>cmd_name = ''decr'', cmd_handler = CmdDecr, cmd_arity = 2\<rparr>"
  "map_of the_table ''del'' = Some \<lparr>cmd_name = ''del'', cmd_handler = CmdDel, cmd_arity = - 2\<rparr>"
  "map_of the_table ''exists'' = Some \<lparr>cmd_name = ''exists'', cmd_handler = CmdExists, cmd_arity = - 2\<rparr>"
  "map_of the_table ''type'' = Some \<lparr>cmd_name = ''type'', cmd_handler = CmdType, cmd_arity = 2\<rparr>"
  "map_of the_table ''expire'' = Some \<lparr>cmd_name = ''expire'', cmd_handler = CmdExpire, cmd_arity = 3\<rparr>"
  "map_of the_table ''ttl'' = Some \<lparr>cmd_name = ''ttl'', cmd_handler = CmdTtl, cmd_arity = 2\<rparr>"
  "map_of the_table ''persist'' = Some \<lparr>cmd_name = ''persist'', cmd_handler = CmdPersist, cmd_arity = 2\<rparr>"
  "map_of the_table ''flushall'' = Some \<lparr>cmd_name = ''flushall'', cmd_handler = CmdFlushall, cmd_arity = - 1\<rparr>"
  "map_of the_table ''ping'' = Some \<lparr>cmd_name = ''ping'', cmd_handler = CmdPing, cmd_arity = - 1\<rparr>"
  "map_of the_table ''echo'' = Some \<lparr>cmd_name = ''echo'', cmd_handler = CmdEcho, cmd_arity = 2\<rparr>"
  "map_of the_table ''command'' = Some \<lparr>cmd_name = ''command'', cmd_handler = CmdCommand, cmd_arity = - 1\<rparr>"
  "map_of the_table ''quit'' = Some \<lparr>cmd_name = ''quit'', cmd_handler = CmdQuit, cmd_arity = 1\<rparr>"
  "map_of the_table ''dbsize'' = Some \<lparr>cmd_name = ''dbsize'', cmd_handler = CmdDbsize, cmd_arity = 1\<rparr>"
  by (simp_all add: the_table_eq)

text \<open>A request that the specification refuses is answered with that error and nothing else happens.\<close>

lemma arg_counts_names: "map_of arg_counts nm = Some b \<Longrightarrow>
  nm \<in> {''ping'', ''echo'', ''quit'', ''set'', ''get'', ''incr'', ''decr'', ''del'', ''exists'', ''type'', ''expire'', ''ttl'',
    ''persist'', ''dbsize'', ''flushall'', ''command''}"
  by (auto simp: arg_counts_def split: if_splits)

lemma unknown_name: "map_of arg_counts nm = None \<longleftrightarrow> map_of the_table nm = None"
  by (simp add: arg_counts_def the_table_eq)

lemma refused_dispatch:
  assumes "cargv c = nm # args" "refusal (cargv c) = Some e"
  shows "dispatch c = say c (RError e)"
proof (cases "map_of arg_counts (to_lower_ascii nm)")
  case None
  then show ?thesis using assms unknown_name [of "to_lower_ascii nm"] by (simp add: refusal_def dispatch_def table_find_def)
next
  case (Some b)
  note nm = arg_counts_names [OF Some]
  consider "args = []" | x where "args = [x]" | x y where "args = [x, y]" | x y z r where "args = x # y # z # r"
    by (metis list.exhaust)
  then show ?thesis
    using assms Some nm
    by cases (elim insertE emptyE;
        force simp: refusal_def dispatch_def table_find_def the_table_rows arity_ok_def arg_counts_def cmd_ping_def cmd_set_def
          cmd_expire_def cmd_flushall_def split: if_splits sum.splits option.splits)+
qed

lemmas single_key_refines =
  cmd_get_refines cmd_type_refines cmd_expire_refines cmd_ttl_refines cmd_persist_refines cmd_flushall_refines

lemma dispatch_refines:
  assumes m: "models t c B" and a: "denotes (cargv c) a"
  shows "answers t c (aspec t B a) (dispatch c)"
proof -
  obtain nm args where v: "cargv c = nm # args" using denotes_nonempty [OF a] by (cases "cargv c") auto
  note disp = denotes_dispatch [OF v] and d = a [unfolded denotes_def v Let_def]
  show ?thesis
  proof (cases a)
    case (ASet k x nx xx ttl)
    then obtain opts s where "to_lower_ascii nm = ''set''" "args = k # x # opts" "set_options opts no_opts = Inr s"
      "opt_nx s = nx" "opt_xx s = xx" "ttl = (if opt_has_ttl s then Some (opt_amount s * opt_unit_ms s) else None)"
      using d by auto
    then show ?thesis using ASet disp v cmd_set_refines [OF m, of nm k x opts s]
      by (auto simp: the_table_rows arity_ok_def simp del: aspec.simps)
  next
    case (AIncr k delta)
    then show ?thesis using disp d v incr_by_refines [OF m, of nm k delta] v
      by (auto simp: the_table_rows arity_ok_def cmd_incr_def cmd_decr_def simp del: aspec.simps)
  next
    case (ADel ks)
    then show ?thesis using disp d v cmd_del_refines [OF m]
      by (cases ks) (auto simp: the_table_rows arity_ok_def simp del: aspec.simps)
  next
    case (AExists ks)
    then show ?thesis using disp d v cmd_exists_refines [OF m]
      by (cases ks) (auto simp: the_table_rows arity_ok_def simp del: aspec.simps)
  next
    case (APing p)
    have "in_int64 (int (length x))" if "p = Some x" for x using modelsD(3) [OF m] v d that APing by (auto simp: argv_ok_def in_int64_def)
    then show ?thesis using APing disp d v modelsD(1,4,5) [OF m] answers_say [of c _ "cdb c" t B]
      by (auto simp: the_table_rows arity_ok_def cmd_ping_def split: option.splits)
  next
    case (AEcho x)
    then have "in_int64 (int (length x))" using modelsD(3) [OF m] v d by (auto simp: argv_ok_def in_int64_def)
    then show ?thesis using AEcho disp d v modelsD(1,4,5) [OF m] answers_say [of c _ "cdb c" t B]
      by (auto simp: the_table_rows arity_ok_def cmd_echo_def)
  next
    case (ACommand cnt)
    then show ?thesis using disp d v modelsD(1,4,5) [OF m] answers_say [of c _ "cdb c" t B]
      by (cases args) (auto simp: the_table_rows arity_ok_def cmd_command_def table_size_16 in_int64_def)
  next
    case (ARefuse e)
    then show ?thesis using refused_dispatch [OF v] d v modelsD(1,4,5) [OF m] answers_say [of c "RError e" "cdb c" t B] by auto
  qed (use disp d v single_key_refines [OF m] in \<open>auto simp: the_table_rows arity_ok_def simp del: aspec.simps\<close>)
qed

lemma denoted_one_reply:
  assumes "models t c B" "denotes (cargv c) a"
  shows "one_reply c (dispatch c)"
proof -
  obtain nm args where v: "cargv c = nm # args" using denotes_nonempty [OF assms(2)] by (cases "cargv c") auto
  note d = assms(2) [unfolded denotes_def v Let_def]
  show ?thesis
  proof (cases "\<exists>e. a = ARefuse e")
    case False
    then have "table_find (cargv c ! 0) \<noteq> None" "to_lower_ascii (cargv c ! 0) \<noteq> ''dbsize''"
      using d v by (cases a; auto simp: table_find_def the_table_rows)+
    then show ?thesis using assms(1) v by (intro dispatch_one_reply) (auto simp: models_def)
  next
    case True
    then obtain e where "refusal (cargv c) = Some e" "crlf_pos e = None" using d v by auto
    then show ?thesis using refused_dispatch [OF v] modelsD(1,2) [OF assms(1)] one_reply_say [of c "cdb c" "RError e"] by simp
  qed
qed

text \<open>
  The specification is complete: save for QUIT, which ends the connection, DBSIZE, which counts
  what is stored rather than what can be seen, and unknown commands whose quotation has a line
  end, every request denotes a command.
\<close>

lemma accepted_counts:
  assumes "refusal (nm # args) = None" "map_of arg_counts (to_lower_ascii nm) = Some b"
  shows "counts_fit b (length args)"
  using assms by (auto simp: refusal_def Let_def split: if_splits)

text \<open>The forms of a request that is not refused, one per command.\<close>

lemma denotes_forms:
  "to_lower_ascii nm = ''ping'' \<Longrightarrow> denotes [nm] (APing None)"
  "to_lower_ascii nm = ''ping'' \<Longrightarrow> denotes [nm, x] (APing (Some x))"
  "to_lower_ascii nm = ''echo'' \<Longrightarrow> denotes [nm, x] (AEcho x)"
  "to_lower_ascii nm = ''get'' \<Longrightarrow> denotes [nm, x] (AGet x)"
  "to_lower_ascii nm = ''incr'' \<Longrightarrow> denotes [nm, x] (AIncr x 1)"
  "to_lower_ascii nm = ''decr'' \<Longrightarrow> denotes [nm, x] (AIncr x (- 1))"
  "to_lower_ascii nm = ''type'' \<Longrightarrow> denotes [nm, x] (AType x)"
  "to_lower_ascii nm = ''ttl'' \<Longrightarrow> denotes [nm, x] (ATtl x)"
  "to_lower_ascii nm = ''persist'' \<Longrightarrow> denotes [nm, x] (APersist x)"
  "to_lower_ascii nm = ''del'' \<Longrightarrow> denotes (nm # x # xs) (ADel (x # xs))"
  "to_lower_ascii nm = ''exists'' \<Longrightarrow> denotes (nm # x # xs) (AExists (x # xs))"
  "to_lower_ascii nm = ''command'' \<Longrightarrow> denotes (nm # xs) (ACommand (xs \<noteq> [] \<and> to_lower_ascii (xs ! 0) = ''count''))"
  by (simp_all add: denotes_def)

lemma denotes_examined:
  "to_lower_ascii nm = ''set'' \<Longrightarrow> refusal (nm # k # v # opts) = None \<Longrightarrow> \<exists>a. denotes (nm # k # v # opts) a"
  "to_lower_ascii nm = ''expire'' \<Longrightarrow> refusal [nm, k, n] = None \<Longrightarrow> \<exists>a. denotes [nm, k, n] a"
  "to_lower_ascii nm = ''flushall'' \<Longrightarrow> refusal (nm # xs) = None \<Longrightarrow> \<exists>a. denotes (nm # xs) a"
proof -
  assume nm: "to_lower_ascii nm = ''set''" and r: "refusal (nm # k # v # opts) = None"
  then obtain s where "set_options opts no_opts = Inr s" by (auto simp: refusal_def arg_counts_def split: sum.splits)
  then have "denotes (nm # k # v # opts)
      (ASet k v (opt_nx s) (opt_xx s) (if opt_has_ttl s then Some (opt_amount s * opt_unit_ms s) else None))"
    using nm by (simp add: denotes_def)
  then show "\<exists>a. denotes (nm # k # v # opts) a" ..
next
  assume nm: "to_lower_ascii nm = ''expire''" and r: "refusal [nm, k, n] = None"
  then obtain m where "string_to_int64 n = Some m" by (auto simp: refusal_def arg_counts_def split: option.splits)
  then have "denotes [nm, k, n] (AExpire k m)" using nm by (simp add: denotes_def)
  then show "\<exists>a. denotes [nm, k, n] a" ..
next
  assume nm: "to_lower_ascii nm = ''flushall''" and r: "refusal (nm # xs) = None"
  then have "xs = [] \<or> (\<exists>m. xs = [m] \<and> (to_lower_ascii m = ''async'' \<or> to_lower_ascii m = ''sync''))"
    by (cases xs) (auto simp: refusal_def arg_counts_def split: if_splits)
  then have "denotes (nm # xs) AFlushall" using nm by (simp add: denotes_def)
  then show "\<exists>a. denotes (nm # xs) a" ..
qed

lemma denotes_total:
  assumes "argv \<noteq> []" "\<not> (to_lower_ascii (argv ! 0) \<in> {''quit'', ''dbsize''} \<and> length argv = 1)"
    "refusal argv = None \<or> crlf_pos (the (refusal argv)) = None"
  shows "\<exists>a. denotes argv a"
proof (cases "refusal argv")
  case (Some e)
  then have "denotes argv (ARefuse e)" using assms by (simp add: denotes_def)
  then show ?thesis ..
next
  case None
  obtain nm args where v: "argv = nm # args" using assms(1) by (cases argv) auto
  obtain b where b: "map_of arg_counts (to_lower_ascii nm) = Some b"
    using None v by (cases "map_of arg_counts (to_lower_ascii nm)") (auto simp: refusal_def)
  note fit = accepted_counts [OF None [unfolded v] b]
  consider "args = []" | x where "args = [x]" | x y where "args = [x, y]" | x y z r where "args = x # y # z # r"
    by (metis list.exhaust)
  then show ?thesis
    using v b fit assms(2) None arg_counts_names [OF b] denotes_examined(1) [of nm] denotes_examined(2,3) [of nm]
    by cases (elim insertE emptyE; force simp: arg_counts_def intro: denotes_forms)+
qed

subsection \<open>Histories\<close>

text \<open>
  What happens to a context over its life: requests and runs of the active expiry cycle, each at
  a time of its own. The abstract history has the replies and ignores the expiry cycle.
\<close>

datatype occurrence = Request int "bytes list" | ExpiryTick int

definition set_clock :: "int \<Rightarrow> db \<Rightarrow> db" where
  "set_clock t d = d\<lparr>clk := (\<lambda>i. t)\<rparr>"

fun occur :: "(nat \<Rightarrow> key fset \<Rightarrow> key list list) \<Rightarrow> nat \<Rightarrow> cmd_ctx \<Rightarrow> occurrence \<Rightarrow> cmd_ctx" where
  "occur lay n c (Request t argv) = dispatch (c\<lparr>cargv := argv, cdb := set_clock t (cdb c)\<rparr>)"
| "occur lay n c (ExpiryTick t) = c\<lparr>cdb := snd (active_expire_cycle lay n (set_clock t (cdb c)))\<rparr>"

fun aspec_run :: "(int \<times> acmd option) list \<Rightarrow> kspace \<Rightarrow> reply list \<times> kspace" where
  "aspec_run [] A = ([], A)"
| "aspec_run ((t, None) # es) A = aspec_run es A"
| "aspec_run ((t, Some a) # es) A =
     (let (r, A') = aspec t (prune t A) a; (rs, A'') = aspec_run es A' in (r # rs, A''))"

fun occ_denotes :: "occurrence \<Rightarrow> int \<times> acmd option \<Rightarrow> bool" where
  "occ_denotes (Request t argv) (t', Some a) \<longleftrightarrow> t = t' \<and> denotes argv a \<and> argv_ok argv"
| "occ_denotes (ExpiryTick t) (t', None) \<longleftrightarrow> t = t'"
| "occ_denotes _ _ \<longleftrightarrow> False"

lemma db_ok_set_clock: "db_ok d \<Longrightarrow> 500 \<le> t \<Longrightarrow> t \<le> INT64_MAX \<Longrightarrow> db_ok (set_clock t d)"
  by (simp add: db_ok_def db_inv_def clock_ok_def set_clock_def)

lemma frozen_set_clock [simp]: "frozen t (set_clock t d)"
  by (simp add: set_clock_def)

lemma stands_for_set_clock [simp]: "stands_for t (set_clock t' d) A = stands_for t d A"
  by (simp add: stands_for_def visible_def set_clock_def fun_eq_iff)

lemma expire_rounds_clk:
  assumes "expire_rounds lay sample_size n r d = (r', d')"
  shows "frozen t d \<longrightarrow> frozen t d'"
  by (rule expire_rounds_induct [OF assms, where P = "\<lambda>n r d r' d'. frozen t d \<longrightarrow> frozen t d'"])
     (auto dest: expire_round_facts(1))

lemma frozen_expire_cycle:
  assumes "frozen t d" "db_ok d" "stands_for t d A" "active_expire_cycle lay n d = (r, d')"
  shows "db_ok d' \<and> stands_for t d' A"
proof (cases rule: active_expire_cycle_cases [of n lay d])
  case idle
  then show ?thesis using assms by simp
next
  case (cycle r1 d1)
  then have e: "expire_rounds lay n kMaxRounds 0 d = (r, d')" using assms(4) by simp
  have "visible d' t' = visible d t'" if "t \<le> t'" for t'
    using expire_rounds_visible [OF e, of t'] assms(1) that by simp
  moreover have "frozen t d'" using expire_rounds_clk [OF e] assms(1) by blast
  moreover have "\<forall>k v. fmlookup (kmap d') k = Some v \<longrightarrow> value_ok v"
    using expire_rounds_only_removes [OF e] assms(2) by (auto simp: db_ok_def)
  ultimately show ?thesis
    using stands_for_same [OF assms(3)] expire_rounds_inv [OF e] assms(1,2) by (auto simp: db_ok_def)
qed

lemma request_refines:
  assumes "buf_ok (cout c)" "db_ok (cdb c)" "stands_for t (cdb c) A" "500 \<le> t" "t \<le> INT64_MAX"
    "denotes argv a" "argv_ok argv" "occur lay n c (Request t argv) = c'"
  shows "buf_ok (cout c') \<and> db_ok (cdb c') \<and> stands_for t (cdb c') (snd (aspec t (prune t A) a)) \<and>
    buf_contents (cout c') = buf_contents (cout c) @ encode_reply (fst (aspec t (prune t A) a))"
proof -
  let ?c = "c\<lparr>cargv := argv, cdb := set_clock t (cdb c)\<rparr>"
  have "stands_for t (set_clock t (cdb c)) (prune t A)" using assms(3) by (simp add: stands_for_prune)
  then have m: "models t ?c (prune t A)"
    using assms db_ok_set_clock [of "cdb c" t]
    by (simp add: models_def ctx_ok_def prune_prune)
  have a: "denotes (cargv ?c) a" using assms(6) by simp
  from denoted_one_reply [OF m a] show ?thesis
    using dispatch_refines [OF m a] assms(8) by (auto simp: answers_def one_reply_def)
qed

lemma history_refines:
  assumes "list_all2 occ_denotes es as" "sorted (t # map fst as)" "500 \<le> t" "\<forall>e \<in> set as. fst e \<le> INT64_MAX"
    "buf_ok (cout c)" "db_ok (cdb c)" "stands_for t (cdb c) A"
    "aspec_run as A = (rs, A')" "foldl (occur lay n) c es = c'"
  shows "buf_contents (cout c') = buf_contents (cout c) @ concat (map encode_reply rs) \<and>
    stands_for (last (t # map fst as)) (cdb c') A'"
  using assms
proof (induction es as arbitrary: t c A rs rule: list_all2_induct)
  case (Cons e es x as)
  obtain tx oa where x: "x = (tx, oa)" by fastforce
  have t: "t \<le> tx" "500 \<le> tx" "tx \<le> INT64_MAX" "sorted (tx # map fst as)" using Cons.prems(1,2,3) x by auto
  have st: "stands_for tx (cdb c) A" using Cons.prems(6) t(1) by (rule stands_for_mono)
  have rest: "foldl (occur lay n) (occur lay n c e) es = c'" using Cons.prems(8) by simp
  show ?case
  proof (cases oa)
    case None
    then have e: "e = ExpiryTick tx" using Cons.hyps(1) x by (cases e) auto
    obtain r d' where ac: "active_expire_cycle lay n (set_clock tx (cdb c)) = (r, d')" by fastforce
    have d': "db_ok d'" "stands_for tx d' A"
      using frozen_expire_cycle [OF _ _ _ ac, of tx A] st db_ok_set_clock [OF Cons.prems(5) t(2,3)]
      by auto
    have "aspec_run as A = (rs, A')" using Cons.prems(7) x None by simp
    then show ?thesis
      using Cons.IH [of tx "occur lay n c e" A rs] t d' Cons.prems(3,4) rest e ac x
      by (simp split: if_splits)
  next
    case (Some a)
    then obtain argv where e: "e = Request tx argv" and dn: "denotes argv a" "argv_ok argv"
      using Cons.hyps(1) x by (cases e) auto
    obtain r A1 where a1: "aspec tx (prune tx A) a = (r, A1)" by fastforce
    obtain rs' where rs: "aspec_run as A1 = (rs', A')" "rs = r # rs'"
      using Cons.prems(7) x Some a1 by (auto split: prod.splits)
    note rr = request_refines [OF Cons.prems(4,5) st t(2,3) dn, of lay n, OF refl]
    then show ?thesis
      using Cons.IH [of tx "occur lay n c e" A1 rs'] t Cons.prems(3) rest e rs a1 x
      by (simp split: if_splits)
  qed
qed auto

subsection \<open>The two commands outside the specification\<close>

lemma dispatch_quit:
  assumes "buf_ok (cout c)" "to_lower_ascii (cargv c ! 0) = ''quit''" "length (cargv c) = 1"
  shows "buf_contents (cout (dispatch c)) = buf_contents (cout c) @ encode_reply (RSimple ''OK'') \<and> cdb (dispatch c) = cdb c \<and>
    close_after_reply (dispatch c)"
proof -
  have "dispatch c = cmd_quit c"
    using assms(2,3) by (simp add: dispatch_def table_find_def the_table_rows arity_ok_def)
  then show ?thesis using assms(1) rs.emit_contents [of "cout c" "RSimple ''OK''"]
    by (simp add: cmd_quit_def say_ok_def reply_ok_eq del: encode_reply.simps)
qed

lemma dispatch_dbsize:
  assumes "buf_ok (cout c)" "to_lower_ascii (cargv c ! 0) = ''dbsize''" "length (cargv c) = 1" "int (db_size (cdb c)) \<le> INT64_MAX"
  shows "buf_contents (cout (dispatch c)) = buf_contents (cout c) @ encode_reply (RInt (int (db_size (cdb c)))) \<and> cdb (dispatch c) = cdb c"
proof -
  have "dispatch c = cmd_dbsize c"
    using assms(2,3) by (simp add: dispatch_def table_find_def the_table_rows arity_ok_def)
  moreover have "wf_reply (RInt (int (db_size (cdb c))))" using assms(4) by (simp add: in_int64_def)
  ultimately show ?thesis using assms(1) rs.emit_contents [of "cout c" "RInt (int (db_size (cdb c)))"]
    by (simp add: cmd_dbsize_def say_def del: encode_reply.simps)
qed

text \<open>What is stored and cannot be seen any more has a deadline.\<close>

lemma stored_count:
  assumes "db_inv d" "stands_for t d A"
  shows "card (dom (prune t A)) \<le> db_size d" "db_size d \<le> card (dom (prune t A)) + volatile_size d"
proof -
  have p: "dom (prune t A) = dom (visible d t)" by (auto simp: stands_for_now [OF assms(2), symmetric] dom_def)
  show "card (dom (prune t A)) \<le> db_size d" using visible_dom_size [of d t] p by simp
  have sub: "dom (visible d t) \<union> fset (volatile_keys d) \<subseteq> fset (fmdom (kmap d))"
    using assms(1) by (auto simp: db_inv_def visible_def fmlookup_dom_iff split: option.splits)
  have "fset (fmdom (kmap d)) \<subseteq> dom (visible d t) \<union> fset (volatile_keys d)"
    using assms(1) by (auto simp: db_inv_def visible_def live_def is_expired_def fmlookup_dom_iff split: option.splits)
  then have "card (fset (fmdom (kmap d))) \<le> card (dom (visible d t) \<union> fset (volatile_keys d))"
    by (intro card_mono finite_subset [OF sub]) auto
  also have "\<dots> \<le> card (dom (visible d t)) + card (fset (volatile_keys d))" by (rule card_Un_le)
  finally show "db_size d \<le> card (dom (prune t A)) + volatile_size d" using p by (simp add: db_size_def volatile_size_def fcard.rep_eq)
qed

subsection \<open>Properties\<close>

text \<open>
  C12: each command does what the abstract store says. Every request, save for QUIT, DBSIZE and unknown
  commands with a line end in what is quoted of them, has a meaning in the specification: one of
  its commands, or a refusal with its error. Dispatching it at time \<open>t\<close>, which
  every reading of the clock gives until the command is done, writes exactly the bytes
  of the reply the specification gives and leaves a keyspace that stands, now and at every later
  time, for the store the specification gives. The specification has no lazy deletion, no index
  and no buffers. QUIT is acknowledged and asks for the connection to be closed. DBSIZE is where
  lazy deletion shows: its answer is at least the number of keys of the store, and exceeds it by at
  most the number of keys with a deadline.
\<close>

theorem command_refines_spec:
  assumes "ctx_ok c" "clk (cdb c) = (\<lambda>i. t)" "stands_for t (cdb c) A" "cargv c \<noteq> []"
    "refusal (cargv c) = None \<or> crlf_pos (the (refusal (cargv c))) = None" "int (db_size (cdb c)) \<le> INT64_MAX"
    "nm = to_lower_ascii (cargv c ! 0)" "out = buf_contents (cout c)" "x = dispatch c"
  shows "if nm = ''quit'' \<and> length (cargv c) = 1
    then buf_contents (cout x) = out @ encode_reply (RSimple ''OK'') \<and> cdb x = cdb c \<and> close_after_reply x
    else if nm = ''dbsize'' \<and> length (cargv c) = 1
    then \<exists>n. buf_contents (cout x) = out @ encode_reply (RInt (int n)) \<and> cdb x = cdb c \<and>
      card (dom (prune t A)) \<le> n \<and> n \<le> card (dom (prune t A)) + volatile_size (cdb c)
    else (\<exists>a. denotes (cargv c) a) \<and>
      (\<forall>a r A'. denotes (cargv c) a \<longrightarrow> aspec t (prune t A) a = (r, A') \<longrightarrow>
         buf_contents (cout x) = out @ encode_reply r \<and> stands_for t (cdb x) A')"
proof -
  have b: "buf_ok (cout c)" "db_inv (cdb c)" using assms(1) by (simp_all add: ctx_ok_def db_ok_def)
  have "models t c (prune t A)"
    using assms(1-3) by (simp add: models_def stands_for_prune prune_prune)
  from dispatch_refines [OF this] have "buf_contents (cout (dispatch c)) = buf_contents (cout c) @ encode_reply r \<and>
      stands_for t (cdb (dispatch c)) A'" if "denotes (cargv c) a" "aspec t (prune t A) a = (r, A')" for a r A'
    using that by (fastforce simp: answers_def)
  moreover have "\<exists>a. denotes (cargv c) a" if "\<not> (nm \<in> {''quit'', ''dbsize''} \<and> length (cargv c) = 1)"
    using denotes_total [OF assms(4) _ assms(5)] that assms(7) by simp
  moreover have "buf_contents (cout x) = out @ encode_reply (RInt (int (db_size (cdb c)))) \<and> cdb x = cdb c"
    if "nm = ''dbsize''" "length (cargv c) = 1"
    using dispatch_dbsize [OF b(1) _ that(2) assms(6)] that(1) assms(7-9) by simp
  moreover have "buf_contents (cout x) = out @ encode_reply (RSimple ''OK'') \<and> cdb x = cdb c \<and> close_after_reply x"
    if "nm = ''quit''" "length (cargv c) = 1"
    using dispatch_quit [OF b(1) _ that(2)] that(1) assms(7-9) by simp
  ultimately show ?thesis using stored_count [OF b(2) assms(3)] assms(8,9) by (auto simp del: encode_reply.simps)
qed

lemma denotes_get: "denotes [''GET'', k] (AGet k)"
proof -
  have "to_lower_ascii ''GET'' = ''get''" by code_simp
  then show ?thesis by (simp add: denotes_def)
qed

lemma stands_for_new: "stands_for t (new_db seed c) Map.empty"
  by (simp add: stands_for_def visible_new prune_def fun_eq_iff)

theorem command_refines_spec_witness:
  "buf_contents (cout (dispatch \<lparr>cargv = [''GET'', ''k''], cout = new_buffer,
     cdb = set_string (new_db 1 (\<lambda>i. 1000)) ''k'' ''v'' 2000, close_after_reply = False\<rparr>)) =
   encode_reply (RBulk ''v'')"
proof -
  let ?d = "set_string (new_db 1 (\<lambda>i. 1000)) ''k'' ''v'' 2000"
  let ?c = "\<lparr>cargv = [''GET'', ''k''], cout = new_buffer, cdb = ?d, close_after_reply = False\<rparr>"
  have d: "db_ok ?d"
    by (intro db_ok_set_string db_ok_new) (simp_all add: clock_ok_def in_int64_def)
  have s: "stands_for 1000 ?d [''k'' \<mapsto> (''v'', Some 2000)]"
    using stands_for_set_string [OF stands_for_new, of 1000 1 "\<lambda>i. 1000" "''k''" "''v''" 2000]
    by (simp add: kNoExpiry_def)
  have p: "aspec 1000 (prune 1000 [''k'' \<mapsto> (''v'', Some 2000)]) (AGet ''k'') =
      (RBulk ''v'', prune 1000 [''k'' \<mapsto> (''v'', Some 2000)])"
    by (simp add: prune_def)
  have "ctx_ok ?c" using d by (simp add: ctx_ok_def argv_ok_def)
  moreover have "clk (cdb ?c) = (\<lambda>i. 1000)" "stands_for 1000 (cdb ?c) [''k'' \<mapsto> (''v'', Some 2000)]" "cargv ?c \<noteq> []"
    using s by (simp_all add: set_string_def new_db_def)
  moreover have "to_lower_ascii ''GET'' = ''get''" by code_simp
  then have "refusal (cargv ?c) = None \<or> crlf_pos (the (refusal (cargv ?c))) = None"
    by (simp add: refusal_def arg_counts_def)
  moreover have "int (db_size (cdb ?c)) \<le> INT64_MAX" by (simp add: db_size_def set_string_def new_db_def fcard.rep_eq)
  ultimately have "buf_contents (cout (dispatch ?c)) = buf_contents (cout ?c) @ encode_reply (RBulk ''v'')"
    using command_refines_spec [of ?c 1000, OF _ _ _ _ _ _ refl refl refl] denotes_get [of "''k''"] p by auto
  then show ?thesis by simp
qed

text \<open>
  Whole histories do what the abstract store says. Over any sequence of requests and runs of the
  active expiry cycle at non-decreasing times, the bytes written are exactly the replies of the
  abstract history in order, and the keyspace stands for the abstract store at the end. In
  particular neither lazy nor active expiry can be observed.
\<close>

theorem history_refines_spec:
  assumes "list_all2 occ_denotes es as" "sorted (t # map fst as)" "500 \<le> t" "\<forall>e \<in> set as. fst e \<le> INT64_MAX"
    "buf_ok (cout c)" "db_ok (cdb c)" "stands_for t (cdb c) A"
    "aspec_run as A = (rs, A')" "foldl (occur lay n) c es = c'"
  shows "buf_contents (cout c') = buf_contents (cout c) @ concat (map encode_reply rs) \<and>
    stands_for (last (t # map fst as)) (cdb c') A'"
  using assms by (rule history_refines)

theorem history_refines_spec_witness:
  "buf_contents (cout (foldl (occur sorted_layout 20)
       \<lparr>cargv = [], cout = new_buffer, cdb = set_string (new_db 1 (\<lambda>i. 1000)) ''k'' ''v'' 2000, close_after_reply = False\<rparr>
       [Request 1500 [''GET'', ''k''], ExpiryTick 2500, Request 3000 [''GET'', ''k'']])) =
   encode_reply (RBulk ''v'') @ encode_reply RNull"
proof -
  let ?d = "set_string (new_db 1 (\<lambda>i. 1000)) ''k'' ''v'' 2000"
  let ?c = "\<lparr>cargv = [], cout = new_buffer, cdb = ?d, close_after_reply = False\<rparr>"
  let ?A = "[''k'' \<mapsto> (''v'', Some 2000)]"
  let ?as = "[(1500, Some (AGet ''k'')), (2500, None), (3000, Some (AGet ''k''))]"
  let ?es = "[Request 1500 [''GET'', ''k''], ExpiryTick 2500, Request 3000 [''GET'', ''k'']]"
  have "db_ok ?d"
    by (intro db_ok_set_string db_ok_new) (simp_all add: clock_ok_def in_int64_def)
  moreover have "stands_for 1000 ?d ?A"
    using stands_for_set_string [OF stands_for_new, of 1000 1 "\<lambda>i. 1000" "''k''" "''v''" 2000]
    by (simp add: kNoExpiry_def)
  moreover have "list_all2 occ_denotes ?es ?as" by (simp add: denotes_get argv_ok_def)
  moreover have "aspec_run ?as ?A = ([RBulk ''v'', RNull], prune 3000 (prune 1500 ?A))"
    by (simp add: prune_def)
  ultimately show ?thesis
    using history_refines_spec [of ?es ?as 1000 ?c ?A "[RBulk ''v'', RNull]" "prune 3000 (prune 1500 ?A)" sorted_layout 20]
    by simp
qed

text \<open>
  C39: a moving clock shows between the steps of one command. EXPIRE looks the key up, reads the clock
  for the new deadline, and then sets it, which looks the key up again; the result of that is not
  used. If the old deadline comes between the two lookups, EXPIRE answers that the time to live
  was set although the key has just been deleted.
\<close>

theorem expire_can_lose_key:
  assumes "fmlookup (kmap d) k = Some v" "has_expiry v" "clk d 0 < expire_at v" "expire_at v \<le> clk d 2"
    "string_to_int64 n = Some secs" "0 < secs" "ttl_to_deadline secs 1000 (clk d 1) = Some dl"
    "to_lower_ascii nm = ''expire''" "buf_ok out"
    "c = dispatch \<lparr>cargv = [nm, k, n], cout = out, cdb = d, close_after_reply = False\<rparr>"
  shows "buf_contents (cout c) = buf_contents out @ encode_reply (RInt 1) \<and> fmlookup (kmap (cdb c)) k = None"
proof -
  let ?c = "\<lparr>cargv = [nm, k, n], cout = out, cdb = d, close_after_reply = False\<rparr>"
  let ?d1 = "d\<lparr>clk := (\<lambda>i. clk d (Suc i))\<rparr>" let ?d2 = "d\<lparr>clk := (\<lambda>i. clk d (Suc (Suc i)))\<rparr>"
  let ?d3 = "d\<lparr>clk := (\<lambda>i. clk d (Suc (Suc (Suc i))))\<rparr>"
  have l1: "lookup d k = (Some v, ?d1)" using assms(1-3) by (simp add: lookup_def now_ms_def is_expired_def)
  have l2: "lookup ?d2 k = (None, reclaim ?d3 k)"
    using assms(1,2,4) by (simp add: lookup_def now_ms_def is_expired_def numeral_2_eq_2)
  have s2: "snd (set_expire_at ?d2 k dl) = reclaim ?d3 k" using l2 by (simp add: set_expire_at_def)
  have "dispatch ?c = cmd_expire ?c"
    using assms(8) by (simp add: dispatch_def table_find_def the_table_rows arity_ok_def)
  also have "\<dots> = say (?c\<lparr>cdb := reclaim ?d3 k\<rparr>) (RInt 1)"
    using assms(5-7) l1 s2 by (simp add: cmd_expire_def now_ms_def)
  finally have c: "c = say (?c\<lparr>cdb := reclaim ?d3 k\<rparr>) (RInt 1)" using assms(10) by simp
  have "wf_reply (RInt 1)" by (simp add: in_int64_def)
  then show ?thesis using c assms(9) rs.emit_contents [of out "RInt 1"] by (simp add: say_def reclaim_def)
qed

theorem expire_can_lose_key_witness:
  "buf_contents (cout (dispatch \<lparr>cargv = [''expire'', ''k'', ''9''], cout = new_buffer,
       cdb = set_string (new_db 1 (\<lambda>i. 1998 + int i)) ''k'' ''v'' 2000, close_after_reply = False\<rparr>)) =
     encode_reply (RInt 1) \<and>
   fmlookup (kmap (cdb (dispatch \<lparr>cargv = [''expire'', ''k'', ''9''], cout = new_buffer,
       cdb = set_string (new_db 1 (\<lambda>i. 1998 + int i)) ''k'' ''v'' 2000, close_after_reply = False\<rparr>))) ''k'' = None"
proof -
  let ?d = "set_string (new_db 1 (\<lambda>i. 1998 + int i)) ''k'' ''v'' 2000"
  let ?v = "\<lparr>vtype = StringType, vdata = ''v'', expire_at = 2000\<rparr>"
  have v: "fmlookup (kmap ?d) ''k'' = Some ?v" "has_expiry ?v" "clk ?d 0 < expire_at ?v" "expire_at ?v \<le> clk ?d 2"
    by (simp_all add: set_string_def new_db_def has_expiry_def kNoExpiry_def)
  have n: "string_to_int64 ''9'' = Some 9" "to_lower_ascii ''expire'' = ''expire''" by code_simp+
  have dl: "ttl_to_deadline 9 1000 (clk ?d 1) = Some 10999"
    by (simp add: ttl_to_deadline_def set_string_def new_db_def sdiv_pos_eq)
  from expire_can_lose_key [OF v n(1) _ dl n(2) _ refl, of new_buffer] show ?thesis by simp
qed

end
