(* ===== verification/Liveness.thy ===== *)
theory Liveness
  imports Session
begin

text \<open>
  That replies do arrive: as long as the socket does not fail, the client does not quit and its
  replies fit the output limit, the connection stays open and every command is answered. Also
  here: what the event loop guarantees about events and about the listener.
\<close>

subsection \<open>A connection stays open\<close>

fun send_fine :: "send_outcome \<Rightarrow> bool" where
  "send_fine (SendTook n) \<longleftrightarrow> 0 < n"
| "send_fine SendIntr \<longleftrightarrow> True"
| "send_fine SendAgain \<longleftrightarrow> True"
| "send_fine SendFail \<longleftrightarrow> False"

lemma send_loop_fine:
  "list_all send_fine os \<Longrightarrow> send_loop os out w = (ok, os', out', w') \<Longrightarrow> ok \<and> list_all send_fine os'"
proof (induction os arbitrary: out w)
  case Nil
  then show ?case by (auto simp: send_loop.simps [of "[]"] split: if_splits)
next
  case (Cons x os)
  then show ?case
    by (cases x) (auto simp: send_loop.simps [of "_ # os"] split: if_splits)
qed

lemma flush_output_open:
  assumes "list_all send_fine (sends (kern s))" "\<not> close_after_write c" "flush_output s c = (oc, s')"
  shows "\<exists>c'. oc = Some c' \<and> \<not> close_after_write c' \<and> list_all send_fine (sends (kern s'))"
proof -
  obtain ok os out w where l: "send_loop (sends (kern s)) (conn_out c) (wire (kern s) (conn_fd c)) = (ok, os, out, w)"
    by (metis prod_cases4)
  have "ok" "list_all send_fine os" using send_loop_fine [OF assms(1) l] by auto
  then show ?thesis
    using assms(2,3) l
    by (auto simp: flush_output_def arm_write_def loop_set_write_interest_sends Let_def split: if_splits)
qed

lemma input_loop_open:
  "in_hand fd s c \<Longrightarrow> drain (conn_parser c) (buf_contents (conn_in c)) = (cmds, Incomplete, p', r') \<Longrightarrow>
   exec cmds (sdb s) = (bs, d', False) \<Longrightarrow> readable (conn_out c) + length bs \<le> max_output_buffer (cfg s) \<Longrightarrow>
   \<exists>c' s'. input_loop s c = (Some c', s') \<and> kern s' = kern s"
proof (induction s c arbitrary: cmds bs rule: input_loop.induct)
  case (1 s c)
  note h = in_hand_db [OF "1.prems"(1)]
  from "1.prems"(1) show ?case
  proof (cases rule: input_loop_cases)
    case (waits p b)
    then show ?thesis by simp
  next
    case (breaks e p b)
    with drain_parse [OF "1.prems"(1) breaks(1) "1.prems"(2)] show ?thesis by simp
  next
    case (skips p b)
    obtain cs where cs: "cmds = [] # cs" "drain p (buf_contents b) = (cs, Incomplete, p', r')"
      using drain_parse [OF "1.prems"(1) skips(1) "1.prems"(2)] by auto
    from "1.IH"(1) [OF skips(1) [symmetric] refl refl refl skips(3), of cs bs] show ?thesis
      using cs "1.prems"(3,4) skips(2) by simp
  next
    case (quits argv p b x)
    then show ?thesis by simp
  next
    case (overflows argv p b x)
    note o = dispatch_output [OF h [THEN conjunct2], of argv "sdb s", folded overflows(3)]
    obtain cs where "cmds = argv # cs" using drain_parse [OF "1.prems"(1) overflows(1) "1.prems"(2)] by auto
    then have "length (buf_contents (cout (dispatch (fresh_ctx argv new_buffer (sdb s))))) \<le> length bs"
      using "1.prems"(3) overflows(2,4) o(3,4) by (auto simp: Let_def split: prod.splits)
    then have "readable (cout x) \<le> readable (conn_out c) + length bs"
      using arg_cong [OF o(2), of length] h o(1) by simp
    then show ?thesis using overflows(5) "1.prems"(4) by simp
  next
    case (answers argv p b x)
    note o = dispatch_output [OF h [THEN conjunct2], of argv "sdb s", folded answers(3)]
    obtain cs where cs: "cmds = argv # cs" "drain p (buf_contents b) = (cs, Incomplete, p', r')"
      using drain_parse [OF "1.prems"(1) answers(1) "1.prems"(2)] by auto
    obtain bs1 where e: "exec cs (cdb x) = (bs1, d', False)"
      "bs = buf_contents (cout (dispatch (fresh_ctx argv new_buffer (sdb s)))) @ bs1"
      using "1.prems"(3) cs(1) answers(2,4) o(3,4) by (auto simp: Let_def split: prod.splits)
    have "readable (cout x) + length bs1 = readable (conn_out c) + length bs"
      using arg_cong [OF o(2), of length] e(2) h o(1) by simp
    then show ?thesis
      using "1.IH"(2) [OF answers(1) [symmetric] _ _ answers(2,3) answers(4) _ answers(7), of cs bs1]
        answers(5,6) cs(2) e(1) "1.prems"(4) by simp
  qed
qed

lemma chunk_event_open:
  assumes "server_inv s" "conns s fd = Some c" "\<not> close_after_write c" "list_all send_fine (sends (kern s))"
    "bs \<noteq> []" "length bs \<le> kReadChunk" "s' = on_conn_event s fd True wr (ReadBytes bs)"
    "drain (conn_parser c) (buf_contents (conn_in c) @ bs) = (cmds, Incomplete, p', r')"
    "exec cmds (sdb s) = (out, d', False)"
    "readable (conn_out c) + length out \<le> max_output_buffer (cfg s)"
  shows "\<exists>c'. conns s' fd = Some c' \<and> \<not> close_after_write c'"
proof -
  define b where "b = commit (write_at (ensure_writable (conn_in c) kReadChunk) bs) (length bs)"
  note rd = read_in_hand [OF at_rest(1) [OF assms(1,2)] refl refl, of bs]
  have ih: "in_hand fd s (c\<lparr>conn_in := b\<rparr>)" and cb: "buf_contents b = buf_contents (conn_in c) @ bs"
    using rd assms(6) by (simp_all add: b_def)
  obtain ci si where il: "input_loop s (c\<lparr>conn_in := b\<rparr>) = (Some ci, si)" "kern si = kern s"
    using input_loop_open [OF ih, of cmds p' r' out d'] assms(8,9,10) cb by auto
  have cl: "\<not> close_after_write ci"
    using input_loop_exec [OF ih, of cmds Incomplete p' r' out d' False ci si] assms(3,8,9) cb il(1) by simp
  obtain oc1 s1 where fl: "flush_output si ci = (oc1, s1)" by fastforce
  obtain c1 where c1: "oc1 = Some c1" "\<not> close_after_write c1" "list_all send_fine (sends (kern s1))"
    using flush_output_open [OF _ cl fl] assms(4) il(2) by auto
  have e1: "(if True then handle_read s c (ReadBytes bs) else (Some c, s)) = (Some c1, s1)"
    using assms(5,6) il(1) fl c1(1) by (simp add: handle_read_bytes process_input_def b_def)
  note st = on_conn_event_steps [OF assms(1,2) e1]
  obtain oc2 s2 where e2: "(if wr \<and> \<not> buf_empty (conn_out c1) then flush_output s1 c1 else (Some c1, s1)) = (oc2, s2)"
    by fastforce
  obtain c2 where "oc2 = Some c2" "\<not> close_after_write c2"
    using e2 c1(2,3) flush_output_open [of s1 c1 oc2 s2] by (auto split: if_splits)
  then show ?thesis using st(4) [OF refl e2] assms(7) by auto
qed

lemma drains_open:
  assumes "server_inv s" "conns s fd = Some c" "\<not> close_after_write c" "list_all send_fine os"
  shows "\<exists>c'. conns (client_step fd s (Drains os)) fd = Some c' \<and> \<not> close_after_write c'"
proof -
  let ?s = "set_sends os s"
  have i: "server_inv ?s" "conns ?s fd = Some c" using set_sends_inv [OF assms(1)] assms(2) by auto
  have e1: "(if False then handle_read ?s c ReadAgain else (Some c, ?s)) = (Some c, ?s)" by simp
  note st = on_conn_event_steps [OF i e1]
  obtain oc2 s2 where e2: "(if True \<and> \<not> buf_empty (conn_out c) then flush_output ?s c else (Some c, ?s)) = (oc2, s2)"
    by fastforce
  have "list_all send_fine (sends (kern ?s))" using assms(4) by (simp add: set_sends_def)
  then obtain c2 where "oc2 = Some c2" "\<not> close_after_write c2"
    using e2 assms(3) flush_output_open [of ?s c oc2 s2] by (auto split: if_splits)
  then show ?thesis using st(4) [OF refl e2] by auto
qed

fun sends_of :: "client_event \<Rightarrow> send_outcome list" where
  "sends_of (Chunk bs wr os) = os"
| "sends_of (Drains os) = os"

lemma client_steps_cfg: "server_inv s \<Longrightarrow> cfg (foldl (client_step fd) s evs) = cfg s"
proof (induction evs arbitrary: s)
  case (Cons e evs)
  have "cfg (client_step fd s e) = cfg s"
    using on_conn_event_inv(4) [OF set_sends_inv [OF Cons.prems]] by (cases e) (simp_all add: set_sends_def)
  then show ?case using Cons.IH [OF client_step_inv [OF Cons.prems]] by simp
qed simp

lemma client_session_open:
  assumes "server_inv s" "conns s fd = Some c" "\<not> close_after_write c" "wire (kern s) fd = []"
    "drain (conn_parser c) (buf_contents (conn_in c)) = ([], Incomplete, conn_parser c, buf_contents (conn_in c))"
    "\<forall>e \<in> set evs. event_ok e \<and> list_all send_fine (sends_of e)"
    "\<forall>pre post. evs = pre @ post \<longrightarrow>
       (\<exists>cs p' r'. drain (conn_parser c) (buf_contents (conn_in c) @ concat (map chunk_of pre)) = (cs, Incomplete, p', r'))"
    "drain (conn_parser c) (buf_contents (conn_in c) @ concat (map chunk_of evs)) = (cmds, Incomplete, p', r')"
    "exec cmds (sdb s) = (out, d', False)"
    "readable (conn_out c) + length out \<le> max_output_buffer (cfg s)"
  shows "\<exists>c'. conns (foldl (client_step fd) s evs) fd = Some c' \<and> \<not> close_after_write c'"
  using assms(6-10)
proof (induction evs arbitrary: cmds p' r' out d' rule: rev_induct)
  case Nil
  then show ?case using assms(2,3) by simp
next
  case (snoc e evs)
  let ?s1 = "foldl (client_step fd) s evs"
  have i1: "server_inv ?s1" using assms(1) by (rule client_steps_inv)
  obtain cs1 p1 r1 where d1: "drain (conn_parser c) (buf_contents (conn_in c) @ concat (map chunk_of evs)) =
      (cs1, Incomplete, p1, r1)"
    using snoc.prems(2) by (metis append_eq_append_conv)
  obtain cs2 where d2: "drain p1 (r1 @ chunk_of e) = (cs2, Incomplete, p', r')" "cmds = cs1 @ cs2"
    using drain_append [OF d1, of "chunk_of e"] snoc.prems(3) by (auto split: prod.splits)
  obtain out1 dd q1 where x1: "exec cs1 (sdb s) = (out1, dd, q1)" by (metis prod_cases3)
  have q1: "\<not> q1" using exec_quit_append [of cs1 "sdb s" out1 dd cs2] x1 snoc.prems(4) d2(2) by auto
  obtain out2 where x2: "exec cs2 dd = (out2, d', False)" "out = out1 @ out2"
    using exec_append [of cs1 "sdb s" out1 dd cs2] x1 q1 snoc.prems(4) d2(2) by (auto split: prod.splits)
  have pre: "\<forall>pre post. evs = pre @ post \<longrightarrow>
      (\<exists>cs p' r'. drain (conn_parser c) (buf_contents (conn_in c) @ concat (map chunk_of pre)) = (cs, Incomplete, p', r'))"
    using snoc.prems(2) by (metis append_assoc)
  obtain c1 where c1: "conns ?s1 fd = Some c1" "\<not> close_after_write c1"
    using snoc.IH [OF _ pre d1, of out1 dd] snoc.prems(1,5) x1 q1 x2(2) by auto
  have cs: "sdb ?s1 = dd" "conn_parser c1 = p1" "buf_contents (conn_in c1) = r1"
    "wire (kern ?s1) fd @ buf_contents (conn_out c1) = buf_contents (conn_out c) @ out1"
    using client_session [OF assms(1,2) _ refl c1(1) assms(5) c1(2)] snoc.prems(1) d1 x1 assms(4) by auto
  have "length (buf_contents (conn_out c1)) \<le> length (buf_contents (conn_out c)) + length out1"
    using arg_cong [OF cs(4), of length] by simp
  moreover have "buf_ok (conn_out c)" "buf_ok (conn_out c1)"
    using at_rest [OF assms(1,2)] at_rest [OF i1 c1(1)] by (simp_all add: in_hand_def conn_mid_def)
  ultimately have fits: "readable (conn_out c1) + length out2 \<le> max_output_buffer (cfg ?s1)"
    using snoc.prems(5) x2(2) client_steps_cfg [OF assms(1)] by simp
  show ?case
  proof (cases e)
    case (Drains os)
    then show ?thesis using drains_open [OF i1 c1] snoc.prems(1) by simp
  next
    case (Chunk bs wr os)
    have "server_inv (set_sends os ?s1)" "conns (set_sends os ?s1) fd = Some c1"
      using set_sends_inv [OF i1] c1(1) by auto
    from chunk_event_open [OF this c1(2), of bs _ wr cs2 p' r' out2 d'] show ?thesis
      using Chunk snoc.prems(1) d2(1) cs x2(1) fits by (simp add: set_sends_def)
  qed
qed

subsection \<open>Pipelines\<close>

lemma new_conn_fields [simp]:
  "conn_parser (new_conn fd peer) = new_parser default_limits" "conn_in (new_conn fd peer) = new_buffer"
  "conn_out (new_conn fd peer) = new_buffer" "\<not> close_after_write (new_conn fd peer)"
  by (simp_all add: new_conn_def)

lemma readable_new [simp]: "readable new_buffer = 0"
  by (simp add: readable_def new_buffer_def)

text \<open>A fresh connection over which a client sends well-formed commands, however it is cut up.\<close>

lemma pipeline_served:
  assumes "server_inv s" "conns s fd = Some (new_conn fd peer)" "wire (kern s) fd = []"
    "\<forall>e \<in> set evs. event_ok e \<and> list_all send_fine (sends_of e)"
    "concat (map chunk_of evs) = encode_pipeline cmds" "\<forall>c \<in> set cmds. valid_command default_limits c"
    "exec cmds (sdb s) = (out, d, False)" "length out \<le> max_output_buffer (cfg s)"
    "s' = foldl (client_step fd) s evs"
  shows "\<exists>c. conns s' fd = Some c \<and> wire (kern s') fd @ buf_contents (conn_out c) = out \<and> sdb s' = d \<and>
    buf_contents (conn_in c) = []"
proof -
  have dr: "drain (new_parser default_limits) (concat (map chunk_of evs)) = (cmds, Incomplete, new_parser default_limits, [])"
    using drain_pipeline [OF assms(6)] assms(5) by simp
  have pre: "\<forall>pre post. evs = pre @ post \<longrightarrow>
      (\<exists>cs p' r'. drain (new_parser default_limits) (concat (map chunk_of pre)) = (cs, Incomplete, p', r'))"
    using drain_pipeline_prefix [OF assms(6) limits_ok_default] assms(5)
    by (metis concat_append map_append)
  obtain c where c: "conns s' fd = Some c" "\<not> close_after_write c"
    using client_session_open [OF assms(1,2) _ assms(3) _ assms(4), of cmds _ _ out d] dr pre assms(7,8,9) by auto
  show ?thesis
    using client_session [OF assms(1,2) _ assms(9) c(1) _ c(2)] assms(3,4,7) dr c(1) by auto
qed

subsection \<open>Events reach the connection they were reported for\<close>

lemma batch_keeps_conn:
  "server_inv s \<Longrightarrow> fd \<notin> (\<lambda>e. ev_fd (fst e)) ` set evs \<Longrightarrow> conns s fd = Some c \<Longrightarrow>
     conns (foldl dispatch_event s evs) fd = Some c"
proof (induction evs arbitrary: s)
  case (Cons e evs)
  have "server_inv (dispatch_event s e)" "conns (dispatch_event s e) fd = Some c"
    using dispatch_event_inv(1) [OF Cons.prems(1), of "fst e" "snd e"]
      dispatch_event_inv(2) [OF Cons.prems(1), of fd "fst e" c "snd e"] Cons.prems(2,3) by auto
  then show ?case using Cons.IH Cons.prems(2) by simp
qed simp

subsection \<open>The listener\<close>

text \<open>
  Out of descriptors. With a spare, one connection is accepted onto it and closed, and a new spare
  is opened; without one, or when it cannot be opened again, the listener is no longer polled.
\<close>

lemma pause_listener_fields [simp]:
  "listener_paused (pause_listener s)" "conns (pause_listener s) = conns s" "spare_fd (pause_listener s) = spare_fd s"
  "open_fds (kern (pause_listener s)) = open_fds (kern s)" "accepts (kern (pause_listener s)) = accepts (kern s)"
  by (auto simp: pause_listener_def unregister_def loop_remove_def poller_del_def Let_def split: option.splits)

lemma accept_then_close:
  assumes "kernel_ok k" "sys_accept k = (r, fd, k')" "k'' = (if fd \<ge> 0 then sys_close fd k' else k')"
  shows "open_fds k'' = open_fds k" "accepts k'' = (\<lambda>i. accepts k (Suc i))" "opens k'' = opens k" "kernel_ok k''"
  using assms by (auto simp: sys_accept_def sys_close_def kernel_ok_def Let_def split: if_splits)

lemma reopen_spare_exact:
  assumes "kernel_ok (kern s)" "spare_fd s < 0" "reopen_spare_fd s = (ok, s')"
  shows "ok \<longleftrightarrow> opens (kern s) 0" "conns s' = conns s" "sloop s' = sloop s" "listener_paused s' = listener_paused s"
    "accepts (kern s') = accepts (kern s)"
    "ok \<Longrightarrow> 0 \<le> spare_fd s' \<and> spare_fd s' |\<notin>| open_fds (kern s) \<and> open_fds (kern s') = finsert (spare_fd s') (open_fds (kern s))"
    "\<not> ok \<Longrightarrow> spare_fd s' = - 1 \<and> open_fds (kern s') = open_fds (kern s)"
  using assms by (auto simp: reopen_spare_fd_def sys_open_def kernel_ok_def Let_def split: if_splits)

lemma shed_connection_exact:
  assumes "server_inv s" "s' = shed_connection s"
  shows "conns s' = conns s \<and>
    (if spare_fd s < 0
     then listener_paused s' \<and> interest (kern s') (listen_fd s') = None \<and> spare_fd s' = spare_fd s \<and>
       open_fds (kern s') = open_fds (kern s) \<and> accepts (kern s') = accepts (kern s)
     else accepts (kern s') = (\<lambda>i. accepts (kern s) (Suc i)) \<and>
       (if opens (kern s) 0
        then 0 \<le> spare_fd s' \<and> spare_fd s' \<notin> fset (open_fds (kern s)) - {spare_fd s} \<and>
          fset (open_fds (kern s')) = insert (spare_fd s') (fset (open_fds (kern s)) - {spare_fd s}) \<and>
          sloop s' = sloop s \<and> listener_paused s' = listener_paused s
        else spare_fd s' = - 1 \<and> fset (open_fds (kern s')) = fset (open_fds (kern s)) - {spare_fd s} \<and>
          listener_paused s' \<and> interest (kern s') (listen_fd s') = None))"
proof -
  have i: "inv_but {} s'" using shed_connection_inv assms by (simp add: server_inv_def)
  have paused: "interest (kern s') (listen_fd s') = None" if "listener_paused s'"
    using i that by (simp add: inv_defs loop_synced_def)
  show ?thesis
  proof (cases rule: shed_connection_cases [of s])
    case nothing
    then show ?thesis using assms(2) paused by simp
  next
    case (spends r fd k L ok s3)
    let ?k = "if fd \<ge> 0 then sys_close fd k else k"
    have k0: "kernel_ok (sys_close (spare_fd s) (kern s))" using assms(1) by (simp add: server_inv_def inv_defs)
    note a = accept_then_close [OF k0 spends(2) refl]
    let ?s2 = "s\<lparr>spare_fd := - 1, kern := ?k\<lparr>klog := L\<rparr>\<rparr>"
    have k2: "kernel_ok (kern ?s2)" using a(4) by simp
    note b = reopen_spare_exact [OF k2 _ spends(3)]
    have "fset (open_fds (kern ?s2)) = fset (open_fds (kern s)) - {spare_fd s}" "accepts (kern ?s2) = (\<lambda>i. accepts (kern s) (Suc i))"
      "opens (kern ?s2) = opens (kern s)"
      using a(1-3) by (simp_all add: sys_close_def del: if_split)
    then show ?thesis using b spends(1,4) assms(2) paused by (cases ok) auto
  qed
qed

text \<open>A closing connection brings a paused listener back, if the calls it takes succeed.\<close>

lemma close_conn_resumes:
  assumes "server_inv s" "conns s (conn_fd c) \<noteq> None" "opens (kern s) 0" "ctl_adds (kern s) 0"
    "s' = close_conn s c why"
  shows "\<not> listener_paused s' \<and> handlers (sloop s') (listen_fd s') = Some ListenerCb \<and>
    interest (kern s') (listen_fd s') \<noteq> None"
proof -
  let ?fd = "conn_fd c"
  have ib: "inv_but {?fd} s" using assms(1) by (auto simp: server_inv_def inv_but_def)
  have i: "server_inv s'" using close_conn_facts(1) [OF ib assms(2) refl] assms(5) by simp
  let ?s1 = "unregister ?fd (logs (log_debug (closing_msg (conn_peer c) ?fd why)) s)"
  let ?s2 = "?s1\<lparr>kern := sys_close ?fd (kern ?s1), conns := (conns ?s1)(?fd := None)\<rparr>"
  have k: "opens (kern ?s2) 0" "ctl_adds (kern ?s2) 0" "kernel_ok (kern ?s2)"
    using assms(1,3,4)
    by (auto simp: unregister_def loop_remove_def poller_del_def sys_close_def server_inv_def inv_defs
        kernel_ok_def split: option.splits)
  obtain ok s3 where ro: "reopen_spare_fd ?s2 = (ok, s3)" by fastforce
  have ok: "ok" "ctl_adds (kern s3) 0"
    using ro k by (auto simp: reopen_spare_fd_def sys_open_def kernel_ok_def Let_def split: if_splits)
  obtain ok2 s4 where rg: "register (listen_fd s3) ListenerCb s3 = (ok2, s4)" by fastforce
  have "ok2" using rg ok(2) by (auto simp: register_def loop_add_def poller_add_def Let_def)
  moreover have "s' = resume_listener ?s2" using assms(5) by (simp add: close_conn_def Let_def)
  ultimately have np: "\<not> listener_paused s'" using ro ok rg by (auto simp: resume_listener_def)
  then have "handlers (sloop s') (listen_fd s') = Some ListenerCb" using i by (simp add: server_inv_def inv_defs)
  moreover have "loop_synced (sloop s') (kern s')" using i by (simp add: server_inv_def inv_defs)
  ultimately show ?thesis using np by (simp add: loop_synced_def)
qed

subsection \<open>The output limit\<close>

text \<open>A connection that is kept has no more output pending than the limit, or than it had before.\<close>

lemma input_loop_limit:
  "in_hand fd s c \<Longrightarrow> input_loop s c = (Some c', s') \<Longrightarrow> \<not> close_after_write c' \<Longrightarrow>
     readable (conn_out c') \<le> max (readable (conn_out c)) (max_output_buffer (cfg s))"
proof (induction s c rule: input_loop.induct)
  case (1 s c)
  note h = in_hand_db [OF "1.prems"(1)]
  from "1.prems"(1) show ?case
  proof (cases rule: input_loop_cases)
    case (waits p b)
    then show ?thesis using "1.prems"(2) by auto
  next
    case (breaks e p b)
    then show ?thesis using "1.prems"(2,3) by auto
  next
    case (skips p b)
    note ph = parse_in_hand [OF "1.prems"(1) skips(1)]
    have "in_hand fd s (c\<lparr>conn_parser := p, conn_in := b\<rparr>)"
      using in_hand_update(1) [OF "1.prems"(1) ph(1) _ ph(2,3), of "conn_out c" "sdb s"] h by simp
    from "1.IH"(1) [OF skips(1) [symmetric] refl refl refl this] show ?thesis
      using "1.prems"(2,3) skips(2) by simp
  next
    case (quits argv p b x)
    then show ?thesis using "1.prems"(2,3) by auto
  next
    case (overflows argv p b x)
    then show ?thesis using "1.prems"(2) by simp
  next
    case (answers argv p b x)
    note ph = parse_in_hand [OF "1.prems"(1) answers(1)]
    note d = dispatch_in_hand [OF "1.prems"(1) ph(5) [OF refl] answers(3)]
    note ih = in_hand_update(1) [OF "1.prems"(1) ph(1) d(1) ph(2,3) d(2)]
    show ?thesis
      using "1.IH"(2) [OF answers(1) [symmetric] _ _ answers(2,3) answers(4) _ ih] answers(5,6) "1.prems"(2,3) by auto
  qed
qed

subsection \<open>A connection that is about to close\<close>

text \<open>
  After QUIT or a protocol error the connection waits for its output to drain. If the socket is
  full meanwhile, a readable report still reads, parses and executes.
\<close>

lemma closing_executes:
  assumes "server_inv s" "conns s fd = Some c" "close_after_write c" "sends (kern s) = []"
    "bs \<noteq> []" "length bs \<le> kReadChunk"
    "drain (conn_parser c) (buf_contents (conn_in c) @ bs) = (cmds, Incomplete, p', r')"
    "exec cmds (sdb s) = (out, d', False)"
    "readable (conn_out c) + length out \<le> max_output_buffer (cfg s)"
    "s' = on_conn_event s fd True False (ReadBytes bs)"
  shows "\<exists>c'. conns s' fd = Some c' \<and> close_after_write c' \<and> sdb s' = d' \<and>
    buf_contents (conn_out c') = buf_contents (conn_out c) @ out"
proof -
  define b where "b = commit (write_at (ensure_writable (conn_in c) kReadChunk) bs) (length bs)"
  note rd = read_in_hand [OF at_rest(1) [OF assms(1,2)] refl refl, of bs]
  have ih: "in_hand fd s (c\<lparr>conn_in := b\<rparr>)" and cb: "buf_contents b = buf_contents (conn_in c) @ bs"
    using rd assms(6) by (simp_all add: b_def)
  obtain ci si where il: "input_loop s (c\<lparr>conn_in := b\<rparr>) = (Some ci, si)" "kern si = kern s"
    using input_loop_open [OF ih, of cmds p' r' out d'] assms(7,8,9) cb by auto
  have ex: "sdb si = d'" "buf_contents (conn_out ci) = buf_contents (conn_out c) @ out" "close_after_write ci"
    using input_loop_exec [OF ih, of cmds Incomplete p' r' out d' False ci si] assms(3,7,8) cb il(1)
    by (simp_all add: last_words_def)
  have hi: "in_hand fd si ci" using input_loop_left [OF ih] il(1) by simp
  have ne: "buf_contents (conn_out c) \<noteq> []"
    using at_rest [OF assms(1,2)] assms(3) by (auto simp: conn_here_def conn_ok_def in_hand_def conn_mid_def buf_empty_iff)
  then have full: "\<not> buf_empty (conn_out ci)"
    using hi ex(2) by (simp add: buf_empty_iff in_hand_def conn_mid_def)
  obtain oc1 s1 where fl: "flush_output si ci = (oc1, s1)" by fastforce
  have "\<exists>c1. oc1 = Some c1 \<and> conn_out c1 = conn_out ci \<and> close_after_write c1"
    using fl full il(2) assms(4) ex(3)
    by (auto simp: flush_output_def send_loop.simps [of "[]"] Let_def split: if_splits)
  then obtain c1 where c1: "oc1 = Some c1" "conn_out c1 = conn_out ci" "close_after_write c1" by blast
  have s1: "sdb s1 = d'" using flush_output_left(2) [OF hi fl] ex(1) by simp
  have e1: "(if True then handle_read s c (ReadBytes bs) else (Some c, s)) = (Some c1, s1)"
    using assms(5,6) il(1) fl c1(1) by (simp add: handle_read_bytes process_input_def b_def)
  have e2: "(if False \<and> \<not> buf_empty (conn_out c1) then flush_output s1 c1 else (Some c1, s1)) = (Some c1, s1)" by simp
  have "s' = s1\<lparr>conns := (conns s1)(fd \<mapsto> c1)\<rparr>"
    using on_conn_event_steps(4) [OF assms(1,2) e1 refl e2] assms(10) by simp
  then show ?thesis using c1 s1 ex(2) by simp
qed

subsection \<open>The output limit over a whole event\<close>

lemma send_loop_shrinks: "send_loop os out w = (ok, os', out', w') \<Longrightarrow> readable out' \<le> readable out"
proof (induction os arbitrary: out w)
  case Nil
  then show ?case by (auto simp: send_loop.simps [of "[]"] split: if_splits)
next
  case (Cons x os)
  show ?case
  proof (cases x)
    case (SendTook n)
    then show ?thesis
      using Cons.prems Cons.IH [of "consume out n" "w @ take n (buf_contents out)"]
      by (auto simp: send_loop.simps [of "_ # os"] readable_consume split: if_splits)
  qed (use Cons in \<open>auto simp: send_loop.simps [of "_ # os"] split: if_splits\<close>)
qed

lemma flush_output_shrinks: "flush_output s c = (Some c', s') \<Longrightarrow> readable (conn_out c') \<le> readable (conn_out c)"
  using send_loop_shrinks
  by (fastforce simp: flush_output_def Let_def split: prod.splits if_splits)

lemma handle_read_limit:
  assumes "in_hand fd s c" "handle_read s c r = (Some c', s')" "\<not> close_after_write c'"
  shows "readable (conn_out c') \<le> max (readable (conn_out c)) (max_output_buffer (cfg s))"
proof (cases r)
  case (ReadBytes bs)
  let ?d = "c\<lparr>conn_in := commit (write_at (ensure_writable (conn_in c) kReadChunk) (take kReadChunk bs)) (length (take kReadChunk bs))\<rparr>"
  have ih: "in_hand fd s ?d" by (rule read_in_hand(1) [OF assms(1) refl refl])
  have "process_input s ?d = (Some c', s')"
    using assms(2) ReadBytes by (simp add: handle_read_bytes split: if_splits)
  then obtain ci si where il: "input_loop s ?d = (Some ci, si)" and fl: "flush_output si ci = (Some c', s')"
    by (cases "input_loop s ?d") (auto simp: process_input_def split: option.splits)
  have hi: "in_hand fd si ci" using input_loop_left [OF ih] il by simp
  have "\<not> close_after_write ci" using flush_output_left(3) [OF hi fl refl] assms(3) by simp
  then show ?thesis using input_loop_limit [OF ih il] flush_output_shrinks [OF fl] by simp
qed (use assms(2) in \<open>auto simp: handle_read_def Let_def\<close>)

lemma on_conn_event_limit:
  assumes "server_inv s" "conns s fd = Some c" "s' = on_conn_event s fd rd wr r" "conns s' fd = Some c'"
    "\<not> close_after_write c'"
  shows "readable (conn_out c') \<le> max (readable (conn_out c)) (max_output_buffer (cfg s))"
proof -
  obtain oc1 s1 where e1: "(if rd then handle_read s c r else (Some c, s)) = (oc1, s1)" by fastforce
  note st = on_conn_event_steps [OF assms(1,2) e1]
  obtain c1 where c1: "oc1 = Some c1" "same_stream fd s1 c1 s' c'"
    using later_flush [OF assms(1,2) e1] assms(3,4) by metis
  obtain oc2 s2 where e2: "(if wr \<and> \<not> buf_empty (conn_out c1) then flush_output s1 c1 else (Some c1, s1)) = (oc2, s2)"
    by fastforce
  have s2: "s' = (case oc2 of None \<Rightarrow> s2 | Some c2 \<Rightarrow> s2\<lparr>conns := (conns s2)(fd \<mapsto> c2)\<rparr>)" "left_as fd s (oc2, s2)"
    using st(4) [OF c1(1) e2] assms(3) by auto
  have oc2: "oc2 = Some c'" using s2 assms(4) by (cases oc2) auto
  have "readable (conn_out c') \<le> readable (conn_out c1)"
    using e2 oc2 flush_output_shrinks [of s1 c1 c' s2] by (auto split: if_splits)
  moreover have "readable (conn_out c1) \<le> max (readable (conn_out c)) (max_output_buffer (cfg s))"
  proof (cases rd)
    case True
    have "\<not> close_after_write c1" using c1(2) assms(5) by (simp add: same_stream_def)
    then show ?thesis
      using handle_read_limit [OF at_rest(1) [OF assms(1,2)]] e1 c1(1) True by auto
  next
    case False
    then show ?thesis using e1 c1(1) by simp
  qed
  ultimately show ?thesis by linarith
qed

subsection \<open>What a writable report delivers\<close>

text \<open>How many bytes the socket takes before it is full.\<close>

fun taken :: "send_outcome list \<Rightarrow> nat" where
  "taken (SendTook n # os) = n + taken os"
| "taken (SendIntr # os) = taken os"
| "taken os = 0"

lemma send_loop_exact:
  "buf_ok out \<Longrightarrow> list_all send_fine os \<Longrightarrow> send_loop os out w = (ok, os', out', w') \<Longrightarrow>
   ok \<and> w' = w @ take (taken os) (buf_contents out) \<and> buf_contents out' = drop (taken os) (buf_contents out) \<and> buf_ok out'"
proof (induction os arbitrary: out w)
  case Nil
  then show ?case by (auto simp: send_loop.simps split: if_splits)
next
  case (Cons x os)
  show ?case
  proof (cases "buf_empty out")
    case True
    then show ?thesis using Cons.prems by (auto simp: send_loop.simps [of "x # os"] buf_empty_iff)
  next
    case False
    show ?thesis
    proof (cases x)
      case (SendTook n)
      then show ?thesis
        using Cons.prems Cons.IH [of "consume out n" "w @ take n (buf_contents out)"] False
        by (auto simp: send_loop.simps [of "_ # os"] take_add drop_drop add.commute)
    qed (use Cons False in \<open>auto simp: send_loop.simps [of "_ # os"]\<close>)
  qed
qed

lemma close_conn_wire: "wire (kern (close_conn s c why)) = wire (kern s)"
  by (auto simp: close_conn_def unregister_def resume_listener_def reopen_spare_fd_def register_def Let_def case_prod_beta)

text \<open>The flush: what the socket takes leaves the buffer, and the connection closes when it is to and all is gone.\<close>

lemma flush_exact:
  assumes "in_hand fd s c" "list_all send_fine (sends (kern s))" "flush_output s c = (oc, s')"
    "n = taken (sends (kern s))" "out = buf_contents (conn_out c)"
  shows "wire (kern s') fd = wire (kern s) fd @ take n out" "oc = None \<longleftrightarrow> close_after_write c \<and> length out \<le> n"
    "oc = Some c' \<Longrightarrow> buf_contents (conn_out c') = drop n out"
proof -
  have c: "conn_fd c = fd" "buf_ok (conn_out c)" using assms(1) by (simp_all add: in_hand_def conn_mid_def)
  obtain ok os o1 w where l: "send_loop (sends (kern s)) (conn_out c) (wire (kern s) fd) = (ok, os, o1, w)" by (metis prod_cases4)
  have x: "ok" "w = wire (kern s) fd @ take n out" "buf_contents o1 = drop n out" "buf_empty o1 \<longleftrightarrow> length out \<le> n"
    using send_loop_exact [OF c(2) assms(2) l] assms(4,5) by (auto simp: buf_empty_iff)
  have aw: "wire (kern (arm_write f b t)) = wire (kern t)" for f b t by (simp add: arm_write_def)
  show "wire (kern s') fd = wire (kern s) fd @ take n out" "oc = None \<longleftrightarrow> close_after_write c \<and> length out \<le> n"
    "oc = Some c' \<Longrightarrow> buf_contents (conn_out c') = drop n out"
    using assms(3) l c(1) x by (auto simp: flush_output_def close_conn_wire aw Let_def split: if_splits)
qed

text \<open>
  What a flush does to the write interest. The flag of the connection always says whether output is
  left; the poller is asked only when the flag changes, and has the answer only if it grants it.
\<close>

lemma flush_interest:
  assumes "in_hand fd s c" "flush_output s c = (Some c', s')"
  shows "write_armed c' \<longleftrightarrow> \<not> buf_empty (conn_out c')"
    "interest (kern s') fd =
       (if ctl_mods (kern s) 0 \<and> write_armed c' \<noteq> write_armed c then Some (write_armed c') else interest (kern s) fd)"
proof -
  show "write_armed c' \<longleftrightarrow> \<not> buf_empty (conn_out c')"
    using flush_output_left(3) [OF assms refl] by (simp add: conn_here_def conn_ok_def)
  have "interest (kern s) fd \<noteq> None" "conn_fd c = fd" using assms(1) by (simp_all add: in_hand_def polled_as_def)
  then show "interest (kern s') fd =
      (if ctl_mods (kern s) 0 \<and> write_armed c' \<noteq> write_armed c then Some (write_armed c') else interest (kern s) fd)"
    using assms(2)
    by (auto simp: flush_output_def arm_write_def loop_set_write_interest_def poller_set_write_interest_def Let_def
        split: if_splits prod.splits)
qed

lemma input_loop_interest:
  "input_loop s c = (Some c', s') \<Longrightarrow>
     write_armed c' = write_armed c \<and> interest (kern s') = interest (kern s) \<and> ctl_mods (kern s') = ctl_mods (kern s) \<and>
     sends (kern s') = sends (kern s)"
proof (induction s c rule: input_loop.induct)
  case (1 s c)
  obtain st p b where p: "parse (conn_parser c) (conn_in c) = (st, p, b)" by (metis prod_cases3)
  show ?case
  proof (cases st)
    case (Complete argv)
    then show ?thesis
      using "1.prems" "1.IH"(1) [OF p [symmetric] Complete refl] "1.IH"(2) [OF p [symmetric] Complete refl _ refl] p
      by (auto simp: input_loop.simps [of s c] Let_def split: if_splits)
  qed (use "1.prems" p in \<open>auto simp: input_loop.simps [of s c]\<close>)
qed

text \<open>
  A connection whose poller entry does not ask for writability while it has output pending. It gets
  there when arming is refused, and stays there as long as output is pending, since the flag says
  that it is armed and nothing asks the poller again.
\<close>

lemma handle_read_unarmed:
  assumes "in_hand fd s c" "interest (kern s) fd = Some False" "write_armed c \<or> \<not> ctl_mods (kern s) 0"
    "handle_read s c r = (Some c', s')"
  shows "interest (kern s') fd = Some False"
proof (cases r)
  case (ReadBytes bs)
  let ?d = "c\<lparr>conn_in := commit (write_at (ensure_writable (conn_in c) kReadChunk) (take kReadChunk bs)) (length (take kReadChunk bs))\<rparr>"
  have d: "in_hand fd s ?d" by (rule read_in_hand(1) [OF assms(1) refl refl])
  obtain ci si where il: "input_loop s ?d = (Some ci, si)" and fl: "flush_output si ci = (Some c', s')"
    using assms(4) ReadBytes by (auto simp: handle_read_bytes process_input_def split: if_splits option.splits prod.splits)
  have "in_hand fd si ci" using input_loop_left [OF d] il by simp
  from flush_interest(2) [OF this fl] input_loop_interest [OF il] show ?thesis using assms(2,3) by auto
qed (use assms(2,4) in \<open>auto simp: handle_read_def Let_def\<close>)

lemma full_socket_event:
  assumes "server_inv s" "sends (kern s) = []" "s' = on_conn_event s fd rd False r" "conns s' fd = Some c'"
  shows "wire (kern s') fd = wire (kern s) fd"
proof -
  obtain c where c: "conns s fd = Some c" using assms(3,4) by (cases "conns s fd") (auto simp: on_conn_event_def)
  note rest = at_rest [OF assms(1) c]
  obtain oc1 s1 where e1: "(if rd then handle_read s c r else (Some c, s)) = (oc1, s1)" by fastforce
  note st = on_conn_event_steps [OF assms(1) c e1]
  obtain c1 where c1: "oc1 = Some c1" using st(1,2) assms(3,4) by (cases oc1) auto
  have "wire (kern s1) fd = wire (kern s) fd"
  proof (cases "rd \<and> (\<exists>bs. r = ReadBytes bs)")
    case False
    then show ?thesis using e1 c1 by (cases r) (auto simp: handle_read_def Let_def split: if_splits)
  next
    case True
    then obtain bs where bs: "r = ReadBytes bs" "rd" by blast
    let ?d = "c\<lparr>conn_in := commit (write_at (ensure_writable (conn_in c) kReadChunk) (take kReadChunk bs)) (length (take kReadChunk bs))\<rparr>"
    have d: "in_hand fd s ?d" by (rule read_in_hand(1) [OF rest(1) refl refl])
    obtain ci si where il: "input_loop s ?d = (Some ci, si)" and fl: "flush_output si ci = (Some c1, s1)"
      using e1 c1 bs by (auto simp: handle_read_bytes process_input_def split: if_splits option.splits prod.splits)
    have i: "in_hand fd si ci" "wire (kern si) = wire (kern s)" "sends (kern si) = []"
      using input_loop_left [OF d] il input_loop_interest [OF il] assms(2) by simp_all
    show ?thesis using flush_exact(1) [OF i(1) _ fl refl refl] i(2,3) by simp
  qed
  moreover have "(if False \<and> \<not> buf_empty (conn_out c1) then flush_output s1 c1 else (Some c1, s1)) = (Some c1, s1)" by simp
  from st(4) [OF c1 this] have "s' = s1\<lparr>conns := (conns s1)(fd \<mapsto> c1)\<rparr>" using assms(3) by simp
  ultimately show ?thesis by simp
qed

lemma unarmed_stays:
  assumes "server_inv s" "conns s fd = Some c" "interest (kern s) fd = Some False"
    "\<not> buf_empty (conn_out c) \<or> \<not> ctl_mods (kern s) 0" "s' = on_conn_event s fd rd wr r" "conns s' fd = Some c'"
  shows "interest (kern s') fd = Some False \<and> write_armed c' = (\<not> buf_empty (conn_out c'))"
proof -
  note rest = at_rest [OF assms(1,2)]
  have arm: "write_armed c \<or> \<not> ctl_mods (kern s) 0" using rest(2) assms(4) by (auto simp: conn_here_def conn_ok_def)
  obtain oc1 s1 where e1: "(if rd then handle_read s c r else (Some c, s)) = (oc1, s1)" by fastforce
  note st = on_conn_event_steps [OF assms(1,2) e1]
  obtain c1 where c1: "oc1 = Some c1" using st(1,2) assms(5,6) by (cases oc1) auto
  have i1: "interest (kern s1) fd = Some False"
    using e1 c1 assms(3) handle_read_unarmed [OF rest(1) assms(3) arm] by (auto split: if_splits)
  have h1: "in_hand fd s1 c1" "conn_here s1 fd c1" using st(1,3) c1 by auto
  obtain oc2 s2 where e2: "(if wr \<and> \<not> buf_empty (conn_out c1) then flush_output s1 c1 else (Some c1, s1)) = (oc2, s2)" by fastforce
  note st2 = st(4) [OF c1 e2]
  obtain c2 where c2: "oc2 = Some c2" using st2 assms(5,6) by (cases oc2) auto
  have "interest (kern s2) fd = Some False"
    using e2 c2 i1 h1(2) flush_interest(2) [OF h1(1), of c2 s2]
    by (auto simp: conn_here_def conn_ok_def split: if_splits)
  then show ?thesis using st2 c2 assms(5,6) by (auto simp: conn_here_def conn_ok_def)
qed

lemma writable_event:
  assumes "server_inv s" "conns s fd = Some c" "list_all send_fine os" "s' = client_step fd s (Drains os)"
    "out = buf_contents (conn_out c)" "n = taken os"
  shows "wire (kern s') fd = wire (kern s) fd @ take n out \<and>
    (if close_after_write c \<and> length out \<le> n then conns s' fd = None
     else \<exists>c'. conns s' fd = Some c' \<and> buf_contents (conn_out c') = drop n out \<and> close_after_write c' = close_after_write c \<and>
       write_armed c' = (drop n out \<noteq> []) \<and>
       (\<not> mod_refused (kern s) fd \<and> ctl_mods (kern s) 0 \<longrightarrow> interest (kern s') fd = Some (drop n out \<noteq> [])) \<and>
       (\<not> ctl_mods (kern s) 0 \<or> drop n out \<noteq> [] \<longrightarrow> interest (kern s') fd = interest (kern s) fd))"
proof -
  let ?s = "set_sends os s"
  have i: "server_inv ?s" "conns ?s fd = Some c" "list_all send_fine (sends (kern ?s))" "taken (sends (kern ?s)) = n"
    "wire (kern ?s) = wire (kern s)" "interest (kern ?s) = interest (kern s)" "ctl_mods (kern ?s) = ctl_mods (kern s)"
    using set_sends_inv [OF assms(1)] assms(2,3,6) by (auto simp: set_sends_def)
  note rest = at_rest [OF i(1,2)]
  have e1: "(if False then handle_read ?s c ReadAgain else (Some c, ?s)) = (Some c, ?s)" by simp
  obtain oc s2 where e2: "(if True \<and> \<not> buf_empty (conn_out c) then flush_output ?s c else (Some c, ?s)) = (oc, s2)" by fastforce
  note st = on_conn_event_steps(4) [OF i(1,2) e1 refl e2]
  have ok: "buf_empty (conn_out c) \<longleftrightarrow> out = []" "close_after_write c \<Longrightarrow> out \<noteq> []" "write_armed c \<longleftrightarrow> out \<noteq> []"
    using rest assms(5) by (auto simp: conn_here_def conn_ok_def in_hand_def conn_mid_def buf_empty_iff)
  have "wire (kern s2) fd = wire (kern s) fd @ take n out \<and> (oc = None \<longleftrightarrow> close_after_write c \<and> length out \<le> n) \<and>
      (\<forall>c'. oc = Some c' \<longrightarrow> buf_contents (conn_out c') = drop n out \<and> close_after_write c' = close_after_write c)"
  proof (cases "out = []")
    case True
    then show ?thesis using e2 ok i(5) assms(5) by auto
  next
    case False
    then have f: "flush_output ?s c = (oc, s2)" using e2 ok(1) by simp
    show ?thesis
      using flush_exact [OF rest(1) i(3) f i(4) [symmetric] assms(5)] flush_output_left(3) [OF rest(1) f] i(5) by auto
  qed
  then have x: "wire (kern s2) fd = wire (kern s) fd @ take n out" "oc = None \<longleftrightarrow> close_after_write c \<and> length out \<le> n"
    "\<And>c'. oc = Some c' \<Longrightarrow> buf_contents (conn_out c') = drop n out \<and> close_after_write c' = close_after_write c" by blast+
  have s': "s' = (case oc of None \<Rightarrow> s2 | Some c2 \<Rightarrow> s2\<lparr>conns := (conns s2)(fd \<mapsto> c2)\<rparr>)"
    using st assms(4) by simp
  show ?thesis
  proof (cases oc)
    case None
    then show ?thesis using s' st x by simp
  next
    case (Some c2)
    then have "conn_here s2 fd c2" "in_hand fd s2 c2" using st by auto
    then have w: "write_armed c2 \<longleftrightarrow> drop n out \<noteq> []"
      using x(3) [OF Some] by (auto simp: conn_here_def conn_ok_def in_hand_def conn_mid_def buf_empty_iff)
    have "interest (kern s2) fd =
        (if ctl_mods (kern s) 0 \<and> write_armed c2 \<noteq> write_armed c then Some (write_armed c2) else interest (kern s) fd)"
      using e2 Some ok(1,3) i(6,7) flush_interest(2) [OF rest(1), of c2 s2] by (auto split: if_splits)
    moreover have "interest (kern s) fd = Some (out \<noteq> [])" if "\<not> mod_refused (kern s) fd"
      using at_rest(2) [OF assms(1,2)] that ok(3) by (auto simp: conn_here_def polled_as_def)
    ultimately show ?thesis using s' Some x w ok(3) by auto
  qed
qed

end
