(* ===== verification/End_To_End.thy ===== *)
theory End_To_End
  imports Refinement Liveness
begin

text \<open>
  From the sockets to the abstract store: the layers put together. Several clients send requests,
  cut into reads, at times of their own, in any interleaving and with expiry cycles in between.
  What comes back on each wire is what the specification of \<open>Keyspace_Spec\<close> answers to the commands
  of all clients, taken one after the other in the order in which their last bytes arrived.
\<close>

subsection \<open>Commands that a stream executes\<close>

lemma run_handler_keeps_open: "h \<noteq> CmdQuit \<Longrightarrow> close_after_reply (run_handler h c) = close_after_reply c"
  by (cases h)
     (auto simp: cmd_ping_def cmd_echo_def cmd_set_def cmd_get_def cmd_incr_def cmd_decr_def incr_by_def cmd_del_def
        cmd_exists_def cmd_type_def cmd_expire_def cmd_ttl_def cmd_persist_def cmd_dbsize_def cmd_flushall_def
        cmd_command_def say_def say_ok_def Let_def split: option.split sum.split prod.split)

lemma denoted_not_quit: "denotes argv a \<Longrightarrow> \<forall>e. a \<noteq> ARefuse e \<Longrightarrow> to_lower_ascii (argv ! 0) \<noteq> ''quit''"
  by (cases a) (auto simp: denotes_def Let_def)

lemma dispatch_keeps_open:
  assumes "denotes (cargv c) a"
  shows "close_after_reply (dispatch c) = close_after_reply c"
proof (cases "\<exists>e. a = ARefuse e")
  case True
  then obtain e nm args where "cargv c = nm # args" "refusal (cargv c) = Some e"
    using assms by (cases "cargv c") (auto simp: denotes_def)
  then show ?thesis using refused_dispatch by (simp add: say_def)
next
  case False
  show ?thesis
  proof (cases "table_find (cargv c ! 0)")
    case (Some cmd)
    have "cmd_handler cmd \<noteq> CmdQuit"
      using Some denoted_not_quit [OF assms] False by (auto simp: table_find_def the_table_eq split: if_splits)
    then show ?thesis using Some run_handler_keeps_open [of "cmd_handler cmd" c] by (simp add: dispatch_def say_def)
  qed (simp add: dispatch_def say_def)
qed

lemma aspec_run_append:
  "aspec_run (xs @ ys) A = (let (rs, B) = aspec_run xs A; (rs', C) = aspec_run ys B in (rs @ rs', C))"
  by (induction xs A rule: aspec_run.induct) (auto simp: Let_def split: prod.split)

lemma exec_refines:
  assumes "frozen t d" "db_ok d" "stands_for t d A" "500 \<le> t" "t \<le> INT64_MAX"
    "list_all2 denotes cmds as" "\<forall>argv \<in> set cmds. argv_ok argv"
    "aspec_run (map (\<lambda>a. (t, Some a)) as) A = (rs, A')"
  shows "\<exists>d'. exec cmds d = (concat (map encode_reply rs), d', False) \<and> frozen t d' \<and> db_ok d' \<and> stands_for t d' A'"
  using assms
proof (induction cmds arbitrary: d A as rs)
  case Nil
  then show ?case by simp
next
  case (Cons argv cmds)
  obtain a as' where as: "as = a # as'" "denotes argv a" "list_all2 denotes cmds as'"
    using Cons.prems(6) by (auto simp: list_all2_Cons1)
  let ?c = "fresh_ctx argv new_buffer d" and ?B = "prune t A"
  obtain r A1 where a1: "aspec t ?B a = (r, A1)" by fastforce
  obtain rs' where rs: "aspec_run (map (\<lambda>a. (t, Some a)) as') A1 = (rs', A')" "rs = r # rs'"
    using Cons.prems(8) as(1) a1 by (auto split: prod.splits)
  have m: "models t ?c ?B"
    using Cons.prems by (simp add: models_def ctx_ok_def stands_for_prune prune_prune)
  have dn: "denotes (cargv ?c) a" using as(2) by simp
  have ans: "answers t ?c (r, A1) (dispatch ?c)" using dispatch_refines [OF m dn] a1 by simp
  from denoted_one_reply [OF m dn] have d1: "db_ok (cdb (dispatch ?c))" "frozen t (cdb (dispatch ?c))" "stands_for t (cdb (dispatch ?c)) A1"
    "buf_contents (cout (dispatch ?c)) = encode_reply r"
    using ans by (auto simp: one_reply_def answers_def)
  obtain d' where d': "exec cmds (cdb (dispatch ?c)) = (concat (map encode_reply rs'), d', False)" "frozen t d'" "db_ok d'"
    "stands_for t d' A'"
    using Cons.IH [OF d1(2,1,3) Cons.prems(4,5) as(3) _ rs(1)] Cons.prems(7) by auto
  have "argv \<noteq> []" using as(2) by (auto simp: denotes_def)
  moreover have "\<not> close_after_reply (dispatch ?c)" using dispatch_keeps_open [OF dn] by simp
  ultimately show ?case using d' d1(4) rs(2) by (simp add: Let_def)
qed

subsection \<open>Events of one client leave the wires of the others alone\<close>

lemma flush_output_wire:
  assumes "flush_output s c = (oc, s')" "f \<noteq> conn_fd c"
  shows "wire (kern s') f = wire (kern s) f" "oc = Some c' \<Longrightarrow> conn_fd c' = conn_fd c"
  using assms by (auto simp: flush_output_def arm_write_def close_conn_wire Let_def split: prod.splits if_splits)

lemma process_input_wire:
  assumes "in_hand fd s c" "process_input s c = (oc, s')" "f \<noteq> fd"
  shows "wire (kern s') f = wire (kern s) f" "oc = Some c' \<Longrightarrow> conn_fd c' = fd"
proof -
  obtain oc1 s1 where l: "input_loop s c = (oc1, s1)" by fastforce
  have i: "left_as fd s (oc1, s1)" "wire (kern s1) = wire (kern s)" using input_loop_left [OF assms(1)] l by auto
  have "wire (kern s') f = wire (kern s) f \<and> (\<forall>c'. oc = Some c' \<longrightarrow> conn_fd c' = fd)"
  proof (cases oc1)
    case None
    then show ?thesis using l i assms(2) by (simp add: process_input_def)
  next
    case (Some c1)
    then have "flush_output s1 c1 = (oc, s')" "conn_fd c1 = fd" using l i assms(2) by (simp_all add: process_input_def in_hand_def)
    then show ?thesis using flush_output_wire [of s1 c1 oc s' f] i(2) assms(3) by auto
  qed
  then show "wire (kern s') f = wire (kern s) f" "oc = Some c' \<Longrightarrow> conn_fd c' = fd" by blast+
qed

lemma handle_read_wire:
  assumes "in_hand fd s c" "handle_read s c r = (oc, s')" "f \<noteq> fd"
  shows "wire (kern s') f = wire (kern s) f" "oc = Some c' \<Longrightarrow> conn_fd c' = fd"
proof -
  have fd: "conn_fd c = fd" using assms(1) by (simp add: in_hand_def)
  have "wire (kern s') f = wire (kern s) f \<and> (\<forall>c'. oc = Some c' \<longrightarrow> conn_fd c' = fd)"
  proof (cases r)
    case (ReadBytes bs)
    note h = read_in_hand [OF assms(1) refl refl, of "take kReadChunk bs"]
    show ?thesis
      using assms(2,3) fd ReadBytes process_input_wire [OF h(1), of oc s' f]
      by (auto simp: handle_read_def close_conn_wire Let_def split: if_splits)
  qed (use assms(2) fd in \<open>auto simp: handle_read_def close_conn_wire\<close>)
  then show "wire (kern s') f = wire (kern s) f" "oc = Some c' \<Longrightarrow> conn_fd c' = fd" by blast+
qed

lemma on_conn_event_wire:
  assumes "server_inv s" "f \<noteq> fd"
  shows "wire (kern (on_conn_event s fd rd wr r)) f = wire (kern s) f"
proof (cases "conns s fd")
  case (Some c)
  have fd: "conn_fd c = fd" using assms(1) Some by (auto simp: server_inv_def inv_defs)
  obtain oc1 s1 where one: "(if rd then handle_read s c r else (Some c, s)) = (oc1, s1)" by fastforce
  have w1: "wire (kern s1) f = wire (kern s) f" "oc1 = Some c1 \<Longrightarrow> conn_fd c1 = fd" for c1
    using one handle_read_wire [OF at_rest(1) [OF assms(1) Some], of r oc1 s1 f] assms(2) fd by (auto split: if_splits)
  show ?thesis
    using Some one w1 assms(2)
    by (auto simp: on_conn_event_def close_conn_wire Let_def split: option.splits prod.splits if_splits dest: flush_output_wire)
qed (simp add: on_conn_event_def)

subsection \<open>Accepting leaves the clients alone\<close>

text \<open>
  Connections that are there stay as they are, with their wires; the ones that come are fresh. A
  descriptor that no connection has is as it was, or was handed to a client and taken back.
\<close>

definition apart :: "server \<Rightarrow> server \<Rightarrow> bool" where
  "apart s s' \<longleftrightarrow> cfg s' = cfg s \<and> sdb s' = sdb s \<and>
     (\<forall>f. (conns s f \<noteq> None \<longrightarrow> conns s' f = conns s f \<and> wire (kern s') f = wire (kern s) f) \<and>
        (conns s f = None \<longrightarrow> conns s' f = None \<and> wire (kern s') f \<in> {wire (kern s) f, []} \<or>
           (\<exists>peer. conns s' f = Some (new_conn f peer)) \<and> wire (kern s') f = []))"

lemma apart_refl [simp]: "apart s s"
  by (simp add: apart_def)

lemma apart_trans:
  assumes "apart s s'" "apart s' s''" shows "apart s s''"
proof -
  have "(conns s f \<noteq> None \<longrightarrow> conns s'' f = conns s f \<and> wire (kern s'') f = wire (kern s) f) \<and>
      (conns s f = None \<longrightarrow> conns s'' f = None \<and> wire (kern s'') f \<in> {wire (kern s) f, []} \<or>
         (\<exists>peer. conns s'' f = Some (new_conn f peer)) \<and> wire (kern s'') f = [])" for f
    using assms [unfolded apart_def, THEN conjunct2, THEN conjunct2, THEN spec, of f] by (cases "conns s' f") auto
  then show ?thesis using assms by (simp add: apart_def)
qed

lemma same_conns_apart: "same_conns s s' \<Longrightarrow> apart s s'"
  by (auto simp: same_conns_def apart_def)

lemma sys_accept_apart:
  assumes "fds_ok s" "kernel_ok (kern s)" "sys_accept (kern s) = (r, fd, k)"
  shows "apart s (s\<lparr>kern := k\<rparr>)" "r = AcceptReady \<Longrightarrow> wire k fd = [] \<and> conns s fd = None"
proof -
  let ?n = "alloc (kern s) (open_fds (kern s))"
  have "conns s ?n = None" using assms(1,2) by (intro unused_fd) (auto simp: kernel_ok_def)
  then show "apart s (s\<lparr>kern := k\<rparr>)" "r = AcceptReady \<Longrightarrow> wire k fd = [] \<and> conns s fd = None"
    using assms(3) by (auto simp: sys_accept_def apart_def Let_def split: if_splits)
qed

lemma register_same: "register fd cb s = (ok, s') \<Longrightarrow> same_conns s s'"
  by (auto simp: register_def same_conns_def loop_add_def poller_add_def Let_def split: prod.splits if_splits)

lemma unregister_same: "same_conns s (unregister fd s)"
  by (auto simp: unregister_def same_conns_def loop_remove_def poller_del_def Let_def split: prod.splits option.splits)

lemma pause_same: "same_conns s (pause_listener s)"
  using unregister_same [of s "listen_fd s"] by (simp add: pause_listener_def same_conns_def)

lemma reopen_same: "reopen_spare_fd s = (ok, s') \<Longrightarrow> same_conns s s'"
  by (auto simp: reopen_spare_fd_def same_conns_def sys_open_def Let_def split: prod.splits if_splits)

lemma add_connection_apart:
  assumes "conns s fd = None" "wire (kern s) fd = []"
  shows "apart s (add_connection s fd)"
proof (cases rule: add_connection_cases [of fd s])
  case (refused k)
  then show ?thesis by (simp add: apart_def quiet_def sys_close_def)
next
  case (registers k peer ok s2 L)
  then show ?thesis using register_same [OF registers(3)] assms by (auto simp: apart_def same_conns_def quiet_def sys_close_def)
qed

lemma shed_connection_apart:
  assumes "inv_but X s" shows "apart s (shed_connection s)"
proof (cases rule: shed_connection_cases [of s])
  case (spends r fd k L ok s3)
  let ?s1 = "s\<lparr>spare_fd := - 1, kern := sys_close (spare_fd s) (kern s)\<rparr>"
  have i1: "inv_but X ?s1" using assms spends(1) by (rule drop_spare_inv)
  then have "apart ?s1 (?s1\<lparr>kern := k\<rparr>)" using sys_accept_apart(1) [of ?s1 r fd k] spends(2) by (simp add: inv_defs)
  then have "apart s (s\<lparr>spare_fd := - 1, kern := (if fd \<ge> 0 then sys_close fd k else k)\<lparr>klog := L\<rparr>\<rparr>)"
    by (auto simp: apart_def sys_close_def)
  with spends(3) have s3: "apart s s3" by (blast intro: apart_trans same_conns_apart reopen_same)
  moreover have "apart s (pause_listener s3)" using s3 by (blast intro: apart_trans same_conns_apart pause_same)
  ultimately show ?thesis using spends(4) by simp
qed (simp add: same_conns_apart pause_same)

lemma accept_loop_apart: "inv_but X s \<Longrightarrow> apart s (accept_loop n s)"
proof (induction n arbitrary: s)
  case (Suc n)
  obtain r fd k where a: "sys_accept (kern s) = (r, fd, k)" by (metis prod_cases3)
  note sa = sys_accept_inv [OF Suc.prems a]
  note sp = sys_accept_apart [OF _ _ a]
  let ?s1 = "s\<lparr>kern := k\<rparr>"
  have one: "apart s ?s1" "r = AcceptReady \<Longrightarrow> wire k fd = [] \<and> conns s fd = None" using sp Suc.prems by (auto simp: inv_defs)
  have "apart s (accept_loop n (add_connection ?s1 fd))" if "r = AcceptReady"
  proof -
    have i: "inv_but X (add_connection ?s1 fd)" using sa that by (intro add_connection_inv) auto
    have "apart ?s1 (add_connection ?s1 fd)" using one(2) that by (intro add_connection_apart) auto
    then show ?thesis using one(1) Suc.IH [OF i] apart_trans by blast
  qed
  moreover have "apart s (accept_loop n ?s1)" "apart s (shed_connection ?s1)"
    using one(1) Suc.IH [OF sa(1)] shed_connection_apart [OF sa(1)] apart_trans by blast+
  moreover have "apart s (s\<lparr>kern := k\<lparr>errnos := E, klog := L\<rparr>\<rparr>)" for E L using one(1) by (simp add: apart_def)
  ultimately show ?case using a one(1) by (auto simp: Let_def split: accept_outcome.split)
qed simp

subsection \<open>Clients over time\<close>

text \<open>
  What happens to the server: events of its clients, the ticks of the loop, and reports that clients
  are waiting at the listener, each at a time. The clock stands still within one of them and moves
  on between them.
\<close>

datatype occasion = At int int client_event | TickAt int | AcceptAt int

definition at_time :: "int \<Rightarrow> server \<Rightarrow> server" where
  "at_time t s = s\<lparr>sdb := set_clock t (sdb s)\<rparr>"

fun timed_step :: "(nat \<Rightarrow> key fset \<Rightarrow> key list list) \<Rightarrow> server \<Rightarrow> occasion \<Rightarrow> server" where
  "timed_step lay s (At fd t e) = client_step fd (at_time t s) e"
| "timed_step lay s (TickAt t) = on_tick lay False (at_time t s)"
| "timed_step lay s (AcceptAt t) = on_listener_readable (at_time t s)"

fun time_of :: "occasion \<Rightarrow> int" where
  "time_of (At fd t e) = t"
| "time_of (TickAt t) = t"
| "time_of (AcceptAt t) = t"

fun occasion_ok :: "int set \<Rightarrow> occasion \<Rightarrow> bool" where
  "occasion_ok F (At fd t e) \<longleftrightarrow> fd \<in> F \<and> t \<le> INT64_MAX \<and> event_ok e \<and> list_all send_fine (sends_of e)"
| "occasion_ok F (TickAt t) \<longleftrightarrow> t \<le> INT64_MAX"
| "occasion_ok F (AcceptAt t) \<longleftrightarrow> t \<le> INT64_MAX"

text \<open>A client can send once it has been accepted.\<close>

definition accepted :: "(nat \<Rightarrow> key fset \<Rightarrow> key list list) \<Rightarrow> server \<Rightarrow> occasion list \<Rightarrow> int \<Rightarrow> bool" where
  "accepted lay s xs fd \<longleftrightarrow> (\<exists>i \<le> length xs. conns (foldl (timed_step lay) s (take i xs)) fd \<noteq> None)"

definition reported :: "(nat \<Rightarrow> key fset \<Rightarrow> key list list) \<Rightarrow> server \<Rightarrow> occasion list \<Rightarrow> bool" where
  "reported lay s xs \<longleftrightarrow> (\<forall>i < length xs. case xs ! i of At fd t e \<Rightarrow> accepted lay s (take i xs) fd | _ \<Rightarrow> True)"

lemma accepted_Nil: "accepted lay s [] fd \<longleftrightarrow> conns s fd \<noteq> None"
  by (simp add: accepted_def)

lemma accepted_snoc: "accepted lay s (xs @ [x]) fd \<longleftrightarrow> accepted lay s xs fd \<or> conns (timed_step lay (foldl (timed_step lay) s xs) x) fd \<noteq> None"
proof -
  have "i \<le> length (xs @ [x]) \<longleftrightarrow> i \<le> length xs \<or> i = Suc (length xs)" for i by auto
  then show ?thesis unfolding accepted_def by (auto simp: ex_disj_distrib conj_disj_distribR)
qed

lemma reported_snoc:
  "reported lay s (xs @ [x]) \<longleftrightarrow> reported lay s xs \<and> (case x of At fd t e \<Rightarrow> accepted lay s xs fd | _ \<Rightarrow> True)"
proof -
  have "(\<forall>i < length (xs @ [x]). P i) \<longleftrightarrow> (\<forall>i < length xs. P i) \<and> P (length xs)" for P by (auto simp: less_Suc_eq)
  moreover have "(\<forall>i < length xs. case (xs @ [x]) ! i of At fd t e \<Rightarrow> accepted lay s (take i (xs @ [x])) fd | _ \<Rightarrow> True) \<longleftrightarrow> reported lay s xs"
    unfolding reported_def by (intro all_cong) (simp add: nth_append split: occasion.split)
  ultimately show ?thesis by (simp add: reported_def [of lay s "xs @ [x]"] split: occasion.split)
qed

fun input_of :: "int \<Rightarrow> occasion \<Rightarrow> bytes" where
  "input_of fd (At fd' t e) = (if fd' = fd then chunk_of e else [])"
| "input_of fd (TickAt t) = []"
| "input_of fd (AcceptAt t) = []"

definition stream :: "int \<Rightarrow> occasion list \<Rightarrow> bytes" where
  "stream fd xs = concat (map (input_of fd) xs)"

text \<open>
  The order of the commands: at an occasion of a client run those of its commands that its input up
  to then completes, beyond those that were complete before. \<open>as fd\<close> are the client's commands.
\<close>

definition completed :: "int \<Rightarrow> occasion list \<Rightarrow> nat" where
  "completed fd xs = length (fst (drain (new_parser default_limits) (stream fd xs)))"

fun arrivals :: "(int \<Rightarrow> acmd list) \<Rightarrow> occasion list \<Rightarrow> occasion \<Rightarrow> (int \<times> int \<times> acmd) list" where
  "arrivals as xs (At fd t e) =
     map (\<lambda>a. (fd, t, a)) (take (completed fd (xs @ [At fd t e]) - completed fd xs) (drop (completed fd xs) (as fd)))"
| "arrivals as xs (TickAt t) = []"
| "arrivals as xs (AcceptAt t) = []"

definition history :: "(int \<Rightarrow> acmd list) \<Rightarrow> occasion list \<Rightarrow> (int \<times> int \<times> acmd) list" where
  "history as xs = concat (map (\<lambda>i. arrivals as (take i xs) (xs ! i)) [0..<length xs])"

definition of_client :: "int \<Rightarrow> (int \<times> int \<times> acmd) list \<Rightarrow> acmd list" where
  "of_client fd h = map (\<lambda>(f, t, a). a) (filter (\<lambda>(f, t, a). f = fd) h)"

definition spec_run :: "(int \<times> int \<times> acmd) list \<Rightarrow> kspace \<Rightarrow> reply list \<times> kspace" where
  "spec_run h A = aspec_run (map (\<lambda>(f, t, a). (t, Some a)) h) A"

definition replies_to :: "int \<Rightarrow> (int \<times> int \<times> acmd) list \<Rightarrow> reply list \<Rightarrow> bytes" where
  "replies_to fd h rs = concat (map (\<lambda>((f, t, a), r). if f = fd then encode_reply r else []) (zip h rs))"

lemma stream_snoc [simp]: "stream fd (xs @ [x]) = stream fd xs @ input_of fd x" and stream_Nil [simp]: "stream fd [] = []"
  by (simp_all add: stream_def)

lemma history_Nil [simp]: "history as [] = []"
  by (simp add: history_def)

lemma history_snoc: "history as (xs @ [x]) = history as xs @ arrivals as xs x"
proof -
  have "map (\<lambda>i. arrivals as (take i (xs @ [x])) ((xs @ [x]) ! i)) [0..<length xs] =
      map (\<lambda>i. arrivals as (take i xs) (xs ! i)) [0..<length xs]"
    by (rule map_cong) (auto simp: nth_append)
  from arg_cong [OF this, of concat] show ?thesis by (simp only: history_def length_append list.size upt_Suc_append) (simp add: history_def)
qed

lemma spec_run_append:
  "spec_run h A = (rs, B) \<Longrightarrow> spec_run h' B = (rs', C) \<Longrightarrow> spec_run (h @ h') A = (rs @ rs', C)"
  by (simp add: spec_run_def aspec_run_append)

lemma spec_run_length: "spec_run h A = (rs, B) \<Longrightarrow> length rs = length h"
  by (induction h arbitrary: A rs) (auto simp: spec_run_def Let_def split: prod.splits)

lemma replies_to_append: "length h = length rs \<Longrightarrow> replies_to fd (h @ h') (rs @ rs') = replies_to fd h rs @ replies_to fd h' rs'"
  by (simp add: replies_to_def)

lemma replies_to_own: "length rs = length xs \<Longrightarrow> replies_to fd (map (\<lambda>a. (fd, t, a)) xs) rs = concat (map encode_reply rs)"
  by (induction rs xs rule: list_induct2) (simp_all add: replies_to_def)

lemma replies_to_other: "f \<noteq> fd \<Longrightarrow> replies_to f (map (\<lambda>a. (fd, t, a)) xs) rs = []"
  by (induction xs rs rule: list_induct2') (simp_all add: replies_to_def)

lemma at_time_inv: "server_inv s \<Longrightarrow> 500 \<le> t \<Longrightarrow> t \<le> INT64_MAX \<Longrightarrow> server_inv (at_time t s)"
  by (simp add: at_time_def server_inv_def inv_defs db_ok_set_clock)

lemma at_time_fields [simp]:
  "conns (at_time t s) = conns s" "kern (at_time t s) = kern s" "cfg (at_time t s) = cfg s"
  "sdb (at_time t s) = set_clock t (sdb s)"
  by (simp_all add: at_time_def)

lemma valid_argv_ok: "valid_command default_limits argv \<Longrightarrow> argv_ok argv"
  unfolding valid_command_def argv_ok_def default_limits_def by fastforce

lemma client_step_frame:
  assumes "server_inv s" "f \<noteq> fd"
  shows "conns (client_step fd s e) f = conns s f" "wire (kern (client_step fd s e)) f = wire (kern s) f"
  using assms on_conn_event_inv(2) [OF set_sends_inv [OF assms(1)] assms(2)] on_conn_event_wire [OF set_sends_inv [OF assms(1)] assms(2)]
  by (cases e; simp add: set_sends_def)+

text \<open>
  One event of one client: it executes the commands that the input now completes, and puts their
  replies behind what the client has been sent.
\<close>

lemma event_step:
  assumes "server_inv s" "conns s fd = Some c" "\<not> close_after_write c" "stands_for now (sdb s) B"
    "now \<le> t" "500 \<le> t" "t \<le> INT64_MAX" "event_ok e" "list_all send_fine (sends_of e)"
    "drain (conn_parser c) (buf_contents (conn_in c)) = ([], Incomplete, conn_parser c, buf_contents (conn_in c))"
    "drain (conn_parser c) (buf_contents (conn_in c) @ chunk_of e) = (cmds, Incomplete, p', r')"
    "list_all2 denotes cmds as" "\<forall>argv \<in> set cmds. argv_ok argv" "aspec_run (map (\<lambda>a. (t, Some a)) as) B = (rs, B')"
    "readable (conn_out c) + length (concat (map encode_reply rs)) \<le> max_output_buffer (cfg s)"
    "s' = client_step fd (at_time t s) e"
  shows "\<exists>c'. server_inv s' \<and> conns s' fd = Some c' \<and> \<not> close_after_write c' \<and> conn_parser c' = p' \<and> buf_contents (conn_in c') = r' \<and>
    wire (kern s') fd @ buf_contents (conn_out c') = (wire (kern s) fd @ buf_contents (conn_out c)) @ concat (map encode_reply rs) \<and>
    stands_for t (sdb s') B'"
proof -
  let ?s = "at_time t s"
  have i: "server_inv ?s" "conns ?s fd = Some c" using assms(1,2,6,7) by (simp_all add: at_time_inv)
  have "stands_for t (sdb ?s) B" using assms(4,5) by (auto intro: stands_for_mono)
  moreover have "db_ok (sdb ?s)" using i(1) by (simp add: server_inv_def inv_defs)
  ultimately obtain d' where x: "exec cmds (sdb ?s) = (concat (map encode_reply rs), d', False)" "stands_for t d' B'"
    using exec_refines [OF _ _ _ assms(6,7,12,13,14), of "sdb ?s"] by auto
  obtain c' where c': "conns s' fd = Some c'" "\<not> close_after_write c'"
  proof (cases e)
    case (Drains os)
    then show thesis using that drains_open [OF i assms(3), of os] assms(9,16) by auto
  next
    case (Chunk bs wr os)
    have "server_inv (set_sends os ?s)" "conns (set_sends os ?s) fd = Some c" using set_sends_inv [OF i(1)] i(2) by auto
    from chunk_event_open [OF this assms(3), of bs _ wr cmds p' r' _ d'] show thesis
      using that Chunk assms(8,9,11,15,16) x(1) by (auto simp: set_sends_def)
  qed
  from client_step_stream(2) [OF i assms(8,16) c' assms(10)]
  have "conn_parser c' = p'" "buf_contents (conn_in c') = r'" "sdb s' = d'"
    "wire (kern s') fd @ buf_contents (conn_out c') = wire (kern s) fd @ buf_contents (conn_out c) @ concat (map encode_reply rs)"
    using assms(11) x(1) by auto
  then show ?thesis using c' x(2) client_step_inv [OF i(1)] assms(16) by auto
qed

lemma tick_step:
  assumes "server_inv s" "stands_for now (sdb s) B" "now \<le> t" "500 \<le> t" "t \<le> INT64_MAX" "s' = timed_step lay s (TickAt t)"
  shows "server_inv s'" "conns s' = conns s" "wire (kern s') = wire (kern s)" "cfg s' = cfg s" "stands_for t (sdb s') B"
proof -
  let ?s = "at_time t s"
  have i: "server_inv ?s" using assms(1,4,5) by (rule at_time_inv)
  obtain r d' where ac: "active_expire_cycle lay (active_expire_samples (cfg s)) (set_clock t (sdb s)) = (r, d')" by fastforce
  have "s' = ?s\<lparr>sdb := d'\<rparr> \<or> s' = logs (log_debug (reclaimed_msg r)) (?s\<lparr>sdb := d'\<rparr>)"
    using ac assms(6) by (auto simp: on_tick_def Let_def split: if_splits)
  note tick = this
  have "stands_for t (set_clock t (sdb s)) B" using assms(2,3) by (auto intro: stands_for_mono)
  moreover have "db_ok (set_clock t (sdb s))" using i by (simp add: server_inv_def inv_defs)
  ultimately have d': "db_ok d'" "stands_for t d' B" using frozen_expire_cycle [OF frozen_set_clock _ _ ac] by blast+
  show "server_inv s'" "conns s' = conns s" "wire (kern s') = wire (kern s)" "cfg s' = cfg s" "stands_for t (sdb s') B"
    using i d' tick by (auto simp: server_inv_def inv_defs loop_synced_def)
qed

lemma accept_step:
  assumes "server_inv s" "stands_for now (sdb s) B" "now \<le> t" "500 \<le> t" "t \<le> INT64_MAX" "s' = timed_step lay s (AcceptAt t)"
  shows "server_inv s'" "apart (at_time t s) s'" "stands_for t (sdb s') B"
proof -
  have i: "inv_but {} (at_time t s)" using at_time_inv [OF assms(1,4,5)] by (simp add: server_inv_def)
  show "server_inv s'" "apart (at_time t s) s'"
    using accept_loop_inv [OF i] accept_loop_apart [OF i] assms(6) by (simp_all add: on_listener_readable_def server_inv_def)
  then show "stands_for t (sdb s') B" using assms(2,3) by (auto simp: apart_def intro: stands_for_mono)
qed

text \<open>Part of a pipeline has arrived: the commands it completes are a part of the pipeline.\<close>

lemma pipeline_part:
  assumes "\<forall>argv \<in> set cmds. valid_command default_limits argv" "input @ rest = encode_pipeline cmds"
  obtains cs cs' p r where "drain (new_parser default_limits) input = (cs, Incomplete, p, r)" "cmds = cs @ cs'"
proof -
  obtain cs p r where d: "drain (new_parser default_limits) input = (cs, Incomplete, p, r)"
    using drain_pipeline_prefix [OF assms(1) limits_ok_default assms(2)] by blast
  have "drain (new_parser default_limits) (input @ rest) = (cmds, Incomplete, new_parser default_limits, [])"
    using drain_pipeline [OF assms(1) limits_ok_default] assms(2) by simp
  then show thesis using that [OF d] drain_append [OF d, of rest] by (auto split: prod.splits)
qed

subsection \<open>All clients together\<close>

text \<open>What is true of each client after every occasion.\<close>

definition served :: "int \<Rightarrow> server \<Rightarrow> bytes list list \<Rightarrow> acmd list \<Rightarrow> (int \<times> int \<times> acmd) list \<Rightarrow> reply list \<Rightarrow> bytes \<Rightarrow> conn \<Rightarrow> bool" where
  "served fd s cmds as h rs input c \<longleftrightarrow>
     conns s fd = Some c \<and> \<not> close_after_write c \<and>
     (\<exists>cs cs'. drain (new_parser default_limits) input = (cs, Incomplete, conn_parser c, buf_contents (conn_in c)) \<and>
        cmds = cs @ cs' \<and> of_client fd h = take (length cs) as) \<and>
     wire (kern s) fd @ buf_contents (conn_out c) = replies_to fd h rs"

lemma of_client_append [simp]: "of_client fd (h @ h') = of_client fd h @ of_client fd h'"
  by (simp add: of_client_def)

lemma of_client_own [simp]: "of_client fd (map (\<lambda>a. (fd, t, a)) xs) = xs"
  by (induction xs) (simp_all add: of_client_def)

lemma of_client_other: "f \<noteq> fd \<Longrightarrow> of_client f (map (\<lambda>a. (fd, t, a)) xs) = []"
  by (induction xs) (simp_all add: of_client_def)

lemma served_frame:
  assumes "served f s cmds as h rs input c" "f \<noteq> fd" "conns s' f = conns s f" "wire (kern s') f = wire (kern s) f"
    "h' = map (\<lambda>a. (fd, t, a)) xs" "length h = length rs"
  shows "served f s' cmds as (h @ h') (rs @ rs') input c"
  using assms by (simp add: served_def of_client_other replies_to_append replies_to_other)

text \<open>A client that is not connected yet has sent nothing.\<close>

definition attended :: "int \<Rightarrow> server \<Rightarrow> bytes list list \<Rightarrow> acmd list \<Rightarrow> (int \<times> int \<times> acmd) list \<Rightarrow> reply list \<Rightarrow> bytes \<Rightarrow> bool" where
  "attended fd s cmds as h rs input \<longleftrightarrow>
     (if conns s fd = None then input = [] \<and> of_client fd h = [] \<and> replies_to fd h rs = []
      else \<exists>c. served fd s cmds as h rs input c)"

lemma attended_frame:
  assumes "attended f s cmds as h rs input" "f \<noteq> fd" "conns s' f = conns s f" "wire (kern s') f = wire (kern s) f"
    "h' = map (\<lambda>a. (fd, t, a)) xs" "length h = length rs"
  shows "attended f s' cmds as (h @ h') (rs @ rs') input"
proof (cases "conns s f")
  case None
  then show ?thesis
    using assms by (simp add: attended_def of_client_other replies_to_append replies_to_other)
next
  case (Some c)
  then show ?thesis using assms(1,3) served_frame [OF _ assms(2-6)] by (simp add: attended_def) blast
qed

lemma attended_same:
  assumes "attended f s cmds as h rs input" "conns s' f = conns s f" "wire (kern s') f = wire (kern s) f"
  shows "attended f s' cmds as h rs input"
proof -
  have "served f s' cmds as h rs input c = served f s cmds as h rs input c" for c using assms(2,3) by (simp add: served_def)
  then show ?thesis using assms(1,2) by (simp add: attended_def)
qed

lemma attended_new:
  assumes "conns s f = Some (new_conn f peer)" "wire (kern s) f = []" "of_client f h = []" "replies_to f h rs = []"
  shows "attended f s cmds as h rs []"
proof -
  have "served f s cmds as h rs [] (new_conn f peer)" using assms by (simp add: served_def)
  then show ?thesis using assms(1) by (auto simp: attended_def)
qed

lemma attended_apart:
  assumes "attended f s cmds as h rs input" "apart s s'"
  shows "attended f s' cmds as h rs input"
proof (cases "conns s f")
  case None
  then have n: "input = []" "of_client f h = []" "replies_to f h rs = []" using assms(1) by (simp_all add: attended_def)
  from None assms(2) consider "conns s' f = None" | peer where "conns s' f = Some (new_conn f peer)" "wire (kern s') f = []"
    using that spec [of _ f] unfolding apart_def by metis
  then show ?thesis
  proof cases
    case (2 peer)
    then show ?thesis using n attended_new by blast
  qed (simp add: attended_def n)
next
  case (Some c)
  then have "conns s' f = conns s f" "wire (kern s') f = wire (kern s) f" using assms(2) by (simp_all add: apart_def)
  then show ?thesis using attended_same [OF assms(1)] by blast
qed

text \<open>The client whose event it is. The commands that the event completes are the arrivals.\<close>

lemma served_event:
  assumes "server_inv s" "served fd s cmds (as fd) h rs (stream fd xs) c" "spec_run h A = (rs, B)" "stands_for now (sdb s) B"
    "now \<le> t" "500 \<le> t" "t \<le> INT64_MAX" "event_ok e" "list_all send_fine (sends_of e)"
    "\<forall>argv \<in> set cmds. valid_command default_limits argv" "list_all2 denotes cmds (as fd)"
    "(stream fd xs @ chunk_of e) @ rest = encode_pipeline cmds" "h' = arrivals as xs (At fd t e)" "spec_run h' B = (rs', B')"
    "length (replies_to fd (h @ h') (rs @ rs')) \<le> max_output_buffer (cfg s)" "s' = timed_step lay s (At fd t e)"
  shows "\<exists>c'. served fd s' cmds (as fd) (h @ h') (rs @ rs') (stream fd xs @ chunk_of e) c' \<and> server_inv s' \<and> stands_for t (sdb s') B'"
proof -
  obtain cs cs' where c: "conns s fd = Some c" "\<not> close_after_write c" "cmds = cs @ cs'" "of_client fd h = take (length cs) (as fd)"
    "drain (new_parser default_limits) (stream fd xs) = (cs, Incomplete, conn_parser c, buf_contents (conn_in c))"
    "wire (kern s) fd @ buf_contents (conn_out c) = replies_to fd h rs"
    using assms(2) by (auto simp: served_def)
  from pipeline_part [OF assms(10,12)] obtain cs2 cs3 p r
    where dr: "drain (new_parser default_limits) (stream fd xs @ chunk_of e) = (cs2, Incomplete, p, r)" "cmds = cs2 @ cs3" by metis
  obtain new where new: "cs2 = cs @ new" "drain (conn_parser c) (buf_contents (conn_in c) @ chunk_of e) = (new, Incomplete, p, r)"
    using drain_append [OF c(5), of "chunk_of e"] dr(1) by (auto split: prod.splits)
  define as2 where "as2 = take (length new) (drop (length cs) (as fd))"
  have h': "h' = map (\<lambda>a. (fd, t, a)) as2" using assms(13) c(5) dr(1) new(1) by (simp add: completed_def as2_def)
  have l: "length rs = length h" "length rs' = length as2" using spec_run_length assms(3,14) h' by auto
  have run: "aspec_run (map (\<lambda>a. (t, Some a)) as2) B = (rs', B')" using assms(14) by (simp add: spec_run_def h' comp_def)
  have "new = take (length new) (drop (length cs) cmds)" using dr(2) new(1) by simp
  then have den: "list_all2 denotes new as2" unfolding as2_def using assms(11) by (metis list_all2_dropI list_all2_takeI)
  have ok: "\<forall>argv \<in> set new. argv_ok argv" using assms(10) dr(2) new(1) valid_argv_ok by auto
  have both: "replies_to fd (h @ h') (rs @ rs') = replies_to fd h rs @ concat (map encode_reply rs')"
    using l h' replies_to_own [of rs' as2] by (simp add: replies_to_append)
  have "readable (conn_out c) = length (buf_contents (conn_out c))"
    using at_rest(1) [OF assms(1) c(1)] by (simp add: in_hand_def conn_mid_def)
  then have fits: "readable (conn_out c) + length (concat (map encode_reply rs')) \<le> max_output_buffer (cfg s)"
    using assms(15) both arg_cong [OF c(6), of length] by simp
  have s': "s' = client_step fd (at_time t s) e" using assms(16) by simp
  obtain c' where c': "server_inv s'" "conns s' fd = Some c'" "\<not> close_after_write c'" "conn_parser c' = p" "buf_contents (conn_in c') = r"
    "wire (kern s') fd @ buf_contents (conn_out c') = replies_to fd h rs @ concat (map encode_reply rs')" "stands_for t (sdb s') B'"
    using event_step [OF assms(1) c(1,2) assms(4-9) drain_idem [OF c(5)] new(2) den ok run fits s'] c(6) by auto
  have "of_client fd (h @ h') = take (length cs2) (as fd)" using c(4) h' new(1) by (simp add: as2_def take_add)
  then have "served fd s' cmds (as fd) (h @ h') (rs @ rs') (stream fd xs @ chunk_of e) c'"
    using c' dr both by (auto simp: served_def)
  then show ?thesis using c'(1,7) by blast
qed

lemma timed_step_cfg: "server_inv s \<Longrightarrow> 500 \<le> time_of x \<Longrightarrow> time_of x \<le> INT64_MAX \<Longrightarrow> cfg (timed_step lay s x) = cfg s"
  using client_steps_cfg [of "at_time (time_of x) s" "case x of At fd t e \<Rightarrow> fd" "[case x of At fd t e \<Rightarrow> e]"] at_time_inv [of s "time_of x"]
    accept_loop_apart [of "{}" "at_time (time_of x) s"]
  by (cases x) (simp_all add: on_tick_def on_listener_readable_def server_inv_def apart_def Let_def split: prod.split)

lemma occasion_time: "occasion_ok F x \<Longrightarrow> time_of x \<le> INT64_MAX"
  by (cases x) simp_all

lemma replies_to_prefix:
  assumes "spec_run (h @ h') A = (rs'', C)" "length (replies_to fd (h @ h') rs'') \<le> n"
  shows "length (replies_to fd h (fst (spec_run h A))) \<le> n"
proof -
  obtain rs B rs' C' where r: "spec_run h A = (rs, B)" "spec_run h' B = (rs', C')" by fastforce
  then have "rs'' = rs @ rs'" using spec_run_append [OF r] assms(1) by simp
  then show ?thesis using assms(2) r(1) spec_run_length [OF r(1)] by (simp add: replies_to_append)
qed

text \<open>At the beginning a client has just been accepted, or is still to come.\<close>

definition fresh :: "server \<Rightarrow> int \<Rightarrow> bool" where
  "fresh s fd \<longleftrightarrow> conns s fd = None \<or> ((\<exists>peer. conns s fd = Some (new_conn fd peer)) \<and> wire (kern s) fd = [])"

text \<open>One occasion: the clients go on being attended to, and none is lost.\<close>

definition carried_on ::
  "int set \<Rightarrow> (int \<Rightarrow> bytes list list) \<Rightarrow> (int \<Rightarrow> acmd list) \<Rightarrow> server \<Rightarrow> server \<Rightarrow> (int \<times> int \<times> acmd) list \<Rightarrow> reply list \<Rightarrow>
   (int \<Rightarrow> bytes) \<Rightarrow> bool" where
  "carried_on F cmds as s s' h rs input \<longleftrightarrow>
     (\<forall>fd \<in> F. attended fd s' (cmds fd) (as fd) h rs (input fd) \<and> (conns s fd \<noteq> None \<longrightarrow> conns s' fd \<noteq> None))"

lemma quiet_occasion:
  assumes "server_inv s" "stands_for now (sdb s) B" "\<forall>fd \<in> F. attended fd s (cmds fd) (as fd) h rs (stream fd xs)"
    "now \<le> time_of x" "500 \<le> time_of x" "time_of x \<le> INT64_MAX" "x = TickAt u \<or> x = AcceptAt u" "s' = timed_step lay s x"
  shows "server_inv s' \<and> stands_for (time_of x) (sdb s') B \<and> carried_on F cmds as s s' h rs (\<lambda>fd. stream fd (xs @ [x]))"
  using assms(7)
proof
  assume x: "x = TickAt u"
  note k = tick_step [OF assms(1,2), of u s' lay]
  have "attended f s' (cmds f) (as f) h rs (stream f xs)" if "f \<in> F" for f
    using attended_same [OF bspec [OF assms(3) that], of s'] k assms(4-6,8) x by simp
  then show ?thesis using k assms(4-6,8) x by (simp add: carried_on_def)
next
  assume x: "x = AcceptAt u"
  note k = accept_step [OF assms(1,2), of u s' lay]
  have ap: "apart (at_time u s) s'" using k(2) assms(4-6,8) x by simp
  have "attended f s' (cmds f) (as f) h rs (stream f xs)" if "f \<in> F" for f
    using assms(3) that by (intro attended_apart [OF _ ap]) (auto intro: attended_same)
  moreover have "conns s f \<noteq> None \<longrightarrow> conns s' f \<noteq> None" for f using ap by (auto simp: apart_def)
  ultimately show ?thesis using k assms(4-6,8) x by (simp add: carried_on_def)
qed

lemma client_occasion:
  assumes "server_inv s" "conns s fd \<noteq> None" "\<forall>f \<in> F. attended f s (cmds f) (as f) h rs (stream f xs)" "fd \<in> F"
    "spec_run h A = (rs, B)" "stands_for now (sdb s) B" "now \<le> t" "500 \<le> t" "t \<le> INT64_MAX" "event_ok e" "list_all send_fine (sends_of e)"
    "\<forall>argv \<in> set (cmds fd). valid_command default_limits argv" "list_all2 denotes (cmds fd) (as fd)"
    "(stream fd xs @ chunk_of e) @ rest = encode_pipeline (cmds fd)" "x = At fd t e" "h' = arrivals as xs x" "spec_run h' B = (rs', B')"
    "length (replies_to fd (h @ h') (rs @ rs')) \<le> max_output_buffer (cfg s)" "s' = timed_step lay s x"
  shows "server_inv s' \<and> stands_for t (sdb s') B' \<and> carried_on F cmds as s s' (h @ h') (rs @ rs') (\<lambda>fd. stream fd (xs @ [x]))"
proof -
  obtain c where c: "served fd s (cmds fd) (as fd) h rs (stream fd xs) c" using bspec [OF assms(3,4)] assms(2) by (auto simp: attended_def)
  have x: "h' = arrivals as xs (At fd t e)" "s' = timed_step lay s (At fd t e)" using assms(15,16,19) by simp_all
  obtain c' where own: "served fd s' (cmds fd) (as fd) (h @ h') (rs @ rs') (stream fd xs @ chunk_of e) c'" "server_inv s'" "stands_for t (sdb s') B'"
    using served_event [OF assms(1) c assms(5-14) x(1) assms(17,18) x(2)] by blast
  have len: "length h = length rs" using spec_run_length [OF assms(5)] by simp
  have i: "server_inv (at_time t s)" using at_time_inv [OF assms(1)] assms(8,9) by simp
  have "attended f s' (cmds f) (as f) (h @ h') (rs @ rs') (stream f (xs @ [x])) \<and> (conns s f \<noteq> None \<longrightarrow> conns s' f \<noteq> None)" if f: "f \<in> F" for f
  proof (cases "f = fd")
    case True
    then show ?thesis using own(1) assms(15) by (auto simp: attended_def served_def)
  next
    case False
    note fr = client_step_frame [OF i False, of e]
    have "attended f s' (cmds f) (as f) (h @ h') (rs @ rs') (stream f xs)"
      using assms(3) f False fr x len by (intro attended_frame) auto
    then show ?thesis using assms(15) False fr(1) x(2) by simp
  qed
  then show ?thesis using own(2,3) by (simp add: carried_on_def)
qed

lemma fresh_attended:
  assumes "fresh s fd" shows "attended fd s cmds as [] [] []"
proof -
  from assms consider "conns s fd = None" | peer where "conns s fd = Some (new_conn fd peer)" "wire (kern s) fd = []"
    unfolding fresh_def by metis
  then show ?thesis
  proof cases
    case (2 peer)
    then show ?thesis by (rule attended_new) (simp_all add: of_client_def replies_to_def)
  qed (simp add: attended_def of_client_def replies_to_def)
qed

lemma clients_served:
  assumes "server_inv s" "\<forall>fd \<in> F. fresh s fd" "stands_for t0 (sdb s) A"
    "500 \<le> t0" "\<forall>fd \<in> F. (\<forall>argv \<in> set (cmds fd). valid_command default_limits argv) \<and> list_all2 denotes (cmds fd) (as fd)"
    "\<forall>x \<in> set xs. occasion_ok F x" "sorted (t0 # map time_of xs)" "reported lay s xs"
    "\<forall>fd \<in> F. stream fd xs @ rest fd = encode_pipeline (cmds fd)"
    "\<forall>fd \<in> F. length (replies_to fd (history as xs) (fst (spec_run (history as xs) A))) \<le> max_output_buffer (cfg s)"
  shows "\<exists>rs B. spec_run (history as xs) A = (rs, B) \<and> server_inv (foldl (timed_step lay) s xs) \<and>
    cfg (foldl (timed_step lay) s xs) = cfg s \<and> stands_for (last (t0 # map time_of xs)) (sdb (foldl (timed_step lay) s xs)) B \<and>
    (\<forall>fd \<in> F. attended fd (foldl (timed_step lay) s xs) (cmds fd) (as fd) (history as xs) rs (stream fd xs) \<and>
       (accepted lay s xs fd \<longrightarrow> conns (foldl (timed_step lay) s xs) fd \<noteq> None))"
  using assms(6-10)
proof (induction xs arbitrary: rest rule: rev_induct)
  case Nil
  then show ?case using assms(1,2,3) fresh_attended by (auto simp: spec_run_def accepted_Nil)
next
  case (snoc x xs)
  let ?s = "foldl (timed_step lay) s xs" let ?s' = "timed_step lay ?s x" let ?h = "history as xs" let ?h' = "arrivals as xs x"
  let ?now = "last (t0 # map time_of xs)"
  obtain rs2 C where run2: "spec_run (?h @ ?h') A = (rs2, C)" by fastforce
  have so: "sorted (t0 # map time_of xs)" "?now \<le> time_of x" "t0 \<le> time_of x"
    using snoc.prems(2) by (auto simp: sorted_append last_map)
  have "\<forall>fd \<in> F. length (replies_to fd ?h (fst (spec_run ?h A))) \<le> max_output_buffer (cfg s)"
    using snoc.prems(5) run2 replies_to_prefix [OF run2] by (simp add: history_snoc)
  with snoc.IH [OF _ so(1) _ _, of "\<lambda>fd. input_of fd x @ rest fd"] obtain rs B where
    one: "spec_run ?h A = (rs, B)" "server_inv ?s" "cfg ?s = cfg s" "stands_for ?now (sdb ?s) B"
    "\<forall>fd \<in> F. attended fd ?s (cmds fd) (as fd) ?h rs (stream fd xs)" "\<forall>fd \<in> F. accepted lay s xs fd \<longrightarrow> conns ?s fd \<noteq> None"
    using snoc.prems(1,3,4) reported_snoc by auto
  obtain rs' B' where two: "spec_run ?h' B = (rs', B')" by fastforce
  have both: "spec_run (history as (xs @ [x])) A = (rs @ rs', B')" using spec_run_append [OF one(1) two] by (simp add: history_snoc)
  have ok: "occasion_ok F x" using snoc.prems(1) by simp
  have t: "500 \<le> time_of x" "time_of x \<le> INT64_MAX" using so(3) assms(4) occasion_time [OF ok] by auto
  have cf: "cfg ?s' = cfg s" using timed_step_cfg [OF one(2) t] one(3) by simp
  have "server_inv ?s' \<and> stands_for (time_of x) (sdb ?s') B' \<and>
      carried_on F cmds as ?s ?s' (?h @ ?h') (rs @ rs') (\<lambda>fd. stream fd (xs @ [x]))"
  proof (cases x)
    case (At fd u e)
    have fd: "fd \<in> F" using ok At by simp
    have "conns ?s fd \<noteq> None" using snoc.prems(3) At one(6) fd by (simp add: reported_snoc)
    moreover have "length (replies_to fd (?h @ ?h') (rs @ rs')) \<le> max_output_buffer (cfg ?s)"
      using snoc.prems(5) fd both one(3) by (simp add: history_snoc)
    moreover have "(stream fd xs @ chunk_of e) @ rest fd = encode_pipeline (cmds fd)" using bspec [OF snoc.prems(4) fd] At by simp
    ultimately show ?thesis
      using client_occasion [OF one(2) _ one(5) fd one(1,4) _ _ _ _ _ _ _ _ At refl two _ refl] assms(5) fd so(2) t ok At by simp
  next
    case (TickAt u)
    then have "rs' = []" "B' = B" "?h' = []" using two by (simp_all add: spec_run_def)
    then show ?thesis using quiet_occasion [OF one(2,4,5) so(2) t _ refl] TickAt by simp
  next
    case (AcceptAt u)
    then have "rs' = []" "B' = B" "?h' = []" using two by (simp_all add: spec_run_def)
    then show ?thesis using quiet_occasion [OF one(2,4,5) so(2) t _ refl] AcceptAt by simp
  qed
  then show ?case using both cf one(6) by (auto simp: history_snoc accepted_snoc carried_on_def)
qed

text \<open>The pipelines have arrived in full.\<close>

lemma clients_answered:
  assumes "server_inv s" "\<forall>fd \<in> F. fresh s fd" "stands_for t0 (sdb s) A"
    "500 \<le> t0" "\<forall>fd \<in> F. (\<forall>argv \<in> set (cmds fd). valid_command default_limits argv) \<and> list_all2 denotes (cmds fd) (as fd)"
    "\<forall>x \<in> set xs. occasion_ok F x" "sorted (t0 # map time_of xs)" "reported lay s xs" "\<forall>fd \<in> F. stream fd xs = encode_pipeline (cmds fd)"
    "spec_run (history as xs) A = (rs, A')"
    "\<forall>fd \<in> F. length (replies_to fd (history as xs) rs) \<le> max_output_buffer (cfg s)"
    "s' = foldl (timed_step lay) s xs"
  shows "stands_for (last (t0 # map time_of xs)) (sdb s') A' \<and>
    (\<forall>fd \<in> F. of_client fd (history as xs) = as fd \<and>
      (cmds fd \<noteq> [] \<longrightarrow> (\<exists>c. conns s' fd = Some c \<and> buf_contents (conn_in c) = [] \<and>
         wire (kern s') fd @ buf_contents (conn_out c) = replies_to fd (history as xs) rs)))"
proof -
  have r: "fst (spec_run (history as xs) A) = rs" using assms(10) by simp
  have k: "stands_for (last (t0 # map time_of xs)) (sdb s') A'"
    "\<forall>fd \<in> F. attended fd s' (cmds fd) (as fd) (history as xs) rs (stream fd xs)"
    using clients_served [OF assms(1-8), of "\<lambda>fd. []"] assms(9-12) r by auto
  have "of_client fd (history as xs) = as fd \<and> (cmds fd \<noteq> [] \<longrightarrow> (\<exists>c. conns s' fd = Some c \<and> buf_contents (conn_in c) = [] \<and>
      wire (kern s') fd @ buf_contents (conn_out c) = replies_to fd (history as xs) rs))" if fd: "fd \<in> F" for fd
  proof (cases "conns s' fd")
    case None
    then have n: "encode_pipeline (cmds fd) = []" "of_client fd (history as xs) = []"
      using k(2) fd assms(9) by (auto simp: attended_def)
    then have "cmds fd = []" by (cases "cmds fd") (simp_all add: encode_pipeline_def encode_command_def encode_len_def)
    then show ?thesis using n assms(5) fd by auto
  next
    case (Some c0)
    then obtain c cs where c: "conns s' fd = Some c" "of_client fd (history as xs) = take (length cs) (as fd)"
      "drain (new_parser default_limits) (stream fd xs) = (cs, Incomplete, conn_parser c, buf_contents (conn_in c))"
      "wire (kern s') fd @ buf_contents (conn_out c) = replies_to fd (history as xs) rs"
      using bspec [OF k(2) fd] by (auto simp: attended_def served_def)
    have "drain (new_parser default_limits) (stream fd xs) = (cmds fd, Incomplete, new_parser default_limits, [])"
      using drain_pipeline [OF _ limits_ok_default] assms(5,9) fd by simp
    then have "cs = cmds fd" "buf_contents (conn_in c) = []" using c(3) by simp_all
    moreover have "length (cmds fd) = length (as fd)" using assms(5) fd list_all2_lengthD by blast
    ultimately show ?thesis using c by auto
  qed
  then show ?thesis using k(1) by blast
qed

end
