(* ===== verification/Memory.thy ===== *)
theory Memory
  imports Liveness Descriptors
begin

text \<open>
  How much a client can make the server hold. While a connection is not about to close, the input
  that waits for its parser is bounded by the protocol limits and the output by the configured
  limit. After a protocol error neither bound holds: the input that could not be parsed stays
  where it is, every further read adds to it, and every read is answered with the error again.
\<close>

subsection \<open>The bounds\<close>

definition conn_bounded :: "server_config \<Rightarrow> conn \<Rightarrow> bool" where
  "conn_bounded cf c \<longleftrightarrow> close_after_write c \<or>
     readable (conn_in c) \<le> max_pending default_limits \<and> readable (conn_out c) \<le> max_output_buffer cf"

definition mem_ok :: "server_config \<Rightarrow> server \<Rightarrow> bool" where
  "mem_ok cf s \<longleftrightarrow> cfg s = cf \<and> (\<forall>fd c. conns s fd = Some c \<longrightarrow> conn_bounded cf c)"

lemma drain_pending:
  "parser_ok p \<Longrightarrow> drain p r = (cmds, Incomplete, p', r') \<Longrightarrow> length r' \<le> max_pending (limits p)"
proof (induction p r arbitrary: cmds rule: drain.induct)
  case (1 p r)
  obtain st p1 r1 where pb: "parse_bytes p r = (st, p1, r1)" by (metis prod_cases3)
  note b = parse_bytes_bounded [OF "1.prems"(1) pb]
  show ?case
  proof (cases st)
    case (Complete a)
    then obtain cs where "drain p1 r1 = (cs, Incomplete, p', r')"
      using "1.prems"(2) pb by (auto simp: drain.simps [of p] split: prod.splits)
    moreover have "parse_bytes p r = (Complete a, p1, r1)" using pb Complete by simp
    ultimately have "length r' \<le> max_pending (limits p1)" using "1.IH" [OF _ refl refl, of a p1 r1 cs] b by simp
    then show ?thesis using parse_bytes_limits [OF pb] by simp
  qed (use "1.prems"(2) pb b in \<open>auto simp: drain.simps [of p]\<close>)
qed

text \<open>A read hands over at most a chunk.\<close>

lemma on_conn_event_chunk:
  "on_conn_event s fd rd wr (ReadBytes bs) = on_conn_event s fd rd wr (ReadBytes (take kReadChunk bs))"
proof -
  have "handle_read s c (ReadBytes bs) = handle_read s c (ReadBytes (take kReadChunk bs))" for c by (simp add: handle_read_def Let_def)
  then show ?thesis by (simp only: on_conn_event_def)
qed

lemma read_event_bounded:
  assumes "server_inv s" "conns s fd = Some c" "bs \<noteq> []" "length bs \<le> kReadChunk"
    "s' = on_conn_event s fd True wr (ReadBytes bs)" "conns s' fd = Some c'" "\<not> close_after_write c'"
  shows "\<not> close_after_write c \<and> length (buf_contents (conn_in c')) \<le> max_pending default_limits"
proof -
  obtain cmds st p' r' where d: "drain (conn_parser c) (buf_contents (conn_in c) @ bs) = (cmds, st, p', r')" by (metis prod_cases4)
  obtain out d' q where x: "exec cmds (sdb s) = (out, d', q)" by (metis prod_cases3)
  note e = chunk_event [OF assms(1-6) d x]
  have c: "\<not> close_after_write c" "\<not> q" "st = Incomplete" using e(2) assms(7) by auto
  have "parser_ok (conn_parser c)" "limits (conn_parser c) = default_limits"
    using at_rest(1) [OF assms(1,2)] by (simp_all add: in_hand_def conn_mid_def)
  then show ?thesis using drain_pending [of "conn_parser c"] d c e(4) by auto
qed

lemma idle_event_bounded:
  assumes "server_inv s" "conns s fd = Some c" "s' = on_conn_event s fd rd wr r" "conns s' fd = Some c'"
    "\<not> rd \<or> (\<forall>bs. r \<noteq> ReadBytes bs)"
  shows "close_after_write c' = close_after_write c \<and> buf_contents (conn_in c') = buf_contents (conn_in c)"
proof -
  obtain oc1 s1 where e1: "(if rd then handle_read s c r else (Some c, s)) = (oc1, s1)" by fastforce
  obtain c1 where c1: "oc1 = Some c1" "same_stream fd s1 c1 s' c'"
    using later_flush [OF assms(1,2) e1] assms(3,4) by metis
  have "buf_ok (conn_in c)" using at_rest(1) [OF assms(1,2)] by (simp add: in_hand_def conn_mid_def)
  then have "close_after_write c1 = close_after_write c \<and> buf_contents (conn_in c1) = buf_contents (conn_in c)"
    using e1 c1(1) assms(5) by (auto simp: handle_read_def Let_def split: if_splits read_outcome.splits)
  then show ?thesis using c1(2) by (simp add: same_stream_def)
qed

lemma on_conn_event_bounded:
  assumes "server_inv s" "mem_ok cf s"
  shows "mem_ok cf (on_conn_event s fd rd wr r)"
proof (cases "conns s fd")
  case None
  then show ?thesis using assms on_conn_event_inv(3) by simp
next
  case (Some c)
  let ?s = "on_conn_event s fd rd wr r"
  note inv = on_conn_event_inv [OF assms(1)]
  have cf: "cfg s = cf" using assms(2) by (simp add: mem_ok_def)
  have cb: "conn_bounded (cfg s) c" using assms(2) Some by (simp add: mem_ok_def)
  have "conn_bounded (cfg s) c'" if c': "conns ?s fd = Some c'" for c'
  proof (cases "close_after_write c'")
    case True
    then show ?thesis by (simp add: conn_bounded_def)
  next
    case False
    have i: "\<not> close_after_write c \<and>
        length (buf_contents (conn_in c')) \<le> max (length (buf_contents (conn_in c))) (max_pending default_limits)"
    proof (cases "rd \<and> (\<exists>bs. r = ReadBytes bs)")
      case True
      then obtain bs where r: "rd" "r = ReadBytes bs" by blast
      let ?bs = "take kReadChunk bs"
      have e: "?s = on_conn_event s fd True wr (ReadBytes ?bs)" using r on_conn_event_chunk by simp
      have "?bs \<noteq> []"
      proof
        assume "?bs = []"
        then have "?s = close_conn s (c\<lparr>conn_in := ensure_writable (conn_in c) kReadChunk\<rparr>) ''client closed the connection''"
          using Some unfolding e by (simp add: on_conn_event_def handle_read_def)
        then show False
          using c' close_conn_left [OF at_rest(1) [OF assms(1) Some], of "c\<lparr>conn_in := ensure_writable (conn_in c) kReadChunk\<rparr>"]
            at_rest(1) [OF assms(1) Some] by (simp add: in_hand_def)
      qed
      then show ?thesis using read_event_bounded [OF assms(1) Some _ _ e c' False] by auto
    next
      case idle: False
      then show ?thesis using idle_event_bounded [OF assms(1) Some refl c'] False by auto
    qed
    have ok: "buf_ok (conn_in c)" "buf_ok (conn_in c')"
      using at_rest(1) [OF assms(1) Some] at_rest(1) [OF inv(1) c'] by (simp_all add: in_hand_def conn_mid_def)
    have "readable (conn_out c') \<le> max (readable (conn_out c)) (max_output_buffer (cfg s))"
      using on_conn_event_limit [OF assms(1) Some refl c' False] .
    then show ?thesis using i ok cb by (auto simp: conn_bounded_def)
  qed
  moreover have "conn_bounded (cfg s) c'" if "conns ?s f = Some c'" "f \<noteq> fd" for f c'
    using assms(2) inv(2) [OF that(2)] that(1) by (simp add: mem_ok_def)
  ultimately show ?thesis unfolding mem_ok_def inv(4) using cf by blast
qed

lemma conn_bounded_new: "conn_bounded cf (new_conn fd peer)"
  by (simp add: conn_bounded_def new_conn_def)

lemma mem_ok_conns: "mem_ok cf s \<Longrightarrow> conns s' = conns s \<Longrightarrow> cfg s' = cfg s \<Longrightarrow> mem_ok cf s'"
  by (simp add: mem_ok_def)

lemma add_connection_bounded:
  assumes "mem_ok cf s" shows "mem_ok cf (add_connection s fd)"
proof (cases rule: add_connection_cases [of fd s])
  case (refused k)
  then show ?thesis using assms by (simp add: mem_ok_def)
next
  case (registers k peer ok s2 L)
  have "conns s2 = conns s" "cfg s2 = cfg s" using registers(3) by (auto simp: register_def split: prod.splits)
  then show ?thesis using assms registers(4) by (simp add: mem_ok_def conn_bounded_new)
qed

lemma shed_connection_cfg [simp]: "cfg (shed_connection s) = cfg s"
  by (auto simp: shed_connection_def pause_listener_def unregister_def reopen_spare_fd_def Let_def split: prod.split)

lemma accept_loop_bounded: "mem_ok cf s \<Longrightarrow> mem_ok cf (accept_loop n s)"
proof (induction n arbitrary: s)
  case (Suc n)
  obtain r fd k where a: "sys_accept (kern s) = (r, fd, k)" by (metis prod_cases3)
  have k: "mem_ok cf (s\<lparr>kern := k\<rparr>)" using Suc.prems by (simp add: mem_ok_def)
  then have "mem_ok cf (shed_connection (s\<lparr>kern := k\<rparr>))" using mem_ok_conns [OF k, of "shed_connection (s\<lparr>kern := k\<rparr>)"] by simp
  moreover have "mem_ok cf (s\<lparr>kern := k'\<rparr>)" for k' using Suc.prems by (simp add: mem_ok_def)
  ultimately show ?case
    using a k Suc.IH [OF k] Suc.IH [OF add_connection_bounded [OF k]] by (cases r) (simp_all add: Let_def)
qed simp

lemma dispatch_event_bounded: "server_inv s \<Longrightarrow> mem_ok cf s \<Longrightarrow> mem_ok cf (dispatch_event s er)"
  by (auto simp: dispatch_event_def on_listener_readable_def on_conn_event_bounded accept_loop_bounded
      split: option.split callback.split prod.split)

lemma batch_bounded: "server_inv s \<Longrightarrow> mem_ok cf s \<Longrightarrow> mem_ok cf (foldl dispatch_event s evs)"
proof (induction evs arbitrary: s)
  case (Cons e evs)
  have "server_inv (dispatch_event s e)" using batch_inv [OF Cons.prems(1), of "[e]"] by simp
  then show ?case using Cons dispatch_event_bounded by simp
qed simp

lemma loop_body_bounded: "server_inv s \<Longrightarrow> mem_ok cf s \<Longrightarrow> mem_ok cf (loop_body lay evs sd s)"
proof (cases evs)
  case (Some es)
  assume "server_inv s" "mem_ok cf s"
  then have "mem_ok cf (foldl dispatch_event s es)" by (rule batch_bounded)
  then show ?thesis using Some by (auto simp: loop_body_def on_tick_def loop_stop_def mem_ok_def Let_def split: prod.split)
qed (simp add: loop_body_def mem_ok_def)

lemma reachable_bounded: "reachable lay s0 s \<Longrightarrow> server_inv s0 \<Longrightarrow> mem_ok cf s0 \<Longrightarrow> mem_ok cf s"
proof (induction rule: reachable.induct)
  case (reach_turn s evs shutdown)
  then show ?case using loop_body_bounded reachable_inv by blast
qed (simp_all add: begin_run_def mem_ok_def)

lemma start_conns:
  assumes "kernel_ok k" "start (new_server cf d k) = (None, s)"
  shows "conns s = Map.empty" "cfg s = cf"
proof -
  have "conns s = Map.empty \<and> cfg s = cf"
    using assms(2)
  proof (cases rule: start_succeeds)
    case (1 lfd k1 ok s1 E L s2 L')
    have "conns s2 = Map.empty" using listening_descr(2) [OF assms(1) refl 1(5,1,2,3)] .
    moreover have "conns s = conns s2" using bound_port_steady [of s2] 1(4) by (simp add: steady_def)
    moreover have "cfg s1 = cf" using 1(2) by (auto simp: reopen_spare_fd_def new_server_def split: if_splits prod.splits)
    then have "cfg s2 = cf" using 1(3) by (auto simp: register_def split: prod.splits)
    moreover have "cfg s = cfg s2" using 1(4) by (simp add: bound_port_def split: prod.split)
    ultimately show ?thesis by simp
  qed
  then show "conns s = Map.empty" "cfg s = cf" by blast+
qed

subsection \<open>After a protocol error\<close>

text \<open>A line that is no array header is not consumed, whatever follows it.\<close>

definition bad_header :: bytes where
  "bad_header = ''*x'' @ CRLF"

definition bad_reply :: bytes where
  "bad_reply = encode_reply (RError ''ERR Protocol error: invalid multibulk length'')"

lemma bad_header_stuck:
  "drain (new_parser default_limits) (bad_header @ q) =
     ([], ParseError ''Protocol error: invalid multibulk length'', new_parser default_limits, bad_header @ q)"
proof -
  have f: "find_crlf (bad_header @ q) = Some 2" by (simp add: find_crlf_eq_crlf_pos bad_header_def)
  have "string_to_int64 ''x'' = None" by code_simp
  then have c: "parse_case (new_parser default_limits) (bad_header @ q) =
      (Some (ParseError ''Protocol error: invalid multibulk length''), new_parser default_limits, None)"
    using f by (simp add: parse_case_def parse_start_def new_parser_def bad_header_def fail_def parser_reset_def)
  then have "parse_bytes (new_parser default_limits) (bad_header @ q) =
      (ParseError ''Protocol error: invalid multibulk length'', new_parser default_limits, bad_header @ q)"
    by (simp add: parse_bytes.simps [of "new_parser default_limits"])
  then show ?thesis by (simp add: drain.simps [of "new_parser default_limits"])
qed

text \<open>
  The connection in question: the error has been answered, the answer waits for a socket that is
  full, and the line that caused it is still at the head of the input.
\<close>

definition stuck :: "int \<Rightarrow> server \<Rightarrow> bytes \<Rightarrow> bytes \<Rightarrow> bool" where
  "stuck fd s input out \<longleftrightarrow> server_inv s \<and>
     (\<exists>c. conns s fd = Some c \<and> close_after_write c \<and> conn_parser c = new_parser default_limits \<and>
        buf_contents (conn_in c) = bad_header @ input \<and> buf_contents (conn_out c) = out)"

lemma stuck_event:
  assumes "stuck fd s input out" "bs \<noteq> []" "length bs \<le> kReadChunk"
  shows "stuck fd (client_step fd s (Chunk bs False [])) (input @ bs) (out @ bad_reply)"
proof -
  let ?s = "set_sends [] s" let ?s' = "on_conn_event ?s fd True False (ReadBytes bs)"
  let ?e = "''Protocol error: invalid multibulk length''"
  obtain c where c: "server_inv ?s" "conns ?s fd = Some c" "close_after_write c" "conn_parser c = new_parser default_limits"
    "buf_contents (conn_in c) = bad_header @ input" "buf_contents (conn_out c) = out" "sends (kern ?s) = []"
    using assms(1) set_sends_inv by (auto simp: stuck_def set_sends_def)
  note rest = at_rest [OF c(1,2)]
  define b where "b = commit (write_at (ensure_writable (conn_in c) kReadChunk) bs) (length bs)"
  let ?c = "c\<lparr>conn_in := b\<rparr>"
  have ih: "in_hand fd ?s ?c" and cb: "buf_contents b = bad_header @ input @ bs"
    using read_in_hand [OF rest(1) refl refl, of bs] assms(3) c(5) by (simp_all add: b_def)
  have dr: "drain (conn_parser ?c) (buf_contents (conn_in ?c)) = ([], ParseError ?e, new_parser default_limits, bad_header @ input @ bs)"
    using bad_header_stuck [of "input @ bs"] c(4) cb by simp
  have armed: "write_armed c" "buf_ok (conn_out c)" "out \<noteq> []"
    using rest c(3,6) by (auto simp: conn_here_def conn_ok_def conn_mid_def buf_empty_iff)
  obtain p b' L where il: "input_loop ?s ?c = (Some (c\<lparr>conn_parser := p, conn_in := b',
       conn_out := write_reply (conn_out c) (RError (''ERR '' @ ?e)), close_after_write := True\<rparr>), ?s\<lparr>kern := (kern ?s)\<lparr>klog := L\<rparr>\<rparr>)"
      "p = new_parser default_limits" "buf_contents b' = bad_header @ input @ bs"
  proof -
    obtain st p b' where pr: "parse (conn_parser ?c) (conn_in ?c) = (st, p, b')" by (metis prod_cases3)
    have "st = ParseError ?e" "p = new_parser default_limits" "buf_contents b' = bad_header @ input @ bs"
      using drain_parse [OF ih pr dr] by (simp_all split: parse_status.splits)
    then show thesis using that pr by (simp add: input_loop.simps [of ?s ?c])
  qed
  let ?ci = "c\<lparr>conn_parser := p, conn_in := b', conn_out := write_reply (conn_out c) (RError (''ERR '' @ ?e)), close_after_write := True\<rparr>"
  have out: "buf_contents (conn_out ?ci) = out @ bad_reply"
    using contents_write_reply [OF armed(2), of "RError (''ERR '' @ ?e)"] c(6) by (simp add: bad_reply_def)
  let ?t = "?s\<lparr>kern := (kern ?s)\<lparr>klog := L\<rparr>\<rparr>"
  have hi: "in_hand fd ?t ?ci" using input_loop_left [OF ih] il(1) by simp
  then have "\<not> buf_empty (conn_out ?ci)" using out armed(3) by (simp add: buf_empty_iff in_hand_def conn_mid_def)
  then have fl: "flush_output ?t ?ci = (Some ?ci, ?t)"
    using armed(1) c(7) by (simp add: flush_output_def send_loop.simps [of "[]"] Let_def)
  have e1: "(if True then handle_read ?s c (ReadBytes bs) else (Some c, ?s)) = (Some ?ci, ?t)"
    using assms(2,3) il(1) fl by (simp add: handle_read_bytes process_input_def b_def)
  have e2: "(if False \<and> \<not> buf_empty (conn_out ?ci) then flush_output ?t ?ci else (Some ?ci, ?t)) = (Some ?ci, ?t)" by simp
  have "?s' = ?t\<lparr>conns := (conns ?t)(fd \<mapsto> ?ci)\<rparr>" using on_conn_event_steps(4) [OF c(1,2) e1 refl e2] by simp
  moreover have "server_inv ?s'" using on_conn_event_inv(1) [OF c(1)] .
  ultimately show ?thesis using il(2,3) out by (simp add: stuck_def)
qed

lemma stuck_events:
  "stuck fd s input out \<Longrightarrow> \<forall>bs \<in> set chunks. bs \<noteq> [] \<and> length bs \<le> kReadChunk \<Longrightarrow>
   stuck fd (foldl (client_step fd) s (map (\<lambda>bs. Chunk bs False []) chunks)) (input @ concat chunks)
     (out @ concat (replicate (length chunks) bad_reply))"
proof (induction chunks arbitrary: s input out)
  case (Cons bs chunks)
  have "stuck fd (client_step fd s (Chunk bs False [])) (input @ bs) (out @ bad_reply)"
    using stuck_event [OF Cons.prems(1)] Cons.prems(2) by simp
  from Cons.IH [OF this] show ?case using Cons.prems(2) by simp
qed simp

end
