(* ===== verification/Serial.thy ===== *)
theory Serial
  imports End_To_End Memory "HOL-Library.Sublist"
begin

text \<open>
  The server as a serial machine. The abstract server has no sockets, no buffers, no readiness
  events and no partial reads or writes: clients connect, input arrives, one whole request of one
  client is executed against the store, or is found to be malformed, at a time; the expiry cycle
  runs; a client goes. Every state the real server reaches, whatever the clients send and whatever
  the kernel does, is reached by the abstract one with such a sequence of actions.
\<close>

subsection \<open>The abstract server\<close>

text \<open>
  A session: all that was received, the part of it no request has been taken from yet, the requests
  executed, all that was answered, whether the server means to end it, and whether it goes on.
\<close>

record session =
  s_given :: bytes
  s_rest :: bytes
  s_ran :: "bytes list list"
  s_sent :: bytes
  s_leaving :: bool
  s_live :: bool

definition new_session :: session where
  "new_session = \<lparr>s_given = [], s_rest = [], s_ran = [], s_sent = [], s_leaving = False, s_live = True\<rparr>"

record serial =
  s_store :: db
  s_sessions :: "int \<rightharpoonup> session"

datatype action =
    Connect int
  | Deliver int bytes
  | Serve int "bytes list"
  | Refuse int bytes
  | Hangup int
  | Sweep

text \<open>The next request at the head of the input; its framing remembers nothing of earlier ones.\<close>

definition next_request :: "bytes \<Rightarrow> parse_status \<times> bytes" where
  "next_request r = (let (st, p, r') = parse_bytes (new_parser default_limits) r in (st, r'))"

definition ongoing :: "serial \<Rightarrow> int \<Rightarrow> session option" where
  "ongoing a fd = (case s_sessions a fd of Some ses \<Rightarrow> if s_live ses then Some ses else None | None \<Rightarrow> None)"

definition put_session :: "int \<Rightarrow> session \<Rightarrow> serial \<Rightarrow> serial" where
  "put_session fd ses a = a\<lparr>s_sessions := (s_sessions a)(fd \<mapsto> ses)\<rparr>"

text \<open>One action; \<open>None\<close> when it is not possible.\<close>

fun enact :: "(nat \<Rightarrow> key fset \<Rightarrow> key list list) \<Rightarrow> nat \<Rightarrow> action \<Rightarrow> serial \<Rightarrow> serial option" where
  "enact lay n (Connect fd) a = (if ongoing a fd = None then Some (put_session fd new_session a) else None)"
| "enact lay n (Deliver fd bs) a =
     map_option (\<lambda>ses. put_session fd (ses\<lparr>s_given := s_given ses @ bs, s_rest := s_rest ses @ bs\<rparr>) a) (ongoing a fd)"
| "enact lay n (Serve fd argv) a =
     (case ongoing a fd of
        None \<Rightarrow> None
      | Some ses \<Rightarrow>
          let (st, r) = next_request (s_rest ses); (bs, d, quit) = exec [argv] (s_store a) in
          if st = Complete argv
          then Some (put_session fd (ses\<lparr>s_rest := r, s_ran := s_ran ses @ [argv], s_sent := s_sent ses @ bs,
                                  s_leaving := s_leaving ses \<or> quit\<rparr>) (a\<lparr>s_store := d\<rparr>))
          else None)"
| "enact lay n (Refuse fd e) a =
     (case ongoing a fd of
        None \<Rightarrow> None
      | Some ses \<Rightarrow>
          let (st, r) = next_request (s_rest ses) in
          if st = ParseError e
          then Some (put_session fd (ses\<lparr>s_rest := r, s_sent := s_sent ses @ raw_reply (RError (''ERR '' @ e)), s_leaving := True\<rparr>) a)
          else None)"
| "enact lay n (Hangup fd) a = map_option (\<lambda>ses. put_session fd (ses\<lparr>s_live := False\<rparr>) a) (ongoing a fd)"
| "enact lay n Sweep a = Some (a\<lparr>s_store := snd (active_expire_cycle lay n (s_store a))\<rparr>)"

fun enacts :: "(nat \<Rightarrow> key fset \<Rightarrow> key list list) \<Rightarrow> nat \<Rightarrow> action list \<Rightarrow> serial \<Rightarrow> serial option" where
  "enacts lay n [] a = Some a"
| "enacts lay n (x # xs) a = (case enact lay n x a of None \<Rightarrow> None | Some b \<Rightarrow> enacts lay n xs b)"

definition idle_serial :: "db \<Rightarrow> serial" where
  "idle_serial d = \<lparr>s_store = d, s_sessions = Map.empty\<rparr>"

definition deliveries :: "action list \<Rightarrow> (int \<times> bytes) list" where
  "deliveries xs = concat (map (\<lambda>x. case x of Deliver fd bs \<Rightarrow> [(fd, bs)] | _ \<Rightarrow> []) xs)"

lemma deliveries_simps [simp]:
  "deliveries [] = []" "deliveries (Deliver fd bs # xs) = (fd, bs) # deliveries xs" "deliveries (xs @ ys) = deliveries xs @ deliveries ys"
  "deliveries (Connect fd # xs) = deliveries xs" "deliveries (Serve fd argv # xs) = deliveries xs"
  "deliveries (Refuse fd e # xs) = deliveries xs" "deliveries (Hangup fd # xs) = deliveries xs" "deliveries (Sweep # xs) = deliveries xs"
  by (simp_all add: deliveries_def)

lemma enacts_append: "enacts lay n (xs @ ys) a = (case enacts lay n xs a of None \<Rightarrow> None | Some b \<Rightarrow> enacts lay n ys b)"
  by (induction xs arbitrary: a) (auto split: option.split)

lemma put_fields [simp]:
  "s_store (put_session fd ses a) = s_store a" "s_sessions (put_session fd ses a) = (s_sessions a)(fd \<mapsto> ses)"
  by (simp_all add: put_session_def)

lemma ongoing_iff: "ongoing a fd = Some ses \<longleftrightarrow> s_sessions a fd = Some ses \<and> s_live ses"
  by (auto simp: ongoing_def split: option.split)

text \<open>
  In the abstract server the requests a session has executed are the first ones of all its input,
  framed in one go, as long as the input was well-formed.
\<close>

definition in_order :: "session \<Rightarrow> bool" where
  "in_order ses \<longleftrightarrow> (\<forall>q. drain (new_parser default_limits) (s_given ses @ q) =
     (case drain (new_parser default_limits) (s_rest ses @ q) of (cs, fin) \<Rightarrow> (s_ran ses @ cs, fin)))"

definition all_in_order :: "serial \<Rightarrow> bool" where
  "all_in_order a \<longleftrightarrow> (\<forall>fd ses. s_sessions a fd = Some ses \<longrightarrow> s_leaving ses \<or> in_order ses)"

lemma parse_bytes_boundary:
  "parse_bytes p r = (st, p', r') \<Longrightarrow> st \<noteq> Incomplete \<Longrightarrow> p' = new_parser (limits p)"
proof (induction p r rule: parse_bytes.induct)
  case (1 p r)
  show ?case
  proof (cases rule: parse_bytes_cases [of p r])
    case (1 st1 p1 k)
    then show ?thesis using "1.prems"
      by (auto simp: parse_case_defs parser_reset_def new_parser_def split: if_splits option.splits parser_state.splits)
  next
    case (2 p1 k)
    then show ?thesis using "1.IH" [OF 2(1) [symmetric] refl refl] "1.prems" parse_case_limits [OF 2(1)] by simp
  qed
qed

lemma new_parser_limits [simp]: "limits (new_parser l) = l"
  by (simp add: new_parser_def)

lemma in_order_fields [simp]:
  "in_order (ses\<lparr>s_sent := bs\<rparr>) = in_order ses" "in_order (ses\<lparr>s_leaving := q\<rparr>) = in_order ses" "in_order (ses\<lparr>s_live := l\<rparr>) = in_order ses"
  by (simp_all add: in_order_def)

lemma put_in_order: "all_in_order a \<Longrightarrow> s_leaving ses \<or> in_order ses \<Longrightarrow> all_in_order (put_session fd ses a)"
  by (auto simp: all_in_order_def)

lemma store_in_order [simp]: "all_in_order (a\<lparr>s_store := d\<rparr>) = all_in_order a"
  by (simp add: all_in_order_def)

lemma enact_in_order:
  assumes "all_in_order a" "enact lay n x a = Some b" shows "all_in_order b"
proof -
  have served: "in_order (ses\<lparr>s_rest := r, s_ran := s_ran ses @ [argv]\<rparr>)"
    if "in_order ses" "next_request (s_rest ses) = (Complete argv, r)" for ses r argv
  proof -
    have "parse_bytes (new_parser default_limits) (s_rest ses) = (Complete argv, new_parser default_limits, r)"
      using that(2) parse_bytes_boundary [of "new_parser default_limits" "s_rest ses"] by (auto simp: next_request_def split: prod.splits)
    from drain_Complete [OF parse_bytes_complete_append [OF this]] show ?thesis
      using that(1) by (simp add: in_order_def split: prod.split)
  qed
  have known: "s_leaving ses \<or> in_order ses" if "ongoing a fd = Some ses" for fd ses
    using assms(1) that by (auto simp: all_in_order_def ongoing_iff)
  have "in_order new_session" by (simp add: in_order_def new_session_def)
  moreover have "in_order (ses\<lparr>s_given := s_given ses @ bs, s_rest := s_rest ses @ bs\<rparr>)" if "in_order ses" for ses bs
    using that by (simp add: in_order_def)
  ultimately show ?thesis using assms served
    by (cases x) (auto simp: Let_def split: if_splits option.splits prod.splits intro!: put_in_order dest: known)
qed

lemma enacts_in_order: "all_in_order a \<Longrightarrow> enacts lay n xs a = Some b \<Longrightarrow> all_in_order b"
  by (induction xs arbitrary: a) (auto split: option.splits intro: enact_in_order)

subsection \<open>How the server follows it\<close>

text \<open>
  The parser is somewhere in a request whose beginning it has consumed, where the abstract session
  still holds the request whole; whatever comes, both will read the same.
\<close>

definition follows :: "bytes \<Rightarrow> session \<Rightarrow> conn \<Rightarrow> bool" where
  "follows w ses c \<longleftrightarrow> s_live ses \<and> s_leaving ses = close_after_write c \<and> s_sent ses = w @ buf_contents (conn_out c) \<and>
     (\<forall>q. parse_bytes (new_parser default_limits) (s_rest ses @ q) = parse_bytes (conn_parser c) (buf_contents (conn_in c) @ q))"

text \<open>Between the events no request is left that could be executed.\<close>

definition settled :: "conn \<Rightarrow> bool" where
  "settled c \<longleftrightarrow> close_after_write c \<or> fst (parse_bytes (conn_parser c) (buf_contents (conn_in c))) = Incomplete"

definition over :: "bytes \<Rightarrow> session option \<Rightarrow> bool" where
  "over w os \<longleftrightarrow> (case os of None \<Rightarrow> True | Some ses \<Rightarrow> \<not> s_live ses \<and> prefix w (s_sent ses))"

definition tracked :: "serial \<Rightarrow> server \<Rightarrow> int \<Rightarrow> bool" where
  "tracked a s fd \<longleftrightarrow>
     (case conns s fd of
        None \<Rightarrow> over (wire (kern s) fd) (s_sessions a fd)
      | Some c \<Rightarrow> (\<exists>ses. s_sessions a fd = Some ses \<and> follows (wire (kern s) fd) ses c \<and> settled c))"

definition tracks :: "serial \<Rightarrow> server \<Rightarrow> bool" where
  "tracks a s \<longleftrightarrow> s_store a = sdb s \<and> (\<forall>fd. tracked a s fd)"

text \<open>In the middle of an event of \<open>fd\<close>, with its connection in hand.\<close>

definition tracks_but :: "int \<Rightarrow> serial \<Rightarrow> server \<Rightarrow> conn \<Rightarrow> bool" where
  "tracks_but fd a s c \<longleftrightarrow> s_store a = sdb s \<and> (\<forall>f. f \<noteq> fd \<longrightarrow> tracked a s f) \<and>
     (\<exists>ses. s_sessions a fd = Some ses \<and> follows (wire (kern s) fd) ses c)"

lemma tracked_cong:
  "tracked a s f \<Longrightarrow> conns s' f = conns s f \<Longrightarrow> wire (kern s') f = wire (kern s) f \<Longrightarrow> s_sessions a' f = s_sessions a f \<Longrightarrow>
   tracked a' s' f"
  by (simp add: tracked_def split: option.splits)

lemma tracked_cases:
  "tracked a s fd \<Longrightarrow> conns s fd = None \<Longrightarrow> over (wire (kern s) fd) (s_sessions a fd)"
  "tracked a s fd \<Longrightarrow> conns s fd = Some c \<Longrightarrow> \<exists>ses. s_sessions a fd = Some ses \<and> follows (wire (kern s) fd) ses c \<and> settled c"
  by (simp_all add: tracked_def)

lemma tracked_same: "conns s' = conns s \<Longrightarrow> wire (kern s') = wire (kern s) \<Longrightarrow> tracked a s' f = tracked a s f"
  by (simp add: tracked_def split: option.split)

lemma tracks_same:
  assumes "conns s' = conns s" "wire (kern s') = wire (kern s)" "sdb s' = sdb s"
  shows "tracks a s' = tracks a s" "tracks_but fd a s' c = tracks_but fd a s c"
  using tracked_same [OF assms(1,2)] assms by (simp_all add: tracks_def tracks_but_def)

text \<open>The abstract server gets, over the input \<open>R\<close>, to a state with property \<open>P\<close>.\<close>

definition leads ::
  "(nat \<Rightarrow> key fset \<Rightarrow> key list list) \<Rightarrow> nat \<Rightarrow> serial \<Rightarrow> (int \<times> bytes) list \<Rightarrow> (serial \<Rightarrow> bool) \<Rightarrow> bool" where
  "leads lay n a R P \<longleftrightarrow> (\<exists>xs b. enacts lay n xs a = Some b \<and> deliveries xs = R \<and> P b)"

lemma leads_refl: "P a \<Longrightarrow> leads lay n a [] P"
  unfolding leads_def by (intro exI [of _ "[]"] exI [of _ a]) simp

lemma leads_step: "enact lay n x a = Some b \<Longrightarrow> leads lay n b R P \<Longrightarrow> leads lay n a (deliveries [x] @ R) P"
  unfolding leads_def
  by (elim exE) (rule exI [of _ "x # _"], auto simp: deliveries_def)

lemma leads_trans:
  assumes "leads lay n a R P" "\<And>b. P b \<Longrightarrow> leads lay n b R' Q" shows "leads lay n a (R @ R') Q"
proof -
  obtain xs b where x: "enacts lay n xs a = Some b" "deliveries xs = R" "P b" using assms(1) by (auto simp: leads_def)
  obtain ys b' where y: "enacts lay n ys b = Some b'" "deliveries ys = R'" "Q b'" using assms(2) [OF x(3)] by (auto simp: leads_def)
  show ?thesis unfolding leads_def using x y by (intro exI [of _ "xs @ ys"] exI [of _ b']) (simp add: enacts_append)
qed

lemma leads_mono: "leads lay n a R P \<Longrightarrow> (\<And>b. P b \<Longrightarrow> Q b) \<Longrightarrow> leads lay n a R Q"
  by (auto simp: leads_def)

lemma leads_silent: "enact lay n x a = Some b \<Longrightarrow> leads lay n b R P \<Longrightarrow> deliveries [x] = [] \<Longrightarrow> leads lay n a R P"
  using leads_step [of lay n x a b R P] by simp

subsection \<open>Every step has its actions\<close>

lemma hangup_leads:
  assumes "tracks_but fd a s c" "conns s' = (conns s)(fd := None)" "sdb s' = sdb s"
    "\<And>f. f \<noteq> fd \<Longrightarrow> wire (kern s') f = wire (kern s) f"
    "prefix (wire (kern s') fd) (wire (kern s) fd @ buf_contents (conn_out c))"
  shows "leads lay n a [] (\<lambda>b. tracks b s')"
proof -
  obtain ses where ses: "s_sessions a fd = Some ses" "follows (wire (kern s) fd) ses c"
    using assms(1) by (auto simp: tracks_but_def)
  let ?b = "put_session fd (ses\<lparr>s_live := False\<rparr>) a"
  have "enact lay n (Hangup fd) a = Some ?b" using ses by (simp add: follows_def ongoing_def)
  moreover have "tracked ?b s' f" for f
  proof (cases "f = fd")
    case True
    then show ?thesis using assms(2,5) ses(2) by (simp add: tracked_def over_def follows_def)
  next
    case False
    then have "tracked a s f" using assms(1) by (simp add: tracks_but_def)
    then show ?thesis by (rule tracked_cong) (simp_all add: False assms(2,4))
  qed
  then have "tracks ?b s'" using assms(1,3) by (simp add: tracks_def tracks_but_def)
  then have "leads lay n ?b [] (\<lambda>b. tracks b s')" by (rule leads_refl)
  ultimately show ?thesis by (rule leads_silent) simp
qed

lemma close_leads:
  assumes "tracks_but fd a s c" "in_hand fd s c" "conn_fd c' = fd"
  shows "leads lay n a [] (\<lambda>b. tracks b (close_conn s c' why))"
proof -
  have "inv_but {fd} s" "conns s fd \<noteq> None" using assms(2) by (simp_all add: in_hand_def)
  note f = close_conn_facts [OF this assms(3), of why]
  show ?thesis using assms(1) f(2,3) by (rule hangup_leads) (simp_all add: f(5))
qed

lemma flush_prefix:
  assumes "in_hand fd s c" "flush_output s c = (oc, s')"
  shows "prefix (wire (kern s') fd) (wire (kern s) fd @ buf_contents (conn_out c))"
proof -
  obtain ok os out w where l: "send_loop (sends (kern s)) (conn_out c) (wire (kern s) fd) = (ok, os, out, w)"
    by (metis prod_cases4)
  have fd: "conn_fd c = fd" using assms(1) by (simp add: in_hand_def)
  have "wire (kern s') fd = w"
    using assms(2) l fd by (auto simp: flush_output_def arm_write_def close_conn_wire Let_def split: prod.splits if_splits)
  then show ?thesis using after_sends(5) [OF assms(1) l refl refl] by (metis prefixI)
qed

text \<open>What an event leaves, as seen from the abstract server.\<close>

fun leaves :: "int \<Rightarrow> conn option \<times> server \<Rightarrow> serial \<Rightarrow> bool" where
  "leaves fd (None, s) a \<longleftrightarrow> tracks a s"
| "leaves fd (Some c, s) a \<longleftrightarrow> tracks_but fd a s c \<and> settled c"

lemma flush_leads:
  assumes "tracks_but fd a s c" "in_hand fd s c" "settled c" "flush_output s c = (oc, s')"
  shows "leads lay n a [] (leaves fd (oc, s'))"
proof -
  have fd: "conn_fd c = fd" using assms(2) by (simp add: in_hand_def)
  note fl = flush_output_left [OF assms(2,4)]
  have w: "f \<noteq> fd \<Longrightarrow> wire (kern s') f = wire (kern s) f" for f using flush_output_wire(1) [OF assms(4)] fd by simp
  show ?thesis
  proof (cases oc)
    case None
    then have "leads lay n a [] (\<lambda>b. tracks b s')"
      using fl(1) assms(1) by (intro hangup_leads [OF assms(1) _ fl(2) w flush_prefix [OF assms(2,4)]]) simp_all
    then show ?thesis using None by (simp add: leads_def)
  next
    case (Some c')
    have cs: "conns s' = conns s" using fl(1) Some by simp
    have "tracked a s' f" if "f \<noteq> fd" for f
    proof -
      have "tracked a s f" using assms(1) that by (simp add: tracks_but_def)
      then show ?thesis by (rule tracked_cong) (simp_all add: that cs w)
    qed
    then have "tracks_but fd a s' c'"
      using assms(1) fl(2) fl(3) [OF Some] by (auto simp: tracks_but_def follows_def)
    moreover have "settled c'" using fl(3) [OF Some] assms(3) by (simp add: settled_def)
    ultimately show ?thesis using Some by (simp add: leads_refl)
  qed
qed

text \<open>The session moves on with its connection; the others are as they were.\<close>

lemma tracks_but_put:
  assumes "tracks_but fd a s c" "follows (wire (kern s) fd) ses' c'" "conns s' = conns s" "wire (kern s') = wire (kern s)"
  shows "tracks_but fd (put_session fd ses' (a\<lparr>s_store := sdb s'\<rparr>)) s' c'"
proof -
  have "tracked (put_session fd ses' (a\<lparr>s_store := sdb s'\<rparr>)) s' f" if "f \<noteq> fd" for f
  proof -
    have "tracked a s f" using assms(1) that by (simp add: tracks_but_def)
    then show ?thesis by (rule tracked_cong) (simp_all add: that assms(3,4))
  qed
  then show ?thesis using assms(2,4) by (simp add: tracks_but_def)
qed

lemma follows_request:
  assumes "follows w ses c" "in_hand fd s c" "parse (conn_parser c) (conn_in c) = (st, p, b)"
  shows "next_request (s_rest ses) = (st, buf_contents b)"
    "st = Incomplete \<Longrightarrow> follows w ses (c\<lparr>conn_parser := p, conn_in := b\<rparr>) \<and> settled (c\<lparr>conn_parser := p, conn_in := b\<rparr>)"
    "st \<noteq> Incomplete \<Longrightarrow> p = new_parser default_limits"
proof -
  note ph = parse_in_hand [OF assms(2,3)]
  have sm: "parse_bytes (new_parser default_limits) (s_rest ses @ q) = parse_bytes (conn_parser c) (buf_contents (conn_in c) @ q)" for q
    using assms(1) by (simp add: follows_def)
  have r: "parse_bytes (new_parser default_limits) (s_rest ses) = (st, p, buf_contents b)"
    using sm [of "[]"] ph(4) by simp
  then show "next_request (s_rest ses) = (st, buf_contents b)" by (simp add: next_request_def)
  show "st \<noteq> Incomplete \<Longrightarrow> p = new_parser default_limits" using parse_bytes_boundary [OF r] by simp
  show "follows w ses (c\<lparr>conn_parser := p, conn_in := b\<rparr>) \<and> settled (c\<lparr>conn_parser := p, conn_in := b\<rparr>)" if "st = Incomplete"
    using assms(1) sm parse_bytes_incomplete_append [OF ph(4) [unfolded that]] parse_bytes_incomplete_idem [OF ph(4) [unfolded that]]
    by (simp add: follows_def settled_def)
qed

text \<open>A request is executed: in the server with its output buffer, in the abstract one by itself.\<close>

lemma serve_leads:
  assumes "tracks_but fd a s c" "in_hand fd s c" "parse (conn_parser c) (conn_in c) = (Complete argv, p, b)"
    "exec [argv] (sdb s) = (bs, d, q)" "buf_contents out = buf_contents (conn_out c) @ bs"
    "c' = c\<lparr>conn_parser := p, conn_in := b, conn_out := out, close_after_write := close_after_write c \<or> q\<rparr>"
    "s' = s\<lparr>sdb := d, kern := (kern s)\<lparr>klog := L\<rparr>\<rparr>" "\<And>b. tracks_but fd b s' c' \<Longrightarrow> leads lay n b [] P"
  shows "leads lay n a [] P"
proof -
  obtain ses where ses: "s_sessions a fd = Some ses" "follows (wire (kern s) fd) ses c" "s_store a = sdb s"
    using assms(1) by (auto simp: tracks_but_def)
  note fr = follows_request [OF ses(2) assms(2,3)]
  let ?ses = "ses\<lparr>s_rest := buf_contents b, s_ran := s_ran ses @ [argv], s_sent := s_sent ses @ bs, s_leaving := s_leaving ses \<or> q\<rparr>"
  have "enact lay n (Serve fd argv) a = Some (put_session fd ?ses (a\<lparr>s_store := d\<rparr>))"
    using ses assms(4) fr(1) by (simp add: ongoing_def follows_def del: exec.simps)
  moreover have "follows (wire (kern s) fd) ?ses c'"
    using ses(2) assms(5,6) fr(3) by (simp add: follows_def)
  from tracks_but_put [OF assms(1) this, of s'] have "leads lay n (put_session fd ?ses (a\<lparr>s_store := d\<rparr>)) [] P"
    using assms(7,8) by simp
  ultimately show ?thesis by (rule leads_silent) simp
qed

lemma refuse_leads:
  assumes "tracks_but fd a s c" "in_hand fd s c" "parse (conn_parser c) (conn_in c) = (ParseError e, p, b)"
    "c' = c\<lparr>conn_parser := p, conn_in := b, conn_out := write_reply (conn_out c) (RError (''ERR '' @ e)), close_after_write := True\<rparr>"
    "s' = s\<lparr>kern := (kern s)\<lparr>klog := L\<rparr>\<rparr>"
  shows "leads lay n a [] (leaves fd (Some c', s'))"
proof -
  obtain ses where ses: "s_sessions a fd = Some ses" "follows (wire (kern s) fd) ses c" "s_store a = sdb s"
    using assms(1) by (auto simp: tracks_but_def)
  note fr = follows_request [OF ses(2) assms(2,3)]
  let ?ses = "ses\<lparr>s_rest := buf_contents b, s_sent := s_sent ses @ raw_reply (RError (''ERR '' @ e)), s_leaving := True\<rparr>"
  have "enact lay n (Refuse fd e) a = Some (put_session fd ?ses (a\<lparr>s_store := sdb s'\<rparr>))"
    using ses fr(1) assms(5) by (simp add: ongoing_def follows_def put_session_def)
  moreover have "follows (wire (kern s) fd) ?ses c'"
    using ses(2) fr(3) assms(4) contents_write_reply_raw [OF in_hand_db [OF assms(2), THEN conjunct2], of "RError (''ERR '' @ e)"]
    by (simp add: follows_def)
  from tracks_but_put [OF assms(1) this, of s'] have "leads lay n (put_session fd ?ses (a\<lparr>s_store := sdb s'\<rparr>)) [] (leaves fd (Some c', s'))"
    using assms(4,5) by (intro leads_refl) (simp add: settled_def)
  ultimately show ?thesis by (rule leads_silent) simp
qed

lemma exec_one:
  assumes "buf_ok out" "argv \<noteq> []" "x = dispatch (fresh_ctx argv out d)"
  obtains bs where "exec [argv] d = (bs, cdb x, close_after_reply x)" "buf_contents (cout x) = buf_contents out @ bs"
  using dispatch_output [OF assms(1), of argv d] assms(2,3) by (auto simp: Let_def)

lemma input_loop_leads:
  "in_hand fd s c \<Longrightarrow> tracks_but fd a s c \<Longrightarrow> leads lay n a [] (leaves fd (input_loop s c))"
proof (induction s c arbitrary: a rule: input_loop.induct)
  case (1 s c)
  note h = "1.prems"(1) and t = "1.prems"(2)
  have k: "s\<lparr>sdb := sdb s, kern := (kern s)\<lparr>klog := klog (kern s)\<rparr>\<rparr> = s" by simp
  have same: "c\<lparr>conn_parser := p, conn_in := b, conn_out := o'\<rparr> =
      c\<lparr>conn_parser := p, conn_in := b, conn_out := o', close_after_write := close_after_write c \<or> False\<rparr>" for p b o' by (cases c) simp
  have kx: "s\<lparr>sdb := d, kern := (kern s)\<lparr>klog := klog (kern s)\<rparr>\<rparr> = s\<lparr>sdb := d\<rparr>" for d by simp
  obtain ses where ses: "s_sessions a fd = Some ses" "follows (wire (kern s) fd) ses c" "s_store a = sdb s"
    using t by (auto simp: tracks_but_def)
  have ob: "buf_ok (conn_out c)" using in_hand_db [OF h] by blast
  from h show ?case
  proof (cases rule: input_loop_cases)
    case (waits p b)
    then show ?thesis
      using follows_request(2) [OF ses(2) h waits(1)] t ses(1) by (auto simp: tracks_but_def intro!: leads_refl)
  next
    case (breaks e p b L)
    show ?thesis unfolding breaks(2) by (rule refuse_leads [OF t h breaks(1) refl refl])
  next
    case (skips p b)
    let ?c = "c\<lparr>conn_parser := p, conn_in := b\<rparr>"
    have next_one: "leads lay n b [] (leaves fd (input_loop s ?c))" if "tracks_but fd b s ?c" for b
      using "1.IH"(1) [OF skips(1) [symmetric]] skips(3) that by simp
    have x: "exec [[]] (sdb s) = ([], sdb s, False)" "buf_contents (conn_out c) = buf_contents (conn_out c) @ []" by simp_all
    have "?c = c\<lparr>conn_parser := p, conn_in := b, conn_out := conn_out c\<rparr>" by (cases c) simp
    then show ?thesis unfolding skips(2) using next_one by (intro serve_leads [OF t h skips(1) x same k [symmetric]]) simp
  next
    case (quits argv p b x)
    obtain bs where e: "exec [argv] (sdb s) = (bs, cdb x, True)" "buf_contents (cout x) = buf_contents (conn_out c) @ bs"
      using exec_one [OF ob quits(2,3)] quits(4) by auto
    show ?thesis unfolding quits(5)
      by (rule serve_leads [OF t h quits(1) e refl kx [symmetric]]) (simp add: leads_refl settled_def)
  next
    case (overflows argv p b x L why)
    obtain bs where e: "exec [argv] (sdb s) = (bs, cdb x, False)" "buf_contents (cout x) = buf_contents (conn_out c) @ bs"
      using exec_one [OF ob overflows(2,3)] overflows(4) by auto
    let ?c = "c\<lparr>conn_parser := p, conn_in := b, conn_out := cout x\<rparr>" and ?s = "s\<lparr>sdb := cdb x, kern := (kern s)\<lparr>klog := L\<rparr>\<rparr>"
    have fd: "conn_fd c = fd" using h by (simp add: in_hand_def)
    have "leads lay n b [] (leaves fd (None, close_conn ?s c why))" if "tracks_but fd b ?s ?c" for b
      using close_leads [OF that overflows(7) fd] by (simp add: leads_def)
    then show ?thesis unfolding overflows(6) by (rule serve_leads [OF t h overflows(1) e same refl])
  next
    case (answers argv p b x)
    obtain bs where e: "exec [argv] (sdb s) = (bs, cdb x, False)" "buf_contents (cout x) = buf_contents (conn_out c) @ bs"
      using exec_one [OF ob answers(2,3)] answers(4) by auto
    let ?c = "c\<lparr>conn_parser := p, conn_in := b, conn_out := cout x\<rparr>"
    have "leads lay n b [] (leaves fd (input_loop (s\<lparr>sdb := cdb x\<rparr>) ?c))" if "tracks_but fd b (s\<lparr>sdb := cdb x\<rparr>) ?c" for b
      using "1.IH"(2) [OF answers(1) [symmetric] _ _ answers(2,3)] answers(4,5,7) that by simp
    then show ?thesis unfolding answers(6) by (rule serve_leads [OF t h answers(1) e same kx [symmetric]])
  qed
qed

lemma process_input_leads:
  assumes "in_hand fd s c" "tracks_but fd a s c" shows "leads lay n a [] (leaves fd (process_input s c))"
proof -
  obtain oc1 s1 where l: "input_loop s c = (oc1, s1)" by fastforce
  have one: "leads lay n a [] (leaves fd (oc1, s1))" using input_loop_leads [OF assms] l by simp
  show ?thesis
  proof (cases oc1)
    case None
    then show ?thesis using one l by (simp add: process_input_def)
  next
    case (Some c1)
    have "in_hand fd s1 c1" using input_loop_left [OF assms(1)] l Some by simp
    then have "leads lay n b [] (leaves fd (process_input s c))" if "leaves fd (oc1, s1) b" for b
      using flush_leads [of fd b s1 c1 "fst (flush_output s1 c1)" "snd (flush_output s1 c1)"] that l Some by (simp add: process_input_def)
    from leads_trans [OF one this] show ?thesis by simp
  qed
qed

text \<open>What a read takes from the client.\<close>

fun read_in :: "int \<Rightarrow> read_outcome \<Rightarrow> (int \<times> bytes) list" where
  "read_in fd (ReadBytes bs) = (if bs = [] then [] else [(fd, take kReadChunk bs)])"
| "read_in fd r = []"

lemma deliver_leads:
  assumes "tracks_but fd a s c" "buf_contents b = buf_contents (conn_in c) @ bs" "\<And>b'. tracks_but fd b' s (c\<lparr>conn_in := b\<rparr>) \<Longrightarrow> leads lay n b' R P"
  shows "leads lay n a ((fd, bs) # R) P"
proof -
  obtain ses where ses: "s_sessions a fd = Some ses" "follows (wire (kern s) fd) ses c" "s_store a = sdb s"
    using assms(1) by (auto simp: tracks_but_def)
  let ?ses = "ses\<lparr>s_given := s_given ses @ bs, s_rest := s_rest ses @ bs\<rparr>"
  have "enact lay n (Deliver fd bs) a = Some (put_session fd ?ses (a\<lparr>s_store := sdb s\<rparr>))"
    using ses by (simp add: ongoing_def follows_def put_session_def)
  moreover have "follows (wire (kern s) fd) ?ses (c\<lparr>conn_in := b\<rparr>)" using ses(2) assms(2) by (simp add: follows_def)
  from tracks_but_put [OF assms(1) this refl refl] have "leads lay n (put_session fd ?ses (a\<lparr>s_store := sdb s\<rparr>)) R P" by (rule assms(3))
  ultimately show ?thesis using leads_step by fastforce
qed

lemma handle_read_leads:
  assumes "in_hand fd s c" "tracks_but fd a s c" "settled c"
  shows "leads lay n a (read_in fd r) (leaves fd (handle_read s c r))"
proof -
  have fd: "conn_fd c = fd" using assms(1) by (simp add: in_hand_def)
  let ?c = "c\<lparr>conn_in := ensure_writable (conn_in c) kReadChunk\<rparr>"
  have b: "buf_contents (conn_in ?c) = buf_contents (conn_in c)" using assms(1) by (simp add: in_hand_def conn_mid_def)
  have stay: "leads lay n a [] (leaves fd (Some ?c, s))"
    using assms(2,3) b by (intro leads_refl) (auto simp: tracks_but_def follows_def settled_def)
  have cl: "leads lay n a [] (leaves fd (None, close_conn s ?c why))" for why
    using close_leads [OF assms(2,1), of ?c] fd by (simp add: leads_def)
  show ?thesis
  proof (cases r)
    case (ReadBytes bs)
    note rd = read_in_hand [OF assms(1) refl refl, of bs]
    show ?thesis
      using cl process_input_leads [OF rd(1)] deliver_leads [OF assms(2) rd(2), of lay n "[]"] ReadBytes by (auto simp: handle_read_bytes)
  next
    case ReadFail
    let ?s = "\<lambda>E. s\<lparr>kern := (kern s)\<lparr>errnos := E\<rparr>\<rparr>"
    have "in_hand fd (?s E) c" "tracks_but fd a (?s E) c" for E
      using assms(1,2) tracks_same(2) [of "?s E" s] by simp_all
    from close_leads [OF this(2,1), of ?c] show ?thesis using ReadFail fd by (auto simp: handle_read_def leads_def Let_def)
  qed (use stay in \<open>simp_all add: handle_read_def\<close>)
qed

lemma store_back_tracks:
  assumes "tracks_but fd a s c" "settled c" shows "tracks a (s\<lparr>conns := (conns s)(fd \<mapsto> c)\<rparr>)"
proof -
  have "tracked a (s\<lparr>conns := (conns s)(fd \<mapsto> c)\<rparr>) f" for f
  proof (cases "f = fd")
    case False
    then have "tracked a s f" using assms(1) by (simp add: tracks_but_def)
    then show ?thesis by (rule tracked_cong) (simp_all add: False)
  qed (use assms in \<open>auto simp: tracks_but_def tracked_def\<close>)
  then show ?thesis using assms(1) by (simp add: tracks_def tracks_but_def)
qed

lemma on_conn_event_leads:
  assumes "server_inv s" "tracks a s" "conns s fd = Some c"
  shows "leads lay n a (if rd then read_in fd r else []) (\<lambda>b. tracks b (on_conn_event s fd rd wr r))"
proof -
  note rest = at_rest [OF assms(1,3)]
  have "tracked a s fd" using assms(2) by (simp add: tracks_def)
  then have tc: "tracks_but fd a s c" "settled c" using tracked_cases(2) [OF _ assms(3)] assms(2) by (auto simp: tracks_def tracks_but_def)
  obtain oc1 s1 where e1: "(if rd then handle_read s c r else (Some c, s)) = (oc1, s1)" by fastforce
  note st = on_conn_event_steps [OF assms(1,3) e1]
  have one: "leads lay n a (if rd then read_in fd r else []) (leaves fd (oc1, s1))"
    using handle_read_leads [OF rest(1) tc, of lay n r] e1 tc leads_refl [of "leaves fd (Some c, s)" a] by (cases rd) auto
  have two: "leads lay n b [] (\<lambda>b. tracks b (on_conn_event s fd rd wr r))" if l: "leaves fd (oc1, s1) b" for b
  proof (cases oc1)
    case None
    then show ?thesis using l st(2) by (simp add: leads_refl)
  next
    case (Some c1)
    obtain oc2 s2 where e2: "(if wr \<and> \<not> buf_empty (conn_out c1) then flush_output s1 c1 else (Some c1, s1)) = (oc2, s2)" by fastforce
    have h: "in_hand fd s1 c1" "tracks_but fd b s1 c1" "settled c1" using st(1) Some l by auto
    have "leads lay n b [] (leaves fd (oc2, s2))"
      using flush_leads [OF h(2,1,3)] e2 h leads_refl [of "leaves fd (Some c1, s1)" b] by (auto split: if_splits)
    moreover have "tracks b' (on_conn_event s fd rd wr r)" if "leaves fd (oc2, s2) b'" for b'
      using st(4) [OF Some e2] that store_back_tracks [of fd b' s2] by (cases oc2) auto
    ultimately show ?thesis by (rule leads_mono)
  qed
  from leads_trans [OF one this] show ?thesis by simp
qed

subsection \<open>Batches and turns\<close>

text \<open>Clients that were accepted in one event connect one after the other.\<close>

lemma connects: 
  "distinct fds \<Longrightarrow> \<forall>fd \<in> set fds. ongoing a fd = None \<Longrightarrow>
   enacts lay n (map Connect fds) a = Some (a\<lparr>s_sessions := (\<lambda>f. if f \<in> set fds then Some new_session else s_sessions a f)\<rparr>)"
proof (induction fds arbitrary: a)
  case (Cons fd fds)
  have "\<forall>f \<in> set fds. ongoing (put_session fd new_session a) f = None" using Cons.prems by (auto simp: ongoing_def)
  from Cons.IH [OF _ this] show ?case using Cons.prems by (auto simp: put_session_def fun_eq_iff)
qed simp

lemma accept_leads:
  assumes "server_inv s" "server_inv s'" "tracks a s" "apart s s'"
  shows "leads lay n a [] (\<lambda>b. tracks b s')"
proof -
  let ?new = "{f. conns s f = None \<and> conns s' f \<noteq> None}"
  have "?new \<subseteq> fset (open_fds (kern s'))" using assms(2) by (auto simp: server_inv_def inv_defs)
  then have "finite ?new" by (rule finite_subset) simp
  then obtain fds where fds: "set fds = ?new" "distinct fds" using finite_distinct_list by blast
  let ?b = "a\<lparr>s_sessions := (\<lambda>f. if f \<in> set fds then Some new_session else s_sessions a f)\<rparr>"
  have gone: "over (wire (kern s) f) (s_sessions a f)" if "conns s f = None" for f
    using assms(3) that tracked_cases(1) by (auto simp: tracks_def)
  have "ongoing a f = None" if "f \<in> set fds" for f using gone [of f] that fds(1) by (auto simp: over_def ongoing_def split: option.splits)
  then have "\<forall>f \<in> set fds. ongoing a f = None" by blast
  then have "enacts lay n (map Connect fds) a = Some ?b" using connects fds(2) by blast
  moreover have "deliveries (map Connect fds) = []" by (simp add: deliveries_def)
  moreover have "tracked ?b s' f" for f
  proof (cases "conns s f")
    case None
    then consider "conns s' f = None" "wire (kern s') f = wire (kern s) f \<or> wire (kern s') f = []"
      | peer where "conns s' f = Some (new_conn f peer)" "wire (kern s') f = []"
      using assms(4) [unfolded apart_def, THEN conjunct2, THEN conjunct2, THEN spec, of f] by auto
    then show ?thesis
    proof cases
      case 1
      then show ?thesis using gone [OF None] fds(1) by (auto simp: tracked_def over_def split: option.splits)
    next
      case 2
      then show ?thesis using None fds(1)
        by (simp add: tracked_def follows_def settled_def new_session_def new_conn_def parse_bytes.simps [of _ "[]"]
            parse_case_def parse_start_def new_parser_def)
    qed
  next
    case (Some c)
    have "tracked a s f" using assms(3) by (simp add: tracks_def)
    moreover have "conns s' f = conns s f" "wire (kern s') f = wire (kern s) f" "f \<notin> set fds" using assms(4) Some fds(1) by (auto simp: apart_def)
    ultimately show ?thesis by (intro tracked_cong [OF \<open>tracked a s f\<close>]) simp_all
  qed
  then have "tracks ?b s'" using assms(3,4) by (simp add: tracks_def apart_def)
  ultimately show ?thesis unfolding leads_def by blast
qed

text \<open>What the reads of a batch take, in the order of the reads.\<close>

definition reads_of :: "server \<Rightarrow> poll_event \<times> read_outcome \<Rightarrow> (int \<times> bytes) list" where
  "reads_of s er =
     (let (ev, r) = er in
      if handlers (sloop s) (ev_fd ev) = Some ConnCb \<and> conns s (ev_fd ev) \<noteq> None \<and> ev_readable ev then read_in (ev_fd ev) r else [])"

fun batch_reads :: "server \<Rightarrow> (poll_event \<times> read_outcome) list \<Rightarrow> (int \<times> bytes) list" where
  "batch_reads s [] = []"
| "batch_reads s (e # es) = reads_of s e @ batch_reads (dispatch_event s e) es"

lemma dispatch_event_leads:
  assumes "server_inv s" "tracks a s"
  shows "leads lay n a (reads_of s er) (\<lambda>b. tracks b (dispatch_event s er))"
proof -
  obtain ev r where er: "er = (ev, r)" by fastforce
  let ?fd = "ev_fd ev"
  have i: "inv_but {} s" using assms(1) by (simp add: server_inv_def)
  have acc: "leads lay n a [] (\<lambda>b. tracks b (on_listener_readable s))"
    using accept_loop_apart [OF i] accept_loop_inv [OF i] assms
    by (intro accept_leads [OF assms(1)]) (simp_all add: on_listener_readable_def server_inv_def)
  have stay: "leads lay n a [] (\<lambda>b. tracks b s)" using assms(2) by (rule leads_refl)
  have conn: "leads lay n a (if conns s ?fd \<noteq> None \<and> ev_readable ev then read_in ?fd r else [])
      (\<lambda>b. tracks b (on_conn_event s ?fd (ev_readable ev) (ev_writable ev) r))"
    using on_conn_event_leads [OF assms, of ?fd] stay by (cases "conns s ?fd") (auto simp: on_conn_event_def [of s ?fd])
  show ?thesis
    using acc stay conn by (auto simp: er dispatch_event_def reads_of_def split: option.split callback.split)
qed

lemma batch_leads:
  "server_inv s \<Longrightarrow> tracks a s \<Longrightarrow> leads lay n a (batch_reads s evs) (\<lambda>b. tracks b (foldl dispatch_event s evs))"
proof (induction evs arbitrary: s a)
  case (Cons e evs)
  have "server_inv (dispatch_event s e)" using batch_inv [OF Cons.prems(1), of "[e]"] by simp
  then show ?case using leads_trans [OF dispatch_event_leads [OF Cons.prems, of lay n e]] Cons.IH by simp
qed (simp add: leads_refl)

lemma tick_leads:
  assumes "tracks a s" "active_expire_samples (cfg s) = n"
  shows "leads lay n a [] (\<lambda>b. tracks b (on_tick lay shutdown s))"
proof -
  let ?b = "a\<lparr>s_store := snd (active_expire_cycle lay n (s_store a))\<rparr>"
  have "conns (on_tick lay shutdown s) = conns s" "wire (kern (on_tick lay shutdown s)) = wire (kern s)"
    "sdb (on_tick lay shutdown s) = snd (active_expire_cycle lay n (sdb s))"
    using assms(2) by (auto simp: on_tick_def loop_stop_def Let_def split: prod.split)
  moreover have "tracked ?b s f" for f using assms(1) by (auto simp: tracks_def intro: tracked_cong [of a s f])
  ultimately have "tracks ?b (on_tick lay shutdown s)"
    using tracked_same [of "on_tick lay shutdown s" s ?b] assms(1) by (simp add: tracks_def)
  then have "leads lay n ?b [] (\<lambda>b. tracks b (on_tick lay shutdown s))" by (rule leads_refl)
  moreover have "enact lay n Sweep a = Some ?b" by simp
  ultimately show ?thesis using leads_silent by fastforce
qed

definition turn_reads :: "server \<Rightarrow> (poll_event \<times> read_outcome) list option \<Rightarrow> (int \<times> bytes) list" where
  "turn_reads s evs = (case evs of None \<Rightarrow> [] | Some es \<Rightarrow> batch_reads s es)"

lemma loop_body_leads:
  assumes "server_inv s" "tracks a s" "mem_ok cf s"
  shows "leads lay (active_expire_samples cf) a (turn_reads s evs) (\<lambda>b. tracks b (loop_body lay evs shutdown s))"
proof (cases evs)
  case None
  then show ?thesis using assms(2) tracks_same(1) [of "loop_body lay evs shutdown s" s] by (simp add: loop_body_def turn_reads_def leads_refl)
next
  case (Some es)
  let ?s = "foldl dispatch_event s es" and ?n = "active_expire_samples cf"
  have "cfg ?s = cf" using batch_bounded [OF assms(1,3)] by (simp add: mem_ok_def)
  then have "leads lay ?n b [] (\<lambda>b. tracks b (on_tick lay shutdown ?s))" if "tracks b ?s" for b using tick_leads [OF that] by simp
  from leads_trans [OF batch_leads [OF assms(1,2)] this]
  have "leads lay ?n a (turn_reads s evs) (\<lambda>b. tracks b (on_tick lay shutdown ?s))" using Some by (simp add: turn_reads_def)
  then show ?thesis using Some tracks_same(1) [of "loop_body lay evs shutdown s" "on_tick lay shutdown ?s"]
    by (simp add: loop_body_def Let_def)
qed

subsection \<open>Every reachable server\<close>

text \<open>The reachable servers again, with what was read on the way.\<close>

inductive reads_to :: "(nat \<Rightarrow> key fset \<Rightarrow> key list list) \<Rightarrow> server \<Rightarrow> (int \<times> bytes) list \<Rightarrow> server \<Rightarrow> bool"
  for lay :: "nat \<Rightarrow> key fset \<Rightarrow> key list list" and s0 :: server where
  reads_start: "reads_to lay s0 [] (begin_run s0)"
| reads_turn: "reads_to lay s0 R s \<Longrightarrow> running (sloop s) \<Longrightarrow> reads_to lay s0 (R @ turn_reads s evs) (loop_body lay evs shutdown s)"
| reads_kernel: "reads_to lay s0 R s \<Longrightarrow> kernel_ok k \<Longrightarrow> fd_state k = fd_state (kern s) \<Longrightarrow>
    interest k = interest (kern s) \<Longrightarrow> mod_refused k = mod_refused (kern s) \<Longrightarrow> wire k = wire (kern s) \<Longrightarrow>
    klog k = klog (kern s) \<Longrightarrow> reads_to lay s0 R (s\<lparr>kern := k\<rparr>)"

lemma reads_to_reachable: "reads_to lay s0 R s \<Longrightarrow> reachable lay s0 s"
  by (induction rule: reads_to.induct) (auto intro: reachable.intros)

lemma reachable_reads: "reachable lay s0 s \<Longrightarrow> \<exists>R. reads_to lay s0 R s"
  by (induction rule: reachable.induct) (blast intro: reads_to.intros)+

lemma reads_to_leads:
  assumes "reads_to lay s0 R s" "server_inv s0" "mem_ok cf s0" "tracks a s0"
  shows "leads lay (active_expire_samples cf) a R (\<lambda>b. tracks b s)"
  using assms(1)
proof induction
  case reads_start
  have "tracks a (begin_run s0)" using assms(4) tracks_same(1) [of "begin_run s0" s0] by (simp add: begin_run_def)
  then show ?case by (rule leads_refl)
next
  case (reads_turn R s evs shutdown)
  have i: "server_inv s" "mem_ok cf s"
    using reachable_inv reachable_bounded reads_to_reachable [OF reads_turn.hyps(1)] assms(2,3) by blast+
  show ?case using leads_trans [OF reads_turn.IH loop_body_leads [OF i(1) _ i(2)]] .
next
  case (reads_kernel R s k)
  then show ?case using tracks_same(1) [of "s\<lparr>kern := k\<rparr>" s] by simp
qed

lemma start_db: "start (new_server cf d k) = (None, s) \<Longrightarrow> sdb s = d"
proof -
  assume "start (new_server cf d k) = (None, s)"
  then show ?thesis
  proof (cases rule: start_succeeds)
    case (1 lfd k1 ok s1 E L s2 L')
    have "sdb s1 = d" using 1(2) by (auto simp: reopen_spare_fd_def new_server_def split: if_splits prod.splits)
    then have "sdb s2 = d" using 1(3) by (auto simp: register_def split: prod.splits)
    then show ?thesis using 1(4) by (simp add: bound_port_def split: prod.split)
  qed
qed

text \<open>
  The requests a connection has had executed are all the complete ones of what it sent, unless the
  server is about to close it.
\<close>

lemma tracked_ran:
  assumes "tracks b s" "all_in_order b" "conns s fd = Some c"
  shows "\<exists>ses. s_sessions b fd = Some ses \<and> s_live ses \<and> s_leaving ses = close_after_write c \<and>
    s_sent ses = wire (kern s) fd @ buf_contents (conn_out c) \<and>
    (close_after_write c \<or> s_ran ses = fst (drain (new_parser default_limits) (s_given ses)))"
proof -
  have "tracked b s fd" using assms(1) by (simp add: tracks_def)
  then obtain ses where ses: "s_sessions b fd = Some ses" "follows (wire (kern s) fd) ses c" "settled c"
    using tracked_cases(2) assms(3) by blast
  have "s_ran ses = fst (drain (new_parser default_limits) (s_given ses))" if stays: "\<not> close_after_write c"
  proof -
    have "parse_bytes (new_parser default_limits) (s_rest ses @ []) = parse_bytes (conn_parser c) (buf_contents (conn_in c) @ [])"
      using ses(2) unfolding follows_def by blast
    then obtain p r where "parse_bytes (new_parser default_limits) (s_rest ses) = (Incomplete, p, r)"
      using ses(3) stays by (cases "parse_bytes (conn_parser c) (buf_contents (conn_in c))") (auto simp: settled_def)
    then have "drain (new_parser default_limits) (s_rest ses) = ([], Incomplete, p, r)" by (rule drain_stop) simp
    moreover have "in_order ses" using assms(2) ses(1,2) stays by (auto simp: all_in_order_def follows_def)
    then have "drain (new_parser default_limits) (s_given ses @ []) =
        (case drain (new_parser default_limits) (s_rest ses @ []) of (cs, fin) \<Rightarrow> (s_ran ses @ cs, fin))"
      unfolding in_order_def by blast
    ultimately show ?thesis by simp
  qed
  then show ?thesis using ses by (auto simp: follows_def)
qed

end
