(* ===== verification/Scenario.thy ===== *)
theory Scenario
  imports Process Backends Server_Log Serial
begin

text \<open>
  A concrete server, for the witnesses of the properties that speak about one: a kernel that
  hands out the next free number above those in use and whose calls succeed. The process starts
  with descriptors 0 and 1; then the poller is 2, the listener 3, the spare 4, and one client is
  accepted on descriptor 5. The machine is little-endian, with the values of Linux.
\<close>

definition next_fd :: "int fset \<Rightarrow> int" where
  "next_fd S = 1 + Max (insert (- 1) (fset S))"

definition demo_platform :: platform where
  "demo_platform =
     \<lparr>O_NONBLOCK = 2048, little_endian = True, has_nosigpipe = False, poll_backend = Epoll, getpid = 4711, strerror = (\<lambda>e. ''error''),
      inet_pton = (\<lambda>a. if a = ''127.0.0.1'' then Some 2130706433 else None),
      inet_ntop = (\<lambda>a. if a = 2130706433 then Some ''127.0.0.1'' else None)\<rparr>"

definition demo_peer :: bytes where
  "demo_peer = ''127.0.0.1:0''"

definition demo_log :: logger where
  "demo_log = new_logger (\<lambda>i. (\<lparr>tm_year = 125, tm_mon = 0, tm_mday = 2, tm_hour = 3, tm_min = 4, tm_sec = 5\<rparr>, 6000))"

definition demo_kernel :: kernel where
  "demo_kernel =
     \<lparr>plat = demo_platform, open_fds = {|0, 1|}, alloc = next_fd, errno = 0, calls = (\<lambda>i. 0),
      accepts = (\<lambda>i. if i = 0 then AcceptReady else AcceptAgain), opens = (\<lambda>i. True),
      ctl_adds = (\<lambda>i. True), ctl_mods = (\<lambda>i. True), mod_refused = (\<lambda>fd. False), sends = [],
      interest = Map.empty, wire = (\<lambda>fd. []), status_flags = (\<lambda>fd. 0), fresh_flags = 2,
      ephemeral = 40000, bound_to = Map.empty, peers = (\<lambda>fd. (2130706433, 0)), listening = Map.empty, sockopts = {||},
      errnos = (\<lambda>i. 24), klog = demo_log\<rparr>"

definition demo_db :: db where
  "demo_db = new_db 1 (\<lambda>i. 1000)"

definition demo_started :: server where
  "demo_started = snd (start (new_server default_config demo_db demo_kernel))"

definition demo_server :: server where
  "demo_server = accept_loop 1 demo_started"

lemma next_fd_fresh: "0 \<le> next_fd S \<and> next_fd S |\<notin>| S"
proof -
  let ?M = "Max (insert (- 1) (fset S))"
  have "finite (insert (- 1) (fset S))" "- 1 \<in> insert (- 1) (fset S)" by simp_all
  from Max_ge [OF this] have "0 \<le> 1 + ?M" by linarith
  moreover have "1 + ?M \<notin> fset S"
  proof
    assume "1 + ?M \<in> fset S"
    then have "1 + ?M \<le> ?M" by (intro Max_ge) simp_all
    then show False by simp
  qed
  ultimately show ?thesis by (simp add: next_fd_def)
qed

lemma demo_kernel_ok: "kernel_ok demo_kernel"
  by (simp add: kernel_ok_def demo_kernel_def next_fd_fresh)

lemma demo_db_ok: "db_ok demo_db"
  by (simp add: demo_db_def db_ok_new clock_ok_def)

lemma next_fd_demo:
  "next_fd {|0, 1|} = 2" "next_fd {|2, 0, 1|} = 3" "next_fd {|3, 2, 0, 1|} = 4" "next_fd {|4, 3, 2, 0, 1|} = 5"
  by (simp_all add: next_fd_def)

text \<open>The start-up, computed.\<close>

lemmas demo_run_defs = start_def listen_on_def sys_socket_def sys_setsockopt_def sys_bind_def sys_listen_def
  set_nonblocking_def sys_getfl_def sys_setfl_def sys_call_def poller_create_defs bound_port_def local_port_def
  sys_getsockname_def reopen_spare_fd_def new_server_def new_loop_def loop_valid_def sys_open_def register_def
  loop_add_def poller_add_def demo_kernel_def demo_platform_def default_config_def next_fd_demo

lemma demo_start: "start (new_server default_config demo_db demo_kernel) = (None, demo_started)"
proof -
  have "fst (start (new_server default_config demo_db demo_kernel)) = None"
    by (simp add: demo_run_defs)
  then show ?thesis by (simp add: demo_started_def prod_eq_iff)
qed

lemma demo_started_inv: "server_inv demo_started"
  using start_inv [OF demo_kernel_ok demo_db_ok _ demo_start] by (simp add: demo_kernel_def)

lemma demo_server_inv: "server_inv demo_server"
  using demo_started_inv accept_loop_inv [of "{}" demo_started 1] by (simp add: demo_server_def server_inv_def)

lemmas accept_defs = sys_accept_def add_connection_def set_tcp_nodelay_def suppress_sigpipe_def peer_name_def
  sys_getpeername_def

lemma digit_0: "digit 0 = CHR ''0''"
  by code_simp

lemma demo_server_client:
  "conns demo_server 5 = Some (new_conn 5 demo_peer)" "wire (kern demo_server) 5 = []" "sdb demo_server = demo_db"
  "cfg demo_server = default_config" "sends (kern demo_server) = []"
  by (simp_all add: demo_server_def demo_started_def demo_peer_def demo_run_defs accept_defs ntohs_def swap16_def
      std_to_string_def dec_digits.simps digit_0 Let_def)

text \<open>The client pings: the request in two reads, the reply in portions.\<close>

definition demo_request :: bytes where
  "demo_request = ''*1'' @ CRLF @ ''$4'' @ CRLF @ ''PING'' @ CRLF"

definition demo_events :: "client_event list" where
  "demo_events = [Chunk (take 6 demo_request) False [], Chunk (drop 6 demo_request) True [SendTook 3, SendAgain],
     Drains [SendIntr, SendTook 2]]"

lemma demo_request_eq: "encode_pipeline [[''PING'']] = demo_request"
  by code_simp

lemma demo_events_fine:
  "\<forall>e \<in> set demo_events. event_ok e \<and> list_all send_fine (sends_of e)"
  "concat (map chunk_of demo_events) = encode_pipeline [[''PING'']]"
  by (simp_all add: demo_events_def demo_request_def kReadChunk_def demo_request_eq)

lemma demo_exec: "exec [[''PING'']] demo_db = (encode_reply (RSimple ''PONG''), demo_db, False)"
proof -
  have "to_lower_ascii ''PING'' = ''ping''" by code_simp
  then have "dispatch (fresh_ctx [''PING''] new_buffer demo_db) = say (fresh_ctx [''PING''] new_buffer demo_db) (RSimple ''PONG'')"
    by (simp add: dispatch_def table_find_def the_table_eq arity_ok_def cmd_ping_def)
  then show ?thesis
    using contents_write_reply [of new_buffer "RSimple ''PONG''"] by (simp add: say_def fresh_ctx_def)
qed

lemma demo_valid: "\<forall>c \<in> set [[''PING'']]. valid_command default_limits c"
  by (simp add: valid_command_def default_limits_def)

lemma demo_stays_open:
  "\<exists>c. conns (foldl (client_step 5) demo_server demo_events) 5 = Some c \<and> \<not> close_after_write c"
proof -
  have d: "drain (new_parser default_limits) (concat (map chunk_of demo_events)) =
      ([[''PING'']], Incomplete, new_parser default_limits, [])"
    using drain_pipeline [OF demo_valid limits_ok_default] demo_events_fine(2) by simp
  have "\<forall>pre post. demo_events = pre @ post \<longrightarrow>
      (\<exists>cs p' r'. drain (new_parser default_limits) (concat (map chunk_of pre)) = (cs, Incomplete, p', r'))"
    using drain_pipeline_prefix [OF demo_valid limits_ok_default] demo_events_fine(2)
    by (metis concat_append map_append)
  then show ?thesis
    using client_session_open [OF demo_server_inv demo_server_client(1) _ demo_server_client(2) _ demo_events_fine(1),
        of "[[''PING'']]" "new_parser default_limits" "[]" "encode_reply (RSimple ''PONG'')" demo_db]
      d demo_exec demo_server_client(3,4) by (simp add: default_config_def)
qed

text \<open>The same client after a QUIT whose reply the socket has not taken.\<close>

definition closing_conn :: conn where
  "closing_conn = (new_conn 5 demo_peer)\<lparr>conn_out := buf_append new_buffer (encode_reply (RSimple ''OK'')),
     close_after_write := True, write_armed := True\<rparr>"

definition demo_closing :: server where
  "demo_closing = (arm_write 5 True demo_server)\<lparr>conns := (conns demo_server)(5 \<mapsto> closing_conn)\<rparr>"

lemma closing_conn_fields [simp]:
  "conn_fd closing_conn = 5" "conn_parser closing_conn = new_parser default_limits" "conn_in closing_conn = new_buffer"
  "close_after_write closing_conn" "write_armed closing_conn"
  "conn_out closing_conn = buf_append new_buffer (encode_reply (RSimple ''OK''))"
  by (simp_all add: closing_conn_def new_conn_def)

lemma closing_conn_ok: "conn_ok closing_conn"
  by (simp add: conn_ok_def conn_mid_def buf_empty_def)

lemma demo_closing_inv: "server_inv demo_closing"
proof -
  have i: "inv_but {5} demo_server" "conns demo_server 5 \<noteq> None"
    using demo_server_inv demo_server_client(1) by (auto simp: server_inv_def inv_but_def)
  note a = arm_write_facts [OF i, of True]
  have "in_hand 5 (arm_write 5 True demo_server) closing_conn"
    using a i(2) closing_conn_ok by (simp add: in_hand_def conn_ok_def)
  moreover have "conn_here (arm_write 5 True demo_server) 5 closing_conn"
    using a(5) closing_conn_ok by (simp add: conn_here_def)
  ultimately show ?thesis using store_back a(2) by (fastforce simp: demo_closing_def)
qed

lemma demo_closing_fields:
  "conns demo_closing 5 = Some closing_conn" "sends (kern demo_closing) = []" "sdb demo_closing = demo_db"
  "cfg demo_closing = default_config"
  using demo_server_client(3,4,5)
  by (simp_all add: demo_closing_def arm_write_def loop_set_write_interest_sends)

text \<open>The same, with a line at the head of the input that is no array header.\<close>

definition stuck_conn :: conn where
  "stuck_conn = closing_conn\<lparr>conn_in := buf_append new_buffer bad_header\<rparr>"

definition demo_stuck :: server where
  "demo_stuck = demo_closing\<lparr>conns := (conns demo_closing)(5 \<mapsto> stuck_conn)\<rparr>"

lemma stuck_conn_fields [simp]:
  "conn_fd stuck_conn = 5" "conn_parser stuck_conn = new_parser default_limits" "close_after_write stuck_conn"
  "buf_contents (conn_in stuck_conn) = bad_header" "buf_contents (conn_out stuck_conn) = encode_reply (RSimple ''OK'')"
  by (simp_all add: stuck_conn_def)

lemma demo_stuck_inv: "server_inv demo_stuck"
proof -
  have i: "inv_but {5} demo_closing" "conns demo_closing 5 \<noteq> None" "conn_here demo_closing 5 closing_conn"
    using demo_closing_inv demo_closing_fields(1) at_rest [OF demo_closing_inv demo_closing_fields(1)]
    by (auto simp: server_inv_def inv_but_def)
  then have "conn_here demo_closing 5 stuck_conn" by (simp add: conn_here_def conn_ok_def conn_mid_def stuck_conn_def)
  moreover from this have "in_hand 5 demo_closing stuck_conn" using i by (simp add: in_hand_def conn_here_def conn_ok_def)
  ultimately show ?thesis using store_back by (fastforce simp: demo_stuck_def)
qed

lemma demo_stuck_client: "conns demo_stuck 5 = Some stuck_conn"
  by (simp add: demo_stuck_def)

text \<open>The flag values of Linux and of macOS.\<close>

definition demo_epoll :: epoll_flags where
  "demo_epoll = \<lparr>EPOLLIN = 1, EPOLLOUT = 4, EPOLLRDHUP = 8192, EPOLLERR = 8, EPOLLHUP = 16\<rparr>"

definition demo_kq :: kq_consts where
  "demo_kq = \<lparr>EVFILT_READ = - 1, EVFILT_WRITE = - 2, EV_ERROR = 16384, EV_EOF = 32768\<rparr>"

definition demo_actions :: kq_actions where
  "demo_actions = \<lparr>EV_ADD = 1, EV_DELETE = 2, EV_ENABLE = 4, EV_DISABLE = 8\<rparr>"

definition demo_epoll_instance :: epoll_instance where
  "demo_epoll_instance = \<lparr>ep_table = Map.empty, ep_grants = (\<lambda>i. True)\<rparr>"

definition demo_kqueue_instance :: kqueue_instance where
  "demo_kqueue_instance = \<lparr>kq_filters = Map.empty, kq_grants = (\<lambda>i. True)\<rparr>"

definition demo_requests :: "poll_request list" where
  "demo_requests = [Register 5 False, Arm 5 True]"

lemma demo_instances_ok: "epoll_ok demo_epoll demo_epoll_instance" "kqueue_ok demo_kq demo_actions demo_kqueue_instance"
  by (simp_all add: epoll_ok_def demo_epoll_def demo_epoll_instance_def kqueue_ok_def demo_kq_def demo_actions_def
      demo_kqueue_instance_def)

lemma demo_served:
  "fst (serve_all (epoll_ops demo_epoll) demo_epoll_instance demo_requests) = map (\<lambda>r. (r, True)) demo_requests"
  "fst (serve_all (kqueue_ops demo_kq demo_actions) demo_kqueue_instance demo_requests) = map (\<lambda>r. (r, True)) demo_requests"
  "fst (serve_all kernel_ops demo_kernel demo_requests) = map (\<lambda>r. (r, True)) demo_requests"
  by (simp_all add: demo_requests_def epoll_ops_def epoll_add_def epoll_set_write_interest_def epoll_ctl_def demo_epoll_instance_def
      kqueue_ops_def kqueue_add_def kqueue_set_write_interest_def kq_change_def demo_kqueue_instance_def demo_kq_def demo_actions_def
      kernel_ops_def poller_add_def poller_set_write_interest_def demo_kernel_def Let_def ex_bool_eq)

lemma demo_nothing_wanted:
  "epoll_wants demo_epoll demo_epoll_instance = Map.empty" "kqueue_wants demo_kq demo_kqueue_instance = Map.empty"
  "interest demo_kernel = Map.empty"
  by (simp_all add: epoll_wants_def kqueue_wants_def demo_epoll_instance_def demo_kqueue_instance_def demo_kernel_def fun_eq_iff)

text \<open>
  Two clients wait to be accepted and get descriptors 5 and 6. The second begins to ask for a key, the
  first sets it, an expiry cycle runs, and the second finishes its request.
\<close>

definition demo_pair :: server where
  "demo_pair = demo_started\<lparr>kern := (kern demo_started)\<lparr>accepts := (\<lambda>i. if i < 2 then AcceptReady else AcceptAgain)\<rparr>\<rparr>"

definition demo_set :: bytes where
  "demo_set = ''*3'' @ CRLF @ ''$3'' @ CRLF @ ''SET'' @ CRLF @ ''$1'' @ CRLF @ ''k'' @ CRLF @ ''$1'' @ CRLF @ ''v'' @ CRLF"

definition demo_get :: bytes where
  "demo_get = ''*2'' @ CRLF @ ''$3'' @ CRLF @ ''GET'' @ CRLF @ ''$1'' @ CRLF @ ''k'' @ CRLF"

definition demo_occasions :: "occasion list" where
  "demo_occasions = [AcceptAt 1000, At 6 1000 (Chunk (take 2 demo_get) False []), At 5 1200 (Chunk demo_set False [SendTook 3]), TickAt 1500,
     At 6 2000 (Chunk (drop 2 demo_get) True [SendTook 3, SendAgain]), At 5 2000 (Drains [SendIntr, SendTook 2])]"

definition demo_cmds :: "int \<Rightarrow> bytes list list" where
  "demo_cmds fd = (if fd = 5 then [[''SET'', ''k'', ''v'']] else [[''GET'', ''k'']])"

definition demo_acmds :: "int \<Rightarrow> acmd list" where
  "demo_acmds fd = (if fd = 5 then [ASet ''k'' ''v'' False False None] else [AGet ''k''])"

lemma next_fd_pair: "next_fd {|5, 4, 3, 2, 0, 1|} = 6"
  by (simp add: next_fd_def)

lemma demo_pair_inv: "server_inv demo_pair"
  unfolding demo_pair_def
  using demo_started_inv by (intro kernel_change_inv) (auto simp: server_inv_def inv_defs kernel_ok_def)

lemma demo_pair_fields: "fresh demo_pair fd" "sdb demo_pair = demo_db" "cfg demo_pair = default_config"
  by (simp_all add: demo_pair_def demo_started_def demo_run_defs fresh_def Let_def)

lemma demo_pair_spare: "(spare_fd demo_pair < 0) = False" "opens (kern demo_pair) 0 = True"
  by (simp_all add: demo_pair_def demo_started_def demo_run_defs Let_def)

text \<open>A server whose next calls of \<^verbatim>\<open>open\<close> and of the poller's registration succeed.\<close>

definition granting :: "server \<Rightarrow> server" where
  "granting s = s\<lparr>kern := (kern s)\<lparr>opens := (\<lambda>i. True), ctl_adds := (\<lambda>i. True)\<rparr>\<rparr>"

lemma demo_pair_accepted: "fd \<in> {5, 6} \<Longrightarrow> conns (on_listener_readable (at_time t demo_pair)) fd \<noteq> None"
proof -
  obtain n where n: "kMaxAcceptsPerEvent = Suc (Suc (Suc n))"
    using that [of 997] by (simp add: kMaxAcceptsPerEvent_def)
  show "fd \<in> {5, 6} \<Longrightarrow> conns (on_listener_readable (at_time t demo_pair)) fd \<noteq> None"
    by (auto simp: on_listener_readable_def n at_time_def demo_pair_def demo_started_def demo_run_defs accept_defs next_fd_pair Let_def)
qed

lemma demo_reported: "reported lay demo_pair demo_occasions"
proof -
  have "accepted lay demo_pair (AcceptAt 1000 # xs) fd" if "fd \<in> {5, 6}" for xs fd
    unfolding accepted_def using demo_pair_accepted [OF that, of 1000] by (intro exI [of _ 1]) simp
  then show ?thesis by (simp add: reported_def demo_occasions_def All_less_Suc)
qed

lemma demo_streams:
  "\<forall>fd \<in> {5, 6}. stream fd demo_occasions = encode_pipeline (demo_cmds fd)"
  by code_simp

lemma demo_drained:
  "length (fst (drain (new_parser default_limits) demo_set)) = 1" "length (fst (drain (new_parser default_limits) demo_get)) = 1"
  "fst (drain (new_parser default_limits) (take 2 demo_get)) = []"
proof -
  have e: "encode_pipeline [[''SET'', ''k'', ''v'']] = demo_set" "encode_pipeline [[''GET'', ''k'']] = demo_get" by code_simp+
  have v: "\<forall>c \<in> set [[''SET'', ''k'', ''v'']]. valid_command default_limits c" "\<forall>c \<in> set [[''GET'', ''k'']]. valid_command default_limits c"
    by (simp_all add: valid_command_def default_limits_def)
  show "length (fst (drain (new_parser default_limits) demo_set)) = 1" "length (fst (drain (new_parser default_limits) demo_get)) = 1"
    using drain_pipeline [OF v(1) limits_ok_default] drain_pipeline [OF v(2) limits_ok_default] by (simp_all add: e)
  have f: "find_crlf ''*2'' = None" by code_simp
  have t: "take 2 demo_get = ''*2''" by (simp add: demo_get_def)
  show "fst (drain (new_parser default_limits) (take 2 demo_get)) = []"
    unfolding t by (subst drain.simps, subst parse_bytes.simps) (simp add: parse_case_def parse_start_def new_parser_def f)
qed

lemma demo_history:
  "history demo_acmds demo_occasions = [(5, 1200, ASet ''k'' ''v'' False False None), (6, 2000, AGet ''k'')]"
  by (simp add: history_def demo_occasions_def completed_def stream_def demo_drained demo_acmds_def upt_rec)

lemma demo_occasions_fine: "\<forall>x \<in> set demo_occasions. occasion_ok {5, 6} x" "sorted (1000 # map time_of demo_occasions)"
  by (simp_all add: demo_occasions_def demo_get_def demo_set_def kReadChunk_def)

lemma demo_denotes:
  "\<forall>fd \<in> {5, 6}. (\<forall>argv \<in> set (demo_cmds fd). valid_command default_limits argv) \<and> list_all2 denotes (demo_cmds fd) (demo_acmds fd)"
proof -
  have "to_lower_ascii ''SET'' = ''set''" by code_simp
  then have "denotes [''SET'', ''k'', ''v''] (ASet ''k'' ''v'' False False None)" by (simp add: denotes_def no_opts_def Let_def)
  then show ?thesis by (simp add: demo_cmds_def demo_acmds_def denotes_get valid_command_def default_limits_def)
qed

text \<open>One turn of the loop in which a client connects and the operator asks for a stop.\<close>

definition demo_fixtures :: fixtures where
  "demo_fixtures = \<lparr>fx_layout = sorted_layout, fx_epoll = demo_epoll, fx_kqueue = demo_kq\<rparr>"

definition demo_turn :: turn where
  "demo_turn = \<lparr>t_wait = EpollWait (WaitReturned [(3, 1)]), t_reads = (\<lambda>fd. ReadAgain), t_sends = [], t_signals = [SIGPIPE, SIGTERM]\<rparr>"

text \<open>The first turn of the loop: the listener is readable and the client is accepted.\<close>

definition demo_turned :: server where
  "demo_turned = loop_body sorted_layout (Some [(new_event 3\<lparr>ev_readable := True\<rparr>, ReadAgain)]) False (begin_run demo_started)"

lemma demo_begun:
  "handlers (sloop (begin_run demo_started)) 3 = Some ListenerCb"
  "\<exists>fd k. sys_accept (kern (begin_run demo_started)) = (AcceptReady, fd, k)"
  "conns (accept_loop 1 (begin_run demo_started)) 5 = Some (new_conn 5 demo_peer)"
  by (simp_all add: begin_run_def demo_started_def demo_peer_def demo_run_defs accept_defs ntohs_def swap16_def
      std_to_string_def dec_digits.simps digit_0 Let_def)

lemma demo_turned_client: "reachable sorted_layout demo_started demo_turned" "conns demo_turned 5 = Some (new_conn 5 demo_peer)"
proof -
  let ?s = "begin_run demo_started"
  have i: "inv_but {} ?s" using begin_run_inv [OF demo_started_inv] by (simp add: server_inv_def)
  obtain m where m: "kMaxAcceptsPerEvent = Suc m" by (cases kMaxAcceptsPerEvent) (auto simp: kMaxAcceptsPerEvent_def)
  have "accept_loop kMaxAcceptsPerEvent ?s = accept_loop m (accept_loop 1 ?s)" unfolding m using demo_begun(2) by (auto simp: Let_def)
  moreover have "conns (accept_loop m (accept_loop 1 ?s)) 5 = Some (new_conn 5 demo_peer)"
    using conns_accept_loop [OF accept_loop_inv [OF i] demo_begun(3)] .
  ultimately show "conns demo_turned 5 = Some (new_conn 5 demo_peer)"
    using demo_begun(1)
    by (auto simp: demo_turned_def loop_body_def dispatch_event_def on_listener_readable_def on_tick_def new_event_def Let_def split: prod.split)
  show "reachable sorted_layout demo_started demo_turned"
    unfolding demo_turned_def by (rule reach_turn [OF reach_start]) (simp add: begin_run_def)
qed

lemma demo_turned_granted: "\<not> mod_refused (kern demo_turned) 5"
proof -
  obtain n where n: "kMaxAcceptsPerEvent = Suc (Suc n)" using that [of 998] by (simp add: kMaxAcceptsPerEvent_def)
  have "\<not> mod_refused (kern (on_listener_readable (begin_run demo_started))) 5"
    by (simp add: on_listener_readable_def n begin_run_def demo_started_def demo_run_defs accept_defs Let_def)
  then show ?thesis
    using demo_begun(1)
    by (simp add: demo_turned_def loop_body_def dispatch_event_def on_tick_def new_event_def Let_def split: prod.split)
qed

text \<open>
  The client's socket takes nothing, and the system refuses every change of the write interest while
  the reply to a request is written.
\<close>

definition demo_refusing :: server where
  "demo_refusing = demo_server\<lparr>kern := (kern demo_server)\<lparr>ctl_mods := (\<lambda>i. False)\<rparr>\<rparr>"

lemma demo_refusing_fields:
  "server_inv demo_refusing" "conns demo_refusing 5 = Some (new_conn 5 demo_peer)" "interest (kern demo_refusing) 5 = Some False"
  "\<not> ctl_mods (kern demo_refusing) 0"
proof -
  show "server_inv demo_refusing"
    unfolding demo_refusing_def using demo_server_inv
    by (intro kernel_change_inv) (auto simp: server_inv_def inv_defs kernel_ok_def)
  show "conns demo_refusing 5 = Some (new_conn 5 demo_peer)" "\<not> ctl_mods (kern demo_refusing) 0"
    using demo_server_client(1) by (simp_all add: demo_refusing_def)
  show "interest (kern demo_refusing) 5 = Some False"
    by (simp add: demo_refusing_def demo_server_def demo_started_def demo_run_defs accept_defs Let_def)
qed

lemma demo_refused_waits:
  "\<exists>c. conns (on_conn_event demo_refusing 5 True False (ReadBytes demo_request)) 5 = Some c \<and>
     buf_contents (conn_out c) = encode_reply (RSimple ''PONG'')"
proof -
  let ?e = "Chunk demo_request False []" and ?s = "on_conn_event demo_refusing 5 True False (ReadBytes demo_request)"
  have f: "wire (kern demo_refusing) 5 = []" "sdb demo_refusing = demo_db" "cfg demo_refusing = default_config"
    "sends (kern demo_refusing) = []" using demo_server_client(2-5) by (simp_all add: demo_refusing_def)
  have "set_sends [] demo_refusing = demo_refusing" using f(4) by (simp add: set_sends_def)
  then have e: "foldl (client_step 5) demo_refusing [?e] = ?s" by simp
  have ok: "\<forall>e \<in> set [?e]. event_ok e \<and> list_all send_fine (sends_of e)"
    "concat (map chunk_of [?e]) = encode_pipeline [[''PING'']]"
    by (simp_all add: demo_request_eq) (simp_all add: demo_request_def kReadChunk_def)
  have "length (encode_reply (RSimple ''PONG'')) \<le> max_output_buffer (cfg demo_refusing)" using f(3) by (simp add: default_config_def)
  from pipeline_served [OF demo_refusing_fields(1,2) f(1) ok demo_valid _ this refl] f(2) demo_exec
  obtain c where c: "conns ?s 5 = Some c" "wire (kern ?s) 5 @ buf_contents (conn_out c) = encode_reply (RSimple ''PONG'')"
    unfolding e by auto
  then show ?thesis using full_socket_event [OF demo_refusing_fields(1) f(4) refl c(1)] f(1) by simp
qed

text \<open>The second turn: the client has sent a request and gets its reply.\<close>

definition demo_pinged :: server where
  "demo_pinged = loop_body sorted_layout (Some [(new_event 5\<lparr>ev_readable := True\<rparr>, ReadBytes demo_request)]) False demo_turned"

lemma demo_pinged_reads: "reads_to sorted_layout demo_started [(5, demo_request)] demo_pinged"
proof -
  let ?e = "(new_event 5\<lparr>ev_readable := True\<rparr>, ReadBytes demo_request)" and ?l = "(new_event 3\<lparr>ev_readable := True\<rparr>, ReadAgain)"
  have i: "server_inv demo_turned" using demo_started_inv demo_turned_client(1) reachable_inv by blast
  have "reads_to sorted_layout demo_started ([] @ turn_reads (begin_run demo_started) (Some [?l])) demo_turned"
    unfolding demo_turned_def by (rule reads_turn [OF reads_start]) (simp add: begin_run_def)
  then have one: "reads_to sorted_layout demo_started [] demo_turned"
    by (simp add: turn_reads_def reads_of_def new_event_def demo_begun(1))
  have "handlers (sloop demo_turned) 5 = Some ConnCb"
    using i demo_turned_client(2) by (auto simp: server_inv_def inv_defs)
  then have "turn_reads demo_turned (Some [?e]) = [(5, demo_request)]"
    using demo_turned_client(2) by (simp add: turn_reads_def reads_of_def new_event_def demo_request_def kReadChunk_def)
  moreover have "running (sloop demo_turned)" by (simp add: demo_turned_def loop_body_running)
  ultimately show ?thesis unfolding demo_pinged_def using reads_turn [OF one, of "Some [?e]" False] by simp
qed

lemma demo_server_level: "g_min_level (klog (kern demo_server)) \<le> Warn"
proof -
  have "logged (\<lambda>l. True) (klog (kern demo_started)) (klog (kern demo_server))"
    using accept_loop_log [of "{}" demo_started 1] demo_started_inv by (simp add: demo_server_def log_kept_def server_inv_def)
  moreover have "logged bystander (klog demo_kernel) (klog (kern demo_started))"
    using start_aside [of "new_server default_config demo_db demo_kernel"] demo_start by (simp add: aside_def new_server_log)
  ultimately show ?thesis by (simp add: logged_def demo_kernel_def demo_log_def new_logger_def less_eq_log_level_def)
qed

text \<open>The same start with all lines wanted.\<close>

definition verbose_kernel :: kernel where
  "verbose_kernel = demo_kernel\<lparr>klog := set_min_level Debug demo_log\<rparr>"

definition verbose_started :: server where
  "verbose_started = snd (start (new_server default_config demo_db verbose_kernel))"

definition verbose_turned :: server where
  "verbose_turned = loop_body sorted_layout (Some [(new_event 3\<lparr>ev_readable := True\<rparr>, ReadAgain)]) False (begin_run verbose_started)"

lemma verbose_kernel_ok: "kernel_ok verbose_kernel" "interest verbose_kernel = Map.empty"
  using demo_kernel_ok demo_nothing_wanted(3) by (simp_all add: verbose_kernel_def)

lemma verbose_start: "start (new_server default_config demo_db verbose_kernel) = (None, verbose_started)"
proof -
  have "fst (start (new_server default_config demo_db verbose_kernel)) = None"
    by (simp add: verbose_kernel_def demo_run_defs)
  then show ?thesis by (simp add: verbose_started_def prod_eq_iff)
qed

lemma verbose_reachable: "reachable sorted_layout verbose_started verbose_turned"
  unfolding verbose_turned_def by (rule reach_turn [OF reach_start]) (simp add: begin_run_def)

end
