(* ===== verification/Grammar.thy ===== *)
theory Grammar
  imports Roundtrip
begin

text \<open>
  The request format as a grammar, independent of how the parser goes about it: \<open>is_request l argv f\<close>
  says that the bytes \<open>f\<close> are one request that carries the arguments \<open>argv\<close> and keeps to the limits
  \<open>l\<close>. The parser of \<^verbatim>\<open>src/resp/parser.cpp\<close> accepts exactly the byte streams that start with a request,
  returns its arguments, and consumes exactly its bytes.
\<close>

subsection \<open>The grammar\<close>

text \<open>A numeral: at most 20 bytes in decimal notation, with a value that \<^verbatim>\<open>int64_t\<close> can hold.\<close>

definition numeral_of :: "int \<Rightarrow> bytes \<Rightarrow> bool" where
  "numeral_of n s \<longleftrightarrow> length s \<le> 20 \<and> decimal s = Some n \<and> in_int64 n"

text \<open>Bulk strings, each with its length in front: \<^verbatim>\<open>$\<close>, a numeral and a line end, the bytes, a line end.\<close>

inductive are_bulks :: "proto_limits \<Rightarrow> bytes list \<Rightarrow> bytes \<Rightarrow> bool" for l :: proto_limits where
  no_bulk: "are_bulks l [] []"
| one_bulk: "numeral_of (int (length a)) s \<Longrightarrow> length a \<le> max_bulk_len l \<Longrightarrow> are_bulks l as f \<Longrightarrow>
    are_bulks l (a # as) (CHR ''$'' # s @ CRLF @ a @ CRLF @ f)"

text \<open>
  A request is an array of bulk strings, whose count a \<^verbatim>\<open>*\<close> introduces; a count that is not positive,
  which stands for no arguments at all; or a line that does not start with \<^verbatim>\<open>*\<close>, ended by a line feed
  with or without a carriage return in front, that the splitter can divide into words.
\<close>

inductive is_request :: "proto_limits \<Rightarrow> bytes list \<Rightarrow> bytes \<Rightarrow> bool" for l :: proto_limits where
  array: "numeral_of (int (length argv)) s \<Longrightarrow> argv \<noteq> [] \<Longrightarrow> length argv \<le> max_multibulk_args l \<Longrightarrow> are_bulks l argv f \<Longrightarrow>
    is_request l argv (CHR ''*'' # s @ CRLF @ f)"
| empty_array: "numeral_of n s \<Longrightarrow> n \<le> 0 \<Longrightarrow> is_request l [] (CHR ''*'' # s @ CRLF)"
| line: "LF \<notin> set t \<Longrightarrow> e = CRLF \<or> e = [LF] \<and> (t = [] \<or> last t \<noteq> CR) \<Longrightarrow> hd (t @ e) \<noteq> CHR ''*'' \<Longrightarrow>
    length t \<le> max_inline_len l \<Longrightarrow> split_inline t = Some argv \<Longrightarrow> is_request l argv (t @ e)"

subsection \<open>Header lines\<close>

lemma numeral_no_CR: "numeral_of n s \<Longrightarrow> CR \<notin> set s"
proof -
  have "\<not> is_digit CR" by (simp add: is_digit_def byte_val_def)
  then show "numeral_of n s \<Longrightarrow> CR \<notin> set s"
    by (auto simp: numeral_of_def decimal_def split: list.splits if_splits dest!: dec_value_Some_digits)
qed

lemma header_accepted:
  assumes "numeral_of n s" "c \<noteq> CR" "r = c # s @ CRLF @ q"
  shows "find_crlf r = Some (length s + 1)" "string_to_int64 (take (length s) (drop 1 r)) = Some n"
    "drop (length s + 1 + 2) r = q" "r ! 0 = c" "r \<noteq> []"
proof -
  have "crlf_pos ((c # s) @ CR # LF # q) = Some (length (c # s))"
    using numeral_no_CR [OF assms(1)] assms(2) by (intro crlf_pos_line) auto
  then show "find_crlf r = Some (length s + 1)" by (simp add: find_crlf_eq_crlf_pos assms(3))
  show "string_to_int64 (take (length s) (drop 1 r)) = Some n"
    using assms(1) by (simp add: assms(3) numeral_of_def string_to_int64_exact)
qed (simp_all add: assms(3))

lemma header_found:
  assumes "find_crlf r = Some i" "0 < i" "string_to_int64 (take (i - 1) (drop 1 r)) = Some n"
  obtains s where "numeral_of n s" "r = r ! 0 # s @ CRLF @ drop (i + 2) r"
proof
  have i: "i + 1 < length r" "r ! i = CR" "r ! (i + 1) = LF"
    using crlf_pos_SomeD assms(1) by (simp_all add: find_crlf_eq_crlf_pos)
  show "numeral_of n (take (i - 1) (drop 1 r))" using assms(3) by (simp add: numeral_of_def string_to_int64_exact)
  have "r = take i r @ r ! i # r ! (i + 1) # drop (i + 2) r" using i(1) by (simp add: Cons_nth_drop_Suc)
  moreover have "take i r = r ! 0 # take (i - 1) (drop 1 r)" using i(1) assms(2) by (cases r) (simp_all add: take_Cons')
  ultimately show "r = r ! 0 # take (i - 1) (drop 1 r) @ CRLF @ drop (i + 2) r" using i(2,3) by simp
qed

subsection \<open>Bulk strings\<close>

lemma bulk_accepted:
  assumes "pstate p = ArgLen" "numeral_of (int (length a)) s" "length a \<le> max_bulk_len (limits p)"
  shows "parse_bytes p (CHR ''$'' # s @ CRLF @ r) = parse_bytes (p\<lparr>arg_len := int (length a), pstate := ArgData\<rparr>) r"
proof -
  have "CHR ''$'' \<noteq> CR" by simp
  note h = header_accepted [OF assms(2) this refl, of r]
  have "parse_case p (CHR ''$'' # s @ CRLF @ r) = (None, p\<lparr>arg_len := int (length a), pstate := ArgData\<rparr>, Some (length s + 1 + 2))"
    using assms(1,3) h by (simp add: parse_case_def parse_arg_len_def)
  then show ?thesis using h(3) by (simp add: parse_bytes_again)
qed

lemma bulks_accepted:
  "are_bulks l as f \<Longrightarrow> as \<noteq> [] \<Longrightarrow> pstate p = ArgLen \<Longrightarrow> args_remaining p = int (length as) \<Longrightarrow> limits p = l \<Longrightarrow>
     parse_bytes p (f @ r) = (Complete (pargv p @ as), new_parser l, r)"
proof (induction as f arbitrary: p rule: are_bulks.induct)
  case (one_bulk a s as f)
  let ?p = "p\<lparr>arg_len := int (length a), pstate := ArgData\<rparr>"
  have "parse_bytes p ((CHR ''$'' # s @ CRLF @ a @ CRLF @ f) @ r) = parse_bytes ?p (a @ CRLF @ f @ r)"
    using bulk_accepted [OF one_bulk.prems(2) one_bulk.hyps(1), of "a @ CRLF @ f @ r"] one_bulk.hyps(2) one_bulk.prems(4) by simp
  also have "\<dots> = (Complete (pargv p @ a # as), new_parser l, r)"
  proof (cases "as = []")
    case True
    then have "args_remaining ?p = 1" "f = []" using one_bulk.prems(3) one_bulk.hyps(3) by (auto elim: are_bulks.cases)
    then show ?thesis
      using parse_bytes_return [OF trans [OF parse_case_arg_data [of ?p a "f @ r"]]] True one_bulk.prems(4) by (simp add: parser_reset_eq)
  next
    case False
    let ?q = "?p\<lparr>pargv := pargv p @ [a], arg_len := - 1, args_remaining := args_remaining p - 1, pstate := ArgLen\<rparr>"
    have "args_remaining ?p \<noteq> 1" using one_bulk.prems(3) False by simp
    then have "parse_bytes ?p (a @ CRLF @ f @ r) = parse_bytes ?q (f @ r)"
      using parse_bytes_again [OF trans [OF parse_case_arg_data [of ?p a "f @ r"]]] by simp
    then show ?thesis using one_bulk.IH [of ?q] one_bulk.prems(3,4) False by simp
  qed
  finally show ?case .
qed simp

text \<open>What the parser did if a command came out while it was waiting for a bulk string.\<close>

lemma bulk_header_found:
  assumes "pstate p = ArgLen" "parse_bytes p r = (Complete argv, p', r')"
  obtains n s q where "numeral_of (int n) s" "n \<le> max_bulk_len (limits p)" "r = CHR ''$'' # s @ CRLF @ q"
    "parse_bytes (p\<lparr>arg_len := int n, pstate := ArgData\<rparr>) q = (Complete argv, p', r')"
proof -
  obtain i n where i: "find_crlf r = Some i" "0 < i" "r ! 0 = CHR ''$''" "string_to_int64 (take (i - 1) (drop 1 r)) = Some n"
    and n: "0 \<le> n" "n \<le> int (max_bulk_len (limits p))"
    and c: "parse_case p r = (None, p\<lparr>arg_len := n, pstate := ArgData\<rparr>, Some (i + 2))"
    using assms
    by (cases rule: parse_bytes_cases [of p r])
       (auto simp: parse_case_def parse_arg_len_def fail_def Let_def split: option.splits if_splits)
  obtain s where s: "numeral_of n s" "r = r ! 0 # s @ CRLF @ drop (i + 2) r" using header_found [OF i(1,2,4)] .
  show thesis
  proof (rule that [of "nat n" s "drop (i + 2) r"])
    show "numeral_of (int (nat n)) s" "nat n \<le> max_bulk_len (limits p)" using s(1) n by auto
    show "r = CHR ''$'' # s @ CRLF @ drop (i + 2) r" using s(2) i(3) by simp
    show "parse_bytes (p\<lparr>arg_len := int (nat n), pstate := ArgData\<rparr>) (drop (i + 2) r) = (Complete argv, p', r')"
      using parse_bytes_again [OF c] assms(2) n(1) by simp
  qed
qed

lemma bulk_data_found:
  assumes "pstate p = ArgData" "arg_len p = int n" "parse_bytes p q = (Complete argv, p', r')"
  obtains a q' where "length a = n" "q = a @ CRLF @ q'"
    "if args_remaining p = 1 then argv = pargv p @ [a] \<and> p' = new_parser (limits p) \<and> r' = q'
     else parse_bytes (p\<lparr>pargv := pargv p @ [a], arg_len := - 1, args_remaining := args_remaining p - 1, pstate := ArgLen\<rparr>) q'
       = (Complete argv, p', r')"
proof -
  have q: "n + 2 \<le> length q" "q ! n = CR" "q ! (n + 1) = LF"
    using assms
    by (cases rule: parse_bytes_cases [of p q]; auto simp: parse_case_def parse_arg_data_def fail_def Let_def split: if_splits)+
  let ?a = "take n q" and ?q = "drop (n + 2) q"
  have split: "q = ?a @ CRLF @ ?q" using q by (simp add: Cons_nth_drop_Suc flip: q(2,3))
  have a: "length ?a = n" using q(1) by simp
  have "arg_len p = int (length ?a)" using assms(2) a by simp
  note c = parse_case_arg_data [OF assms(1) this, of ?q, folded split]
  show thesis
  proof (rule that [OF a split], cases "args_remaining p = 1")
    case True
    then show "if args_remaining p = 1 then argv = pargv p @ [?a] \<and> p' = new_parser (limits p) \<and> r' = ?q
      else parse_bytes (p\<lparr>pargv := pargv p @ [?a], arg_len := - 1, args_remaining := args_remaining p - 1, pstate := ArgLen\<rparr>) ?q
       = (Complete argv, p', r')"
      using parse_bytes_return [OF trans [OF c]] assms(3) a by (simp add: parser_reset_eq)
  next
    case False
    then show "if args_remaining p = 1 then argv = pargv p @ [?a] \<and> p' = new_parser (limits p) \<and> r' = ?q
      else parse_bytes (p\<lparr>pargv := pargv p @ [?a], arg_len := - 1, args_remaining := args_remaining p - 1, pstate := ArgLen\<rparr>) ?q
       = (Complete argv, p', r')"
      using parse_bytes_again [OF trans [OF c]] assms(3) a by simp
  qed
qed

lemma bulks_found:
  "pstate p = ArgLen \<Longrightarrow> args_remaining p = int (Suc m) \<Longrightarrow> limits p = l \<Longrightarrow> parse_bytes p r = (Complete argv, p', r') \<Longrightarrow>
     \<exists>as f. argv = pargv p @ as \<and> length as = Suc m \<and> are_bulks l as f \<and> r = f @ r' \<and> p' = new_parser l"
proof (induction m arbitrary: p r)
  case (0 p r)
  obtain n s q where h: "numeral_of (int n) s" "n \<le> max_bulk_len l" "r = CHR ''$'' # s @ CRLF @ q"
    "parse_bytes (p\<lparr>arg_len := int n, pstate := ArgData\<rparr>) q = (Complete argv, p', r')"
    using bulk_header_found [OF "0.prems"(1,4)] "0.prems"(3) by blast
  obtain a where a: "length a = n" "q = a @ CRLF @ r'" "argv = pargv p @ [a]" "p' = new_parser l"
    using bulk_data_found [OF _ _ h(4)] "0.prems"(2,3) by auto
  have "are_bulks l [a] (CHR ''$'' # s @ CRLF @ a @ CRLF @ [])" using h(1,2) a(1) by (intro are_bulks.intros) auto
  then show ?case using h(3) a by (intro exI [of _ "[a]"] exI [of _ "CHR ''$'' # s @ CRLF @ a @ CRLF"]) simp
next
  case (Suc m p r)
  obtain n s q where h: "numeral_of (int n) s" "n \<le> max_bulk_len l" "r = CHR ''$'' # s @ CRLF @ q"
    "parse_bytes (p\<lparr>arg_len := int n, pstate := ArgData\<rparr>) q = (Complete argv, p', r')"
    using bulk_header_found [OF Suc.prems(1,4)] Suc.prems(3) by blast
  let ?p = "\<lambda>a. p\<lparr>pargv := pargv p @ [a], arg_len := - 1, args_remaining := args_remaining p - 1, pstate := ArgLen\<rparr>"
  obtain a q' where a: "length a = n" "q = a @ CRLF @ q'" "parse_bytes (?p a) q' = (Complete argv, p', r')"
    using bulk_data_found [OF _ _ h(4)] Suc.prems(2) by auto
  obtain as f where as: "argv = (pargv p @ [a]) @ as" "length as = Suc m" "are_bulks l as f" "q' = f @ r'" "p' = new_parser l"
    using Suc.IH [of "?p a" q'] Suc.prems(2,3) a(3) by auto
  have "are_bulks l (a # as) (CHR ''$'' # s @ CRLF @ a @ CRLF @ f)" using h(1,2) a(1) as(3) by (intro are_bulks.intros) auto
  then show ?case
    using h(3) a(2) as by (intro exI [of _ "a # as"] exI [of _ "CHR ''$'' # s @ CRLF @ a @ CRLF @ f"]) simp
qed

subsection \<open>Lines\<close>

lemma line_accepted:
  assumes "LF \<notin> set t" "e = CRLF \<or> e = [LF] \<and> (t = [] \<or> last t \<noteq> CR)" "length t \<le> max_inline_len l" "split_inline t = Some argv"
  shows "parse_inline (new_parser l) (t @ e @ q) = (Some (Complete argv), new_parser l, Some (length (t @ e)))"
  using assms(2)
proof
  assume e: "e = CRLF"
  have "memchr LF ((t @ [CR]) @ LF # q) = Some (length (t @ [CR]))" using assms(1) by (intro memchr_line) simp
  then show ?thesis using assms(3,4) e by (simp add: parse_inline_def parser_reset_eq nth_append Let_def)
next
  assume e: "e = [LF] \<and> (t = [] \<or> last t \<noteq> CR)"
  have "memchr LF (t @ LF # q) = Some (length t)" using assms(1) by (intro memchr_line) simp
  moreover have "\<not> (0 < length t \<and> (t @ LF # q) ! (length t - 1) = CR)" using e by (auto simp: nth_append last_conv_nth)
  ultimately show ?thesis using assms(3,4) e by (auto simp: parse_inline_def parser_reset_eq Let_def)
qed

lemma line_found:
  assumes "parse_inline (new_parser l) r = (Some (Complete argv), p', k)" "r ! 0 \<noteq> CHR ''*''"
  shows "p' = new_parser l \<and> (\<exists>f. is_request l argv f \<and> r = f @ drop_opt k r)"
proof -
  obtain nl where nl: "memchr LF r = Some nl" using assms(1) by (auto simp: parse_inline_def fail_def split: option.splits if_splits)
  have m: "nl < length r" "r ! nl = LF" "LF \<notin> set (take nl r)" using memchr_SomeD [OF nl] by auto
  have r: "r = take nl r @ LF # drop (nl + 1) r" using m(1,2) by (metis Suc_eq_plus1 id_take_nth_drop)
  define cr where "cr \<longleftrightarrow> 0 < nl \<and> r ! (nl - 1) = CR"
  define t where "t = take (if cr then nl - 1 else nl) r"
  define e where "e = (if cr then CRLF else [LF])"
  have p: "length t \<le> max_inline_len l" "split_inline t = Some argv" "p' = new_parser l" "k = Some (nl + 1)"
    using assms(1) nl m(1)
    by (auto simp: parse_inline_def fail_def parser_reset_eq t_def cr_def Let_def split: option.splits if_splits)
  have te: "take nl r @ [LF] = t @ e"
  proof (cases cr)
    case True
    then have "take nl r = take (nl - 1) r @ [CR]" using m(1) take_Suc_conv_app_nth [of "nl - 1" r] by (simp add: cr_def)
    then show ?thesis using True by (simp add: t_def e_def)
  qed (simp add: t_def e_def)
  have "LF \<notin> set t" using m(3) set_take_subset_set_take [of "nl - 1" nl r] by (auto simp: t_def)
  moreover have "e = CRLF \<or> e = [LF] \<and> (t = [] \<or> last t \<noteq> CR)"
    using m(1) by (auto simp: e_def t_def cr_def last_conv_nth)
  moreover have f: "r = (t @ e) @ drop_opt k r" using r p(4) by (simp flip: te)
  moreover have "hd (t @ e) \<noteq> CHR ''*''"
    using assms(2) f by (metis append_is_Nil_conv e_def hd_append2 hd_conv_nth list.distinct(1))
  ultimately show ?thesis using p is_request.line [of t e l argv] by blast
qed

subsection \<open>The parser accepts the grammar\<close>

lemma request_accepted:
  assumes "is_request l argv f"
  shows "parse_bytes (new_parser l) (f @ r) = (Complete argv, new_parser l, r)"
  using assms
proof cases
  case (array s g)
  let ?p = "(new_parser l)\<lparr>args_remaining := int (length argv), pargv := [], pstate := ArgLen\<rparr>"
  have "CHR ''*'' \<noteq> CR" by simp
  note h = header_accepted [OF array(2) this refl, of "g @ r"]
  have "parse_case (new_parser l) (CHR ''*'' # s @ CRLF @ g @ r) = (None, ?p, Some (length s + 1 + 2))"
    using array(3,4) h by (simp add: parse_case_def parse_start_def)
  then have "parse_bytes (new_parser l) (f @ r) = parse_bytes ?p (g @ r)" using h(3) array(1) by (simp add: parse_bytes_again)
  also have "\<dots> = (Complete argv, new_parser l, r)" using bulks_accepted [OF array(5,3), of ?p r] by simp
  finally show ?thesis .
next
  case (empty_array n s)
  have "CHR ''*'' \<noteq> CR" by simp
  note h = header_accepted [OF empty_array(3) this refl, of r]
  have "parse_case (new_parser l) (CHR ''*'' # s @ CRLF @ r) = (Some (Complete []), new_parser l, Some (length s + 1 + 2))"
    using empty_array(4) h by (simp add: parse_case_def parse_start_def parser_reset_eq)
  then show ?thesis using h(3) empty_array(1,2) by (simp add: parse_bytes_return)
next
  case (line t e)
  have ne: "t @ e \<noteq> []" using line(3) by auto
  then have "(t @ e @ r) ! 0 \<noteq> CHR ''*''" "t @ e @ r \<noteq> []"
    using line(4) by (auto simp add: hd_conv_nth nth_append_left simp flip: append_assoc)
  then have "parse_case (new_parser l) (t @ e @ r) = (Some (Complete argv), new_parser l, Some (length (t @ e)))"
    using line_accepted [OF line(2,3,5,6), of r] by (simp add: parse_case_def parse_start_def)
  then show ?thesis using line(1) by (simp add: parse_bytes_return)
qed

lemma request_found:
  assumes "parse_bytes (new_parser l) r = (Complete argv, p', r')"
  shows "p' = new_parser l \<and> (\<exists>f. is_request l argv f \<and> r = f @ r')"
proof -
  let ?n = "new_parser l"
  have ne: "r \<noteq> []" using assms by auto
  show ?thesis
  proof (cases "r ! 0 = CHR ''*''")
    case False
    then have "parse_case ?n r = parse_inline ?n r" using ne by (simp add: parse_case_def parse_start_def)
    then show ?thesis
      using assms line_found [OF _ False, of l argv]
      by (cases rule: parse_bytes_cases [of ?n r]) (auto simp: parse_inline_def fail_def Let_def split: option.splits if_splits)
  next
    case True
    obtain i n where i: "find_crlf r = Some i" "string_to_int64 (take (i - 1) (drop 1 r)) = Some n" "n \<le> int (max_multibulk_args l)"
      and c: "parse_case ?n r = (if n \<le> 0 then (Some (Complete []), ?n, Some (i + 2))
        else (None, ?n\<lparr>args_remaining := n, pargv := [], pstate := ArgLen\<rparr>, Some (i + 2)))"
      using assms ne True
      by (cases rule: parse_bytes_cases [of ?n r])
         (auto simp: parse_case_def parse_start_def fail_def parser_reset_eq Let_def split: option.splits if_splits)
    have "0 < i" using True crlf_pos_SomeD [of r i] i(1) by (cases i) (auto simp: find_crlf_eq_crlf_pos)
    then obtain s where s: "numeral_of n s" "r = CHR ''*'' # s @ CRLF @ drop (i + 2) r"
      using header_found [OF i(1) _ i(2)] True by metis
    show ?thesis
    proof (cases "n \<le> 0")
      case True
      then have "argv = []" "p' = ?n" "r' = drop (i + 2) r" using assms parse_bytes_return [OF trans [OF c]] by simp_all
      then show ?thesis using is_request.empty_array [OF s(1) True, of l] s(2) by (metis append_Cons append_assoc)
    next
      case False
      let ?p = "?n\<lparr>args_remaining := n, pargv := [], pstate := ArgLen\<rparr>"
      have "parse_bytes ?p (drop (i + 2) r) = (Complete argv, p', r')" using assms parse_bytes_again [OF trans [OF c]] False by simp
      from bulks_found [OF _ _ _ this, of "nat n - 1" l] obtain g
        where g: "length argv = nat n" "are_bulks l argv g" "drop (i + 2) r = g @ r'" "p' = ?n"
        using False by (auto simp: nat_eq_iff)
      have "is_request l argv (CHR ''*'' # s @ CRLF @ g)"
        using s(1) g(1,2) i(3) False by (intro is_request.array) (auto simp: nat_eq_iff)
      then show ?thesis using s(2) g(3,4) by (metis append_Cons append_assoc)
    qed
  qed
qed

subsection \<open>Properties\<close>

text \<open>
  C26: the parser accepts exactly the requests of the grammar. Called between two commands on a buffer,
  \<open>parse\<close> returns a command if and only if the bytes of the buffer begin with a request; it then
  returns the arguments of that request, has consumed its bytes and no others, and is ready for the
  next one. So no malformed request passes, none that is well-formed is refused, and no stream of
  bytes can be read as two different requests.
\<close>

theorem parse_accepts_grammar:
  assumes "buf_ok b" "parse (new_parser l) b = (st, p', b')"
  shows "(\<forall>argv. st = Complete argv \<longrightarrow>
       buf_ok b' \<and> p' = new_parser l \<and> (\<exists>f. is_request l argv f \<and> buf_contents b = f @ buf_contents b')) \<and>
     (\<forall>argv f r. is_request l argv f \<and> buf_contents b = f @ r \<longrightarrow>
       st = Complete argv \<and> p' = new_parser l \<and> buf_contents b' = r)"
proof -
  have p: "buf_ok b'" "parse_bytes (new_parser l) (buf_contents b) = (st, p', buf_contents b')"
    using parse_refines_bytes [OF assms] by auto
  then show ?thesis using request_found [of l "buf_contents b"] request_accepted [of l] by fastforce
qed

theorem parse_accepts_grammar_witness:
  "\<exists>st p' b'. parse (new_parser default_limits) (buf_append new_buffer (''*1'' @ CRLF @ ''$4'' @ CRLF @ ''PING'' @ CRLF @ ''*'')) = (st, p', b') \<and>
     st = Complete [''PING''] \<and> p' = new_parser default_limits \<and> buf_contents b' = ''*''"
proof -
  let ?g = "CHR ''$'' # ''4'' @ CRLF @ ''PING'' @ CRLF @ []" and ?b = "buf_append new_buffer (''*1'' @ CRLF @ ''$4'' @ CRLF @ ''PING'' @ CRLF @ ''*'')"
  have n: "numeral_of 1 ''1''" "numeral_of 4 ''4''"
    by (simp_all add: numeral_of_def decimal_def is_digit_def byte_val_def in_int64_def)
  have "are_bulks default_limits [''PING''] ?g"
    using n(2) by (intro one_bulk no_bulk) (simp_all add: default_limits_def)
  then have f: "is_request default_limits [''PING''] (CHR ''*'' # ''1'' @ CRLF @ ?g)"
    using n(1) by (intro array) (simp_all add: default_limits_def)
  obtain st p' b' where r: "parse (new_parser default_limits) ?b = (st, p', b')" by (metis prod_cases3)
  have b: "buf_ok ?b" "buf_contents ?b = (CHR ''*'' # ''1'' @ CRLF @ ?g) @ ''*''" by simp_all
  note g = parse_accepts_grammar [OF b(1) r, THEN conjunct2, rule_format, OF conjI [OF f b(2)]]
  show ?thesis using r g by (intro exI [of _ st] exI [of _ p'] exI [of _ b'] conjI) simp_all
qed

end
