(* ===== verification/Spec2Isabelle.thy ===== *)
theory Spec2Isabelle
  imports Scenario Grammar
begin

text \<open>
  kvsd is a single-threaded key-value server that speaks RESP2. Bytes from a client land in the
  connection's input buffer (\<^verbatim>\<open>src/net/buffer\<close>), an incremental parser takes commands out of it
  (\<^verbatim>\<open>src/resp/parser\<close>), the command table dispatches them to handlers (\<^verbatim>\<open>src/cmd\<close>), the handlers
  work on the keyspace (\<^verbatim>\<open>src/db\<close>) and append replies (\<^verbatim>\<open>src/resp/writer\<close>) to the connection's
  output buffer, and the server (\<^verbatim>\<open>src/net/server.cpp\<close>) writes those out as the socket takes them.
  One event loop (\<^verbatim>\<open>src/net/event_loop.cpp\<close>) over one poller (epoll or kqueue) drives it all and
  runs the active expiry cycle once per turn. Paths are relative to the repository's \<^verbatim>\<open>src\<close>.

  \<^bold>\<open>The theories.\<close> Each opens with what it models.
  \<^item> \<open>Prelude\<close>: bytes, the ranges of \<^verbatim>\<open>int64_t\<close> and \<^verbatim>\<open>uint64_t\<close>, digits, \<^verbatim>\<open>memchr\<close>.
  \<^item> \<open>Buffer\<close>: \<^verbatim>\<open>Buffer\<close> with its vector and cursors; the interfaces \<open>byte_sink\<close>, \<open>byte_source\<close> and
    \<open>byte_queue\<close>, interpreted on it as \<open>bq\<close>.
  \<^item> \<open>Integers\<close>: \<^verbatim>\<open>string_to_int64\<close> and \<^verbatim>\<open>format_int\<close> on 64 bit words.
  \<^item> \<open>Inline\<close>, \<open>Parser\<close>: \<^verbatim>\<open>split_inline\<close> and \<^verbatim>\<open>RespParser\<close>, the latter on a buffer (\<open>parse\<close>) and on
    plain bytes (\<open>parse_bytes\<close>); \<open>drain\<close> and \<open>feed\<close> are the caller's loop on one and on several
    reads. \<open>Incremental\<close>: independence of the read boundaries. \<open>Roundtrip\<close>: a client's encoder and
    its inverse. \<open>Grammar\<close>: the request format as a grammar, and that the parser accepts exactly it.
    \<open>Parser_Bounds\<close>: the limits.
  \<^item> \<open>Writer\<close>: the reply encoders, a client's decoder, and the interface \<open>reply_sink\<close> (\<open>rs\<close>).
  \<^item> \<open>Db\<close>, \<open>Expiry\<close>: \<^verbatim>\<open>Value\<close>, \<^verbatim>\<open>Db\<close> and the sampling of \<^verbatim>\<open>active_expire_cycle\<close>; the interface
    \<open>keyspace\<close> (\<open>ks\<close>).
  \<^item> \<open>Commands\<close>: the context, the 16 handlers, the table and \<^verbatim>\<open>dispatch\<close>. \<open>Framing\<close>: one reply per
    command. \<open>Exec\<close>: a list of commands, and independence of the output already pending.
  \<^item> \<open>Keyspace_Spec\<close>, \<open>Refinement\<close>: an abstract store with deadlines and the proof that the
    commands implement it, one by one and over histories. Every request has a meaning there, a
    refusal if need be, but for unknown names with a line end, for QUIT, and for DBSIZE, whose count
    the store bounds from both sides.
  \<^item> \<open>Kernel\<close>: the operating system as the server sees it. \<open>Sockets\<close>: \<^verbatim>\<open>src/net/socket.cpp\<close> on it.
  \<^item> \<open>Poller\<close>: what the two backends make of a batch of events. \<open>Event_Loop\<close>: the registrations and
    the poller's interest list. \<open>Backends\<close>: the registration calls of epoll, with its masks, and of
    kqueue, with its two filters; the interface \<open>interest_backend\<close>, interpreted on both (\<open>ep\<close>, \<open>kq\<close>)
    and on the kernel's interest list that the server is proved on (\<open>kt\<close>).
  \<^item> \<open>Server\<close>: \<^verbatim>\<open>Conn\<close>, \<^verbatim>\<open>Server\<close> with its constructor, \<^verbatim>\<open>start\<close>, handlers and destructor, and the loop
    body. \<open>Server_Inv\<close>: the invariant and the listener. \<open>Delivery\<close>, \<open>Session\<close>, \<open>Liveness\<close>: the data
    path of a connection, whole events, reachable servers, and that replies do arrive.
    \<open>Descriptors\<close>: who owns each descriptor, from the start to the destructor. \<open>Memory\<close>: what a
    client can make the server hold.
  \<^item> \<open>Serial\<close>: an abstract server that executes one whole request at a time, with neither sockets nor
    buffers nor parser state, and the proof that it follows every step of the real one.
  \<^item> \<open>End_To_End\<close>: several clients over time, from being accepted, over the bytes they send, to the
    abstract store.
  \<^item> \<open>Logging\<close>: \<^verbatim>\<open>src/util/log.cpp\<close>, the log with its minimal level. \<open>Command_Line\<close>: \<^verbatim>\<open>parse_u64\<close> and \<^verbatim>\<open>parse_args\<close> of \<^verbatim>\<open>main.cpp\<close>.
    \<open>Process\<close>: the signal handlers, the loop over the poller's waits, and \<^verbatim>\<open>main\<close>. \<open>Server_Log\<close>: what
    the server writes to the log.
  \<^item> \<open>Scenario\<close>: a concrete server for the witnesses.

  \<^bold>\<open>How state and effects correspond.\<close> A class is a record with the members of the source, a method
  a function that returns the new record. A pointer into the keyspace is the value, and a write
  through it an update of the map. \<^verbatim>\<open>size_t\<close> quantities that the code bounds are natural numbers;
  \<^verbatim>\<open>int64_t\<close> values are integers with the range as a predicate where the code tests for overflow
  before it computes, and 64 bit words where it computes in unsigned arithmetic; ports are 16 bit
  words and flag masks words of their width. Early returns and error replies are branches; a
  function that reports through \<^verbatim>\<open>*err\<close> returns the reason; the parser's status is a datatype that
  carries its output.

  \<^bold>\<open>The environment.\<close> The clock is a sequence of readings in the keyspace record, consumed by
  \<open>now_ms\<close>; nothing says it is monotone unless a theorem does. The layout of the hash set that the
  expiry cycle walks is a parameter with the standard's guarantee \<open>lays_out\<close>. System calls answer
  from scripts in the record \<open>kernel\<close>, the choice of a descriptor is a function of those in use,
  and \<open>kernel_ok\<close> is all that is relied on: a descriptor handed out was not in use. Every call may
  fail, also one that changes the write interest of a descriptor; the member \<open>mod_refused\<close>, which no
  definition reads, records for which descriptors the last such call did. The constants and the conversions of
  addresses are in the record \<open>platform\<close>. The script of \<^verbatim>\<open>send\<close> is a finite list, so that a socket
  interrupts the loop of \<^verbatim>\<open>flush_output\<close> only finitely often; used up, it means the socket is full.
  What \<^verbatim>\<open>read\<close> returns comes with the event; what \<^verbatim>\<open>errno\<close> holds when a message asks for it, and the
  times of the log, come from scripts. The flag values of epoll and kqueue are parameters.
  What the environment does during one round of the loop is a \<open>turn\<close> (theory \<open>Process\<close>); of the
  signals it has those the program handles or ignores, \<^verbatim>\<open>SIGINT\<close>, \<^verbatim>\<open>SIGTERM\<close> and \<^verbatim>\<open>SIGPIPE\<close>. Where a theorem
  speaks of the time of an event or of a command (\<open>at_time\<close> in \<open>End_To_End\<close>, \<open>Refinement\<close>), the clock
  gives the same reading to every lookup of it; \<open>expire_can_lose_key\<close> shows what can happen otherwise.

  \<^bold>\<open>Termination.\<close> No fuel is used. The parser's loop ends because a turn that goes round consumes
  at least two bytes, \<^verbatim>\<open>process_input\<close> because a finished command has consumed at least one, the
  growth loop of the buffer because every size it visits is positive. The event loop may run
  forever: \<open>event_loop_run\<close> is a partial function over an endless sequence of turns, \<open>None\<close> when it
  does not return, and \<open>shutdown_is_prompt\<close> says exactly when it does. Its states between turns are
  also given by the inductive relation \<open>reachable\<close>.

  \<^bold>\<open>What the theorems show.\<close> Reading from the outside in: what each of several clients receives is
  what the abstract store answers to its commands when the commands of all of them run one after
  the other, each at the time of the read that completed it (\<open>served_meets_spec\<close>), as long as the clock
  stands still during a read, the replies fit the output limit and nobody sends QUIT or DBSIZE; with any input at
  all, errors, overflows and closings included, the server does what a server would do that executes
  one whole request at a time on the input in the order of the reads (\<open>reachable_serial\<close>); the stream it
  receives is a function of the stream it sent, however reads, writes and other clients' events
  fall; a writable socket is given exactly what it takes; every command of a pipeline is answered, with one reply,
  in order; the replies and the keyspace are those of the abstract store; expiry, lazy or active,
  is exact and invisible; the parser accepts exactly the requests of a grammar; parsing, printing, encoding
  and decoding are inverse; limits hold, and with them
  what a client can make the server hold is bounded in every reachable state; the
  server's tables, the registrations with the poller and the descriptors stay in step, as does the write
  interest as long as the system grants its changes; the two polling
  backends keep the same interest list; and from start to exit no descriptor is lost, shutdown is
  prompt, none of the signals modelled kills the process, and the log accounts for the connections and for the end.
  Nine theorems state behaviour that departs from what the
  code or its documentation means: \<open>unknown_command_splits_reply\<close>, \<open>inline_edge_depends_on_reads\<close>,
  \<open>closing_connection_still_executes\<close>, \<open>protocol_error_unbounded\<close>,
  \<open>protocol_error_splits_log_line\<close>, \<open>refused_interest_strands_reply\<close>, \<open>parse_u64_accepts\<close>, \<open>expire_can_lose_key\<close>, and the
  accepted numerals in \<open>string_to_int64_correct\<close>, which include leading zeros and a negative zero.

  \<^bold>\<open>Not modelled.\<close> How long a wait takes: the interval it is given is the configured one in every
  reachable state and for kqueue is converted exactly, but a turn of the loop is one wait, of
  whatever length. The scratch vector \<^verbatim>\<open>argv_\<close> carries nothing across calls
  and is left out. The tests, scripts and documents are not part of the program.

  The properties below span components; those of a single component are at the end of its theory.
\<close>

subsection \<open>Clients\<close>

text \<open>
  C3: every command of a pipeline is answered. A client on a fresh connection sends well-formed
  commands, none of them QUIT, cut into reads in any way, while the socket takes the output in
  any portions without failing; the replies fit the output limit. Then the connection stays
  open, the commands are executed in order, the bytes on the wire followed by those still
  pending are exactly the replies, and no input is left over.
\<close>

theorem pipeline_is_answered:
  assumes "server_inv s" "conns s fd = Some (new_conn fd peer)" "wire (kern s) fd = []"
    "\<forall>e \<in> set evs. event_ok e \<and> list_all send_fine (sends_of e)"
    "concat (map chunk_of evs) = encode_pipeline cmds" "\<forall>c \<in> set cmds. valid_command default_limits c"
    "exec cmds (sdb s) = (out, d, False)" "length out \<le> max_output_buffer (cfg s)"
    "s' = foldl (client_step fd) s evs"
  shows "\<exists>c. conns s' fd = Some c \<and> wire (kern s') fd @ buf_contents (conn_out c) = out \<and> sdb s' = d \<and>
    buf_contents (conn_in c) = []"
  using assms by (rule pipeline_served)

theorem pipeline_is_answered_witness:
  "\<exists>c. conns (foldl (client_step 5) demo_server demo_events) 5 = Some c \<and>
     wire (kern (foldl (client_step 5) demo_server demo_events)) 5 @ buf_contents (conn_out c) =
       encode_reply (RSimple ''PONG'')"
proof -
  have x: "exec [[''PING'']] (sdb demo_server) = (encode_reply (RSimple ''PONG''), demo_db, False)"
    using demo_exec demo_server_client(3) by simp
  have l: "length (encode_reply (RSimple ''PONG'')) \<le> max_output_buffer (cfg demo_server)"
    by (simp add: demo_server_client(4) default_config_def)
  show ?thesis
    using pipeline_is_answered [OF demo_server_inv demo_server_client(1,2) demo_events_fine demo_valid x l refl] by blast
qed

text \<open>
  C1: from the sockets to the specification. Clients come and are accepted, any number of them, and
  send requests, cut into reads in any way and interleaved in any way at non-decreasing times,
  with expiry cycles in between and the sockets taking the output in any portions. Take the
  commands of all clients in the order in which the reads completed them, and let the abstract
  store answer them one after the other, each at the time of that read. The clock stands still
  during a read, the commands are ones the store can answer, so neither QUIT nor DBSIZE, and the
  replies to each client fit the output limit. Then every client has
  been sent, or will be from its output buffer, exactly the replies to its own commands, and the
  keyspace stands for the store that is left.
\<close>

theorem served_meets_spec:
  assumes "server_inv s" "\<forall>fd \<in> F. fresh s fd" "stands_for t0 (sdb s) A"
    "500 \<le> t0" "\<forall>fd \<in> F. (\<forall>argv \<in> set (cmds fd). valid_command default_limits argv) \<and> list_all2 denotes (cmds fd) (as fd)"
    "\<forall>x \<in> set xs. occasion_ok F x" "sorted (t0 # map time_of xs)" "reported lay s xs"
    "\<forall>fd \<in> F. stream fd xs = encode_pipeline (cmds fd)" "spec_run (history as xs) A = (rs, A')"
    "\<forall>fd \<in> F. length (replies_to fd (history as xs) rs) \<le> max_output_buffer (cfg s)"
    "s' = foldl (timed_step lay) s xs"
  shows "stands_for (last (t0 # map time_of xs)) (sdb s') A' \<and>
    (\<forall>fd \<in> F. of_client fd (history as xs) = as fd \<and>
      (cmds fd \<noteq> [] \<longrightarrow> (\<exists>c. conns s' fd = Some c \<and> buf_contents (conn_in c) = [] \<and>
         wire (kern s') fd @ buf_contents (conn_out c) = replies_to fd (history as xs) rs)))"
  using assms by (rule clients_answered)

theorem served_meets_spec_witness:
  "\<exists>c c'. conns (foldl (timed_step sorted_layout) demo_pair demo_occasions) 5 = Some c \<and>
     conns (foldl (timed_step sorted_layout) demo_pair demo_occasions) 6 = Some c' \<and>
     wire (kern (foldl (timed_step sorted_layout) demo_pair demo_occasions)) 5 @ buf_contents (conn_out c) =
       encode_reply (RSimple ''OK'') \<and>
     wire (kern (foldl (timed_step sorted_layout) demo_pair demo_occasions)) 6 @ buf_contents (conn_out c') =
       encode_reply (RBulk ''v'')"
proof -
  obtain A' where run: "spec_run (history demo_acmds demo_occasions) Map.empty = ([RSimple ''OK'', RBulk ''v''], A')"
    by (auto simp: spec_run_def demo_history prune_def)
  have to: "replies_to 5 (history demo_acmds demo_occasions) [RSimple ''OK'', RBulk ''v''] = encode_reply (RSimple ''OK'')"
    "replies_to 6 (history demo_acmds demo_occasions) [RSimple ''OK'', RBulk ''v''] = encode_reply (RBulk ''v'')"
    by (simp_all add: replies_to_def demo_history)
  have fit: "\<forall>fd \<in> {5, 6}. length (replies_to fd (history demo_acmds demo_occasions) [RSimple ''OK'', RBulk ''v'']) \<le>
      max_output_buffer (cfg demo_pair)"
    using to by (simp add: demo_pair_fields(3) default_config_def std_to_string_def dec_digits.simps)
  have st: "stands_for 1000 (sdb demo_pair) Map.empty" by (simp add: demo_pair_fields(2) demo_db_def stands_for_new)
  have fr: "\<forall>fd \<in> {5, 6}. fresh demo_pair fd" using demo_pair_fields(1) by simp
  have "(500 :: int) \<le> 1000" by simp
  from served_meets_spec [OF demo_pair_inv fr st this demo_denotes demo_occasions_fine demo_reported demo_streams run fit refl,
      of sorted_layout]
  show ?thesis using to by (simp add: demo_cmds_def) blast
qed

text \<open>
  C2: the server is serial. Every state that the event loop can reach from a successful start, whatever
  the clients send and whatever the kernel does, is reached by an abstract server in which one
  whole request of one client is taken and executed at a time. That server is given exactly what
  the reads returned, in their order, and it ends with the same keyspace. Every connection has been
  sent, or will be from its output buffer, exactly what its session was answered; unless it is about
  to close, the requests executed for it are all the complete ones in what it sent, framed in one
  go. A client whose connection is gone received the beginning of what its session was answered.
\<close>

theorem reachable_serial:
  assumes "kernel_ok k" "db_ok d" "interest k = Map.empty" "start (new_server cf d k) = (None, s0)" "reads_to lay s0 R s"
  shows "\<exists>acts a. enacts lay (active_expire_samples cf) acts (idle_serial d) = Some a \<and> deliveries acts = R \<and> s_store a = sdb s \<and>
    (\<forall>fd c. conns s fd = Some c \<longrightarrow>
       (\<exists>ses. s_sessions a fd = Some ses \<and> s_live ses \<and> s_leaving ses = close_after_write c \<and>
          s_sent ses = wire (kern s) fd @ buf_contents (conn_out c) \<and>
          (close_after_write c \<or> s_ran ses = fst (drain (new_parser default_limits) (s_given ses))))) \<and>
    (\<forall>fd ses. conns s fd = None \<longrightarrow> s_sessions a fd = Some ses \<longrightarrow> \<not> s_live ses \<and> prefix (wire (kern s) fd) (s_sent ses))"
proof -
  have i: "server_inv s0" using start_inv [OF assms(1-4)] .
  have c: "conns s0 = Map.empty" "mem_ok cf s0" using start_conns [OF assms(1,4)] by (simp_all add: mem_ok_def)
  have "tracks (idle_serial d) s0" using c(1) start_db [OF assms(4)] by (simp add: tracks_def tracked_def over_def idle_serial_def)
  from reads_to_leads [OF assms(5) i c(2) this] obtain acts a where
    a: "enacts lay (active_expire_samples cf) acts (idle_serial d) = Some a" "deliveries acts = R" "tracks a s"
    by (auto simp: leads_def)
  have o: "all_in_order a" using enacts_in_order [OF _ a(1)] by (simp add: all_in_order_def idle_serial_def)
  have gone: "\<not> s_live ses \<and> prefix (wire (kern s) fd) (s_sent ses)" if "conns s fd = None" "s_sessions a fd = Some ses" for fd ses
    using tracked_cases(1) [OF _ that(1), of a] that(2) a(3) by (simp add: tracks_def over_def)
  show ?thesis
    using a tracked_ran [OF a(3) o] gone by (intro exI [of _ acts] exI [of _ a]) (simp add: tracks_def)
qed

theorem reachable_serial_witness:
  "\<exists>acts a. enacts sorted_layout 20 acts (idle_serial demo_db) = Some a \<and> deliveries acts = [(5, demo_request)] \<and>
     s_store a = sdb demo_pinged"
  using reachable_serial [OF demo_kernel_ok demo_db_ok demo_nothing_wanted(3) demo_start demo_pinged_reads]
  by (auto simp: default_config_def)

text \<open>
  C5: the stream is all that matters. For any connection that has parsed all it could, any further
  reads, partial writes and writable reports, and any input at all, as long as the connection is
  still there and not closing: what has been parsed is what the parser makes of the undivided
  input, the keyspace is what executing those commands makes of it, and what was written is what
  they wrote, in order, nothing lost, nothing twice.
\<close>

theorem session_is_stream:
  assumes "server_inv s" "conns s fd = Some c" "\<forall>e \<in> set evs. event_ok e"
    "s' = foldl (client_step fd) s evs" "conns s' fd = Some c'"
    "drain (conn_parser c) (buf_contents (conn_in c)) = ([], Incomplete, conn_parser c, buf_contents (conn_in c))"
    "\<not> close_after_write c'"
  shows "\<exists>cmds out.
     drain (conn_parser c) (buf_contents (conn_in c) @ concat (map chunk_of evs)) =
       (cmds, Incomplete, conn_parser c', buf_contents (conn_in c')) \<and>
     exec cmds (sdb s) = (out, sdb s', False) \<and>
     wire (kern s') fd @ buf_contents (conn_out c') = wire (kern s) fd @ buf_contents (conn_out c) @ out"
  using assms by (rule client_session)

theorem session_is_stream_witness:
  "\<exists>(c' :: conn) cmds out.
     drain (new_parser default_limits) demo_request = (cmds, Incomplete, conn_parser c', buf_contents (conn_in c')) \<and>
     exec cmds demo_db = (out, sdb (foldl (client_step 5) demo_server demo_events), False)"
proof -
  obtain c' where c': "conns (foldl (client_step 5) demo_server demo_events) 5 = Some c'" "\<not> close_after_write c'"
    using demo_stays_open by blast
  have ok: "\<forall>e \<in> set demo_events. event_ok e" using demo_events_fine(1) by blast
  have "drain (conn_parser (new_conn 5 demo_peer)) (buf_contents (conn_in (new_conn 5 demo_peer))) =
      ([], Incomplete, conn_parser (new_conn 5 demo_peer), buf_contents (conn_in (new_conn 5 demo_peer)))" by simp
  note st = session_is_stream [OF demo_server_inv demo_server_client(1) ok refl c'(1) this c'(2)]
  have "concat (map chunk_of demo_events) = demo_request" using demo_events_fine(2) demo_request_eq by simp
  then obtain cmds out where
    "drain (new_parser default_limits) demo_request = (cmds, Incomplete, conn_parser c', buf_contents (conn_in c'))"
    "exec cmds demo_db = (out, sdb (foldl (client_step 5) demo_server demo_events), False)"
    using st demo_server_client(3) by auto
  then show ?thesis by blast
qed

text \<open>
  C4: a writable report delivers exactly what the socket takes. The bytes taken leave the output buffer and
  appear on the wire, in order. While some remain, the connection stays, also one that is to close,
  and is flagged to be told again; when all are gone, a connection that is to close is closed, and
  any other is no longer flagged. What the poller reports is the same, unless the system refused the
  last change or refuses this one. The poller is asked for nothing while bytes remain, and what is
  refused leaves its entry as it was.
\<close>

theorem writable_report_exact:
  assumes "server_inv s" "conns s fd = Some c" "list_all send_fine os" "s' = client_step fd s (Drains os)"
    "out = buf_contents (conn_out c)" "n = taken os"
  shows "wire (kern s') fd = wire (kern s) fd @ take n out \<and>
    (if close_after_write c \<and> length out \<le> n then conns s' fd = None
     else \<exists>c'. conns s' fd = Some c' \<and> buf_contents (conn_out c') = drop n out \<and> close_after_write c' = close_after_write c \<and>
       write_armed c' = (drop n out \<noteq> []) \<and>
       (\<not> mod_refused (kern s) fd \<and> ctl_mods (kern s) 0 \<longrightarrow> interest (kern s') fd = Some (drop n out \<noteq> [])) \<and>
       (\<not> ctl_mods (kern s) 0 \<or> drop n out \<noteq> [] \<longrightarrow> interest (kern s') fd = interest (kern s) fd))"
  using assms by (rule writable_event)

theorem writable_report_exact_witness:
  "wire (kern (client_step 5 demo_closing (Drains [SendTook 3, SendIntr, SendTook 2]))) 5 =
     wire (kern demo_closing) 5 @ encode_reply (RSimple ''OK'') \<and>
   conns (client_step 5 demo_closing (Drains [SendTook 3, SendIntr, SendTook 2])) 5 = None"
proof -
  have f: "list_all send_fine [SendTook 3, SendIntr, SendTook 2]" by simp
  from writable_report_exact [OF demo_closing_inv demo_closing_fields(1) f refl refl refl] show ?thesis by simp
qed

text \<open>
  C27: what a client can make the server hold is bounded. In every state the event loop can reach from a
  successful start, whatever the clients send: a connection that is not about to close has no
  more input waiting for the parser than one argument, line or header of the maximal length, and
  no more output waiting for the socket than the configured limit.
\<close>

theorem reachable_memory_bounded:
  assumes "kernel_ok k" "db_ok d" "interest k = Map.empty" "start (new_server cf d k) = (None, s0)" "reachable lay s0 s"
    "conns s fd = Some c" "\<not> close_after_write c"
  shows "readable (conn_in c) \<le> max_pending default_limits \<and> readable (conn_out c) \<le> max_output_buffer cf"
proof -
  have "mem_ok cf s0" using start_conns [OF assms(1,4)] by (simp add: mem_ok_def)
  from reachable_bounded [OF assms(5) start_inv [OF assms(1-4)] this] show ?thesis
    using assms(6,7) by (auto simp: mem_ok_def conn_bounded_def)
qed

theorem reachable_memory_bounded_witness:
  "\<exists>c. conns demo_turned 5 = Some c \<and> readable (conn_in c) \<le> max_pending default_limits \<and> readable (conn_out c) \<le> 67108864"
proof -
  have "\<not> close_after_write (new_conn 5 demo_peer)" by simp
  from reachable_memory_bounded [OF demo_kernel_ok demo_db_ok demo_nothing_wanted(3) demo_start demo_turned_client this]
  show ?thesis using demo_turned_client(2) by (simp add: default_config_def)
qed

text \<open>
  C34: a closing connection is not closed to input. After QUIT or a protocol error, while the last
  reply waits for a full socket, a readable report is still read, parsed, executed against the
  keyspace and answered, behind what was meant to be the last reply.
\<close>

theorem closing_connection_still_executes:
  assumes "server_inv s" "conns s fd = Some c" "close_after_write c" "sends (kern s) = []"
    "bs \<noteq> []" "length bs \<le> kReadChunk"
    "drain (conn_parser c) (buf_contents (conn_in c) @ bs) = (cmds, Incomplete, p', r')"
    "exec cmds (sdb s) = (out, d', False)"
    "readable (conn_out c) + length out \<le> max_output_buffer (cfg s)"
    "s' = on_conn_event s fd True False (ReadBytes bs)"
  shows "\<exists>c'. conns s' fd = Some c' \<and> close_after_write c' \<and> sdb s' = d' \<and>
    buf_contents (conn_out c') = buf_contents (conn_out c) @ out"
  using assms by (rule closing_executes)

theorem closing_connection_still_executes_witness:
  "\<exists>c'. conns (on_conn_event demo_closing 5 True False (ReadBytes demo_request)) 5 = Some c' \<and> close_after_write c' \<and>
     buf_contents (conn_out c') = encode_reply (RSimple ''OK'') @ encode_reply (RSimple ''PONG'')"
proof -
  have d: "drain (conn_parser closing_conn) (buf_contents (conn_in closing_conn) @ demo_request) =
      ([[''PING'']], Incomplete, new_parser default_limits, [])"
    using drain_pipeline [OF demo_valid limits_ok_default] demo_request_eq by simp
  have x: "exec [[''PING'']] (sdb demo_closing) = (encode_reply (RSimple ''PONG''), demo_db, False)"
    using demo_exec demo_closing_fields(3) by simp
  have r: "demo_request \<noteq> []" "length demo_request \<le> kReadChunk"
    by (simp_all add: demo_request_def kReadChunk_def)
  have l: "readable (conn_out closing_conn) + length (encode_reply (RSimple ''PONG'')) \<le> max_output_buffer (cfg demo_closing)"
    by (simp add: demo_closing_fields(4) default_config_def)
  show ?thesis
    using closing_connection_still_executes [OF demo_closing_inv demo_closing_fields(1) _ demo_closing_fields(2) r d x l refl]
    by auto
qed

text \<open>
  C35: a protocol error lifts the bounds. The line that could not be parsed stays at the head of the input,
  the parser starts afresh on it at every read, and the limit on the output is only looked at
  after a command. So a client that has let its socket fill up and then sends a line that is no
  array header can go on sending: every read adds to the input buffer, which is never consumed
  again, and appends the error once more to the output, without limit.
\<close>

theorem protocol_error_unbounded:
  assumes "server_inv s" "conns s fd = Some c" "close_after_write c" "conn_parser c = new_parser default_limits"
    "buf_contents (conn_in c) = ''*x'' @ CRLF @ input" "\<forall>bs \<in> set chunks. bs \<noteq> [] \<and> length bs \<le> kReadChunk"
    "s' = foldl (client_step fd) s (map (\<lambda>bs. Chunk bs False []) chunks)"
  shows "\<exists>c'. conns s' fd = Some c' \<and> buf_contents (conn_in c') = ''*x'' @ CRLF @ input @ concat chunks \<and>
    buf_contents (conn_out c') = buf_contents (conn_out c) @
      concat (replicate (length chunks) (encode_reply (RError ''ERR Protocol error: invalid multibulk length'')))"
proof -
  have "stuck fd s input (buf_contents (conn_out c))" using assms(1-5) by (simp add: stuck_def bad_header_def)
  from stuck_events [OF this assms(6)] show ?thesis unfolding assms(7) by (auto simp: stuck_def bad_header_def bad_reply_def)
qed

theorem protocol_error_unbounded_witness:
  "\<exists>c'. conns (foldl (client_step 5) demo_stuck (map (\<lambda>bs. Chunk bs False []) (replicate 1000 ''junk''))) 5 = Some c' \<and>
     length (buf_contents (conn_in c')) = 4004"
proof -
  have "\<forall>bs \<in> set (replicate 1000 ''junk''). bs \<noteq> [] \<and> length bs \<le> kReadChunk" by (auto simp: kReadChunk_def)
  moreover have "buf_contents (conn_in stuck_conn) = ''*x'' @ CRLF @ []" by (simp add: bad_header_def)
  ultimately obtain c' where "conns (foldl (client_step 5) demo_stuck (map (\<lambda>bs. Chunk bs False []) (replicate 1000 ''junk''))) 5 = Some c'"
    "buf_contents (conn_in c') = ''*x'' @ CRLF @ [] @ concat (replicate 1000 ''junk'')"
    using protocol_error_unbounded [OF demo_stuck_inv demo_stuck_client _ _ _ _ refl] stuck_conn_fields(2,3) by blast
  then show ?thesis by (simp add: length_concat sum_list_replicate)
qed

text \<open>
  C36: a client can break a line of the log. The report of a protocol error quotes the byte that stands where
  an argument's length should, as it came. A client whose byte there is a line feed makes two
  lines of one.
\<close>

theorem protocol_error_splits_log_line:
  assumes "server_inv s" "conns s fd = Some (new_conn fd peer)" "g_min_level (klog (kern s)) \<le> Warn"
    "s' = on_conn_event s fd True wr (ReadBytes (''*1'' @ CRLF @ [LF] @ CRLF))"
  shows "\<exists>st before behind. (st, Warn, before @ [LF] @ behind) \<in> set (stderr (klog (kern s')))"
proof -
  let ?bs = "''*1'' @ CRLF @ [LF] @ CRLF" let ?p = "new_parser default_limits"
  obtain e p' r' b a where e: "parse_bytes ?p ?bs = (ParseError e, p', r')" "e = b @ [LF] @ a" "CHR 0x00 \<notin> set b"
    by (rule lf_quoted)
  have "length ?bs \<le> kReadChunk" "conn_peer (new_conn fd peer) = peer" by (simp_all add: kReadChunk_def new_conn_def)
  then obtain st where "(st, Warn, protocol_msg peer e) \<in> set (stderr (klog (kern s')))"
    using protocol_error_logged [OF assms(1,2) _ _ _ assms(3), of ?bs e p' r' wr] e(1) assms(4) by auto
  moreover have "c_str e = b @ [LF] @ c_str a" using e(3) unfolding e(2) by (simp add: c_str_append) (simp add: c_str_def)
  ultimately show ?thesis by (metis append.assoc protocol_msg_def)
qed

theorem protocol_error_splits_log_line_witness:
  "\<exists>st before behind. (st, Warn, before @ [LF] @ behind) \<in>
     set (stderr (klog (kern (on_conn_event demo_server 5 True False (ReadBytes (''*1'' @ CRLF @ [LF] @ CRLF))))))"
  using protocol_error_splits_log_line [OF demo_server_inv demo_server_client(1) _ refl] demo_server_level by blast

subsection \<open>The server's tables\<close>

text \<open>
  C6: the tables never get out of step. In every state the event loop can reach from a successful
  start, whatever the clients, the clock and the system calls do: a descriptor is registered with
  the loop and the poller exactly if it is the listener, unless that is paused, or a connection; a
  connection is flagged as armed exactly if it has output pending; one that is to close has output
  pending; and listener, spare and connections are distinct open descriptors. The poller asks for
  writability exactly for the connections with output pending, so that the loop neither spins on an
  idle connection nor forgets a waiting one, except for a connection for which the system refused
  the last change of the write interest.
\<close>

theorem reachable_tables_agree:
  assumes "kernel_ok k" "db_ok d" "interest k = Map.empty"
    "start (new_server cf d k) = (None, s0)" "reachable lay s0 s"
  shows "(interest (kern s) (listen_fd s) = None \<longleftrightarrow> listener_paused s) \<and>
    (fd \<noteq> listen_fd s \<longrightarrow> (interest (kern s) fd = None \<longleftrightarrow> conns s fd = None)) \<and>
    (fd \<noteq> listen_fd s \<and> \<not> mod_refused (kern s) fd \<longrightarrow>
       interest (kern s) fd = map_option (\<lambda>c. \<not> buf_empty (conn_out c)) (conns s fd)) \<and>
    handlers (sloop s) fd =
      (if fd = listen_fd s then if listener_paused s then None else Some ListenerCb
       else map_option (\<lambda>c. ConnCb) (conns s fd)) \<and>
    (\<forall>c. conns s fd = Some c \<longrightarrow> fd |\<in>| open_fds (kern s) \<and> fd \<noteq> listen_fd s \<and> (0 \<le> spare_fd s \<longrightarrow> fd \<noteq> spare_fd s) \<and>
       write_armed c = (\<not> buf_empty (conn_out c)) \<and> (close_after_write c \<longrightarrow> \<not> buf_empty (conn_out c)))"
proof -
  have i: "server_inv s" using reachable_inv [OF assms(5) start_inv [OF assms(1-4)]] .
  have none: "interest (kern s) f = None \<longleftrightarrow> handlers (sloop s) f = None" for f
    using i by (simp add: server_inv_def inv_defs loop_synced_def)
  have t: "table_ok s" "fds_ok s" using i by (simp_all add: server_inv_def inv_but_def core_inv_def)
  have "interest (kern s) fd = map_option (\<lambda>c. \<not> buf_empty (conn_out c)) (conns s fd)"
    if "fd \<noteq> listen_fd s" "\<not> mod_refused (kern s) fd"
    using i t(1) none [of fd] that
    by (cases "conns s fd") (auto simp: server_inv_def inv_but_def conn_here_def polled_as_def conn_ok_def table_ok_def)
  then show ?thesis
    using i t none [of "listen_fd s"] none [of fd]
    by (auto simp: server_inv_def inv_but_def conn_here_def conn_ok_def table_ok_def fds_ok_def)
qed

theorem reachable_tables_agree_witness:
  "interest (kern demo_turned) 5 = Some False \<and> handlers (sloop demo_turned) 5 = Some ConnCb"
proof -
  note t = reachable_tables_agree [OF demo_kernel_ok demo_db_ok demo_nothing_wanted(3) demo_start demo_turned_client(1), of 5]
  then have "5 \<noteq> listen_fd demo_turned" using demo_turned_client(2) by blast
  with t show ?thesis using demo_turned_client(2) demo_turned_granted by (simp add: buf_empty_def)
qed

text \<open>
  A refused change strands a reply. \<^verbatim>\<open>flush_output\<close> does not look at the result of
  \<^verbatim>\<open>set_write_interest\<close>. When the poller does not report writability for a connection, and the call
  that is to make it do so fails, or output is already pending, then whatever the event on the
  connection: if the connection is still there, the poller still does not report writability for it,
  although the connection is flagged as armed if output is pending. So nothing asks the poller again
  while output is pending, and what the socket did not take waits for the client to send something.
\<close>

theorem refused_interest_strands_reply:
  assumes "server_inv s" "conns s fd = Some c" "interest (kern s) fd = Some False"
    "\<not> buf_empty (conn_out c) \<or> \<not> ctl_mods (kern s) 0" "s' = on_conn_event s fd rd wr r" "conns s' fd = Some c'"
  shows "interest (kern s') fd = Some False \<and> write_armed c' = (\<not> buf_empty (conn_out c'))"
  using assms by (rule unarmed_stays)

theorem refused_interest_strands_reply_witness:
  "\<exists>c. conns (on_conn_event demo_refusing 5 True False (ReadBytes demo_request)) 5 = Some c \<and>
     buf_contents (conn_out c) = encode_reply (RSimple ''PONG'') \<and>
     interest (kern (on_conn_event demo_refusing 5 True False (ReadBytes demo_request))) 5 = Some False"
proof -
  obtain c where c: "conns (on_conn_event demo_refusing 5 True False (ReadBytes demo_request)) 5 = Some c"
    "buf_contents (conn_out c) = encode_reply (RSimple ''PONG'')" using demo_refused_waits by blast
  have "\<not> buf_empty (conn_out (new_conn 5 demo_peer)) \<or> \<not> ctl_mods (kern demo_refusing) 0" using demo_refusing_fields(4) by simp
  from refused_interest_strands_reply [OF demo_refusing_fields(1-3) this refl c(1)] c show ?thesis by blast
qed

text \<open>
  C23: the data stays well-formed. In every reachable state the volatile index matches the keyspace,
  the cursors of every connection's buffers are in order, every parser is in a consistent state
  with the default limits, each connection is filed under its own descriptor, and the loop has as
  many registrations as there are connections, and one more for a listener that is not paused. The
  loop waits with the configured interval.
\<close>

theorem reachable_well_formed:
  assumes "kernel_ok k" "db_ok d" "interest k = Map.empty"
    "start (new_server cf d k) = (None, s0)" "reachable lay s0 s"
  shows "db_ok (sdb s) \<and> registered_count (sloop s) = connection_count s + (if listener_paused s then 0 else 1) \<and>
    tick_interval (sloop s) = tick_interval_ms cf \<and>
    (\<forall>fd c. conns s fd = Some c \<longrightarrow> conn_fd c = fd \<and> buf_ok (conn_in c) \<and> buf_ok (conn_out c) \<and> parser_ok (conn_parser c) \<and>
       limits (conn_parser c) = default_limits)"
proof -
  have i: "server_inv s" using reachable_inv [OF assms(5) start_inv [OF assms(1-4)]] .
  have f: "finite (dom (conns s))" using descr_finite reachable_descr [OF assms(5) start_descr [OF assms(1,4)]] by blast
  have t: "tick_interval (sloop s) = tick_interval_ms cf" using reachable_interval [OF assms(5)] start_interval [OF assms(4)] by simp
  have "table_ok s" using i by (simp add: server_inv_def inv_but_def core_inv_def)
  from counts_agree [OF this f] show ?thesis
    using i t by (auto simp: server_inv_def inv_defs conn_ok_def conn_mid_def)
qed

theorem reachable_well_formed_witness:
  "db_ok (sdb (begin_run demo_started)) \<and>
   registered_count (sloop (begin_run demo_started)) =
     connection_count (begin_run demo_started) + (if listener_paused (begin_run demo_started) then 0 else 1)"
  using reachable_well_formed [OF demo_kernel_ok demo_db_ok demo_nothing_wanted(3) demo_start reach_start] by blast

text \<open>
  C24: the log accounts for the connections. When all lines are wanted, the lines that say that a connection was
  accepted are, in every state the event loop can reach, as many as those that say that one is
  closed and the connections there are.
\<close>

theorem log_accounts_for_connections:
  assumes "kernel_ok k" "db_ok d" "interest k = Map.empty" "klog k = set_min_level Debug (new_logger ts)"
    "start (new_server cf d k) = (None, s0)" "reachable lay s0 s"
  shows "log_count ''accepted '' (klog (kern s)) = log_count ''closing '' (klog (kern s)) + connection_count s"
proof -
  have "balanced s0" using assms(4,5) by (intro start_balanced) (simp_all add: set_min_level_def new_logger_def)
  then show ?thesis
    using reachable_log [OF assms(6) start_inv [OF assms(1-3,5)]] by (simp add: log_kept_def balanced_def)
qed

theorem log_accounts_for_connections_witness:
  "log_count ''accepted '' (klog (kern verbose_turned)) = log_count ''closing '' (klog (kern verbose_turned)) + connection_count verbose_turned"
proof -
  have "klog verbose_kernel = set_min_level Debug (new_logger (log_times demo_log))"
    by (simp add: verbose_kernel_def demo_log_def new_logger_def)
  from log_accounts_for_connections [OF verbose_kernel_ok(1) demo_db_ok verbose_kernel_ok(2) this verbose_start verbose_reachable]
  show ?thesis .
qed

text \<open>
  C7: no descriptor is lost and none can block. In every state the event loop can reach from a
  successful start, the open descriptors are exactly those that were open before and those the
  server holds, with no overlap; the listener and every connection are non-blocking, so no call
  on them stalls the loop.
\<close>

theorem reachable_descriptors:
  assumes "kernel_ok k" "start (new_server cf d k) = (None, s0)" "reachable lay s0 s"
  shows "fset (open_fds (kern s)) = fset (open_fds k) \<union> held s \<and> fset (open_fds k) \<inter> held s = {} \<and>
    nonblocking (kern s) (listen_fd s) \<and> (\<forall>fd \<in> dom (conns s). nonblocking (kern s) fd)"
  using reachable_descr [OF assms(3) start_descr [OF assms(1,2)]] by (simp add: descr_ok_def)

theorem reachable_descriptors_witness:
  "fset (open_fds (kern (begin_run demo_started))) = {0, 1} \<union> held (begin_run demo_started)"
  using reachable_descriptors [OF demo_kernel_ok demo_start reach_start] by (auto simp: demo_kernel_def)




text \<open>
  C17: an event reaches the connection it was reported for. In a batch with at most one event per
  descriptor, which is what the backends deliver, the connection that an event finds at its
  descriptor is the very connection that was registered when the batch was collected, unchanged,
  however many other connections the earlier events closed and however many the listener
  accepted, even onto descriptor numbers just freed.
\<close>

theorem event_reaches_its_connection:
  assumes "server_inv s" "distinct (map (\<lambda>e. ev_fd (fst e)) (before @ (ev, r) # behind))"
    "conns s (ev_fd ev) = Some c"
  shows "conns (foldl dispatch_event s before) (ev_fd ev) = Some c"
  using assms by (intro batch_keeps_conn) auto

theorem event_reaches_its_connection_witness:
  "conns (foldl dispatch_event demo_server [(new_event 3\<lparr>ev_readable := True\<rparr>, ReadAgain)]) 5 = Some (new_conn 5 demo_peer)"
  using event_reaches_its_connection [OF demo_server_inv, of "[(new_event 3\<lparr>ev_readable := True\<rparr>, ReadAgain)]" "new_event 5"
      ReadAgain "[]" "new_conn 5 demo_peer"] demo_server_client(1)
  by (simp add: new_event_def)

text \<open>
  C28: out of descriptors, exactly what is done. No connection of the server changes. With a spare
  descriptor, one connection is accepted in its place and closed at once: the accept queue is asked
  once, and of the descriptors only the spare has changed, so that a connection that was accepted is
  not left open. If the system grants a new spare it is kept and the listener stays as it was;
  otherwise there is no spare and the listener is no longer polled. Without a spare the queue is not
  touched and the listener is no longer polled. Whether the accept was answered is up to the system:
  if it was not, nothing has been shed, and the log says all the same that a connection was rejected.
\<close>

theorem shedding_outcome:
  assumes "server_inv s" "s' = shed_connection s"
  shows "conns s' = conns s \<and>
    (if spare_fd s < 0
     then listener_paused s' \<and> interest (kern s') (listen_fd s') = None \<and> spare_fd s' = spare_fd s \<and>
       open_fds (kern s') = open_fds (kern s) \<and> accepts (kern s') = accepts (kern s)
     else accepts (kern s') = (\<lambda>i. accepts (kern s) (Suc i)) \<and>
       (if opens (kern s) 0
        then 0 \<le> spare_fd s' \<and> spare_fd s' \<notin> fset (open_fds (kern s)) - {spare_fd s} \<and>
          fset (open_fds (kern s')) = insert (spare_fd s') (fset (open_fds (kern s)) - {spare_fd s}) \<and>
          sloop s' = sloop s \<and> listener_paused s' = listener_paused s
        else spare_fd s' = - 1 \<and> fset (open_fds (kern s')) = fset (open_fds (kern s)) - {spare_fd s} \<and>
          listener_paused s' \<and> interest (kern s') (listen_fd s') = None))"
  using assms by (rule shed_connection_exact)

theorem shedding_outcome_witness:
  "conns (shed_connection demo_pair) = conns demo_pair \<and> 0 \<le> spare_fd (shed_connection demo_pair) \<and>
   fset (open_fds (kern (shed_connection demo_pair))) =
     insert (spare_fd (shed_connection demo_pair)) (fset (open_fds (kern demo_pair)) - {spare_fd demo_pair})"
  using shedding_outcome [OF demo_pair_inv refl] demo_pair_spare by (simp only: if_True if_False simp_thms)

text \<open>
  C29: a paused listener comes back. When a connection closes and the system grants the spare
  descriptor and the registration, the listener is registered and polled again.
\<close>

theorem closing_resumes_listener:
  assumes "server_inv s" "conns s (conn_fd c) \<noteq> None" "opens (kern s) 0" "ctl_adds (kern s) 0"
    "s' = close_conn s c why"
  shows "conns s' = (conns s)(conn_fd c := None) \<and> \<not> listener_paused s' \<and>
    handlers (sloop s') (listen_fd s') = Some ListenerCb \<and> interest (kern s') (listen_fd s') \<noteq> None"
proof -
  have "inv_but {conn_fd c} s" using assms(1) by (auto simp: server_inv_def inv_but_def)
  then show ?thesis
    using close_conn_resumes [OF assms] close_conn_facts(2) [OF _ assms(2) refl] assms(5) by simp
qed

theorem closing_resumes_listener_witness:
  "listener_paused (granting (pause_listener demo_server)) \<and>
   \<not> listener_paused (close_conn (granting (pause_listener demo_server)) (new_conn 5 demo_peer) ''reply delivered'')"
proof -
  let ?s = "granting (pause_listener demo_server)"
  have p: "server_inv (pause_listener demo_server)" using demo_server_inv pause_listener_inv by (simp add: server_inv_def)
  then have i: "server_inv ?s"
    unfolding granting_def by (intro kernel_change_inv) (auto simp: server_inv_def inv_defs kernel_ok_def)
  have c: "conns ?s (conn_fd (new_conn 5 demo_peer)) \<noteq> None"
    using demo_server_client(1) by (simp add: new_conn_def granting_def)
  have g: "opens (kern ?s) 0" "ctl_adds (kern ?s) 0" "listener_paused ?s" by (simp_all add: granting_def)
  from closing_resumes_listener [OF i c g(1,2) refl] g(3) show ?thesis by blast
qed

subsection \<open>The life of the process\<close>

text \<open>
  C30: what a start does. Either it succeeds, and then the listener is bound to the configured address
  and port, or to a port of the system's choice if that was 0, listens with the configured
  backlog, does not block, and \<^verbatim>\<open>bound_port\<close> reports its port when the system answers; or it fails
  with a reason, and destroying the server gives back every descriptor that was taken.
\<close>

theorem start_outcome:
  assumes "kernel_ok k" "start (new_server cf d k) = (e, s)" "p = word_of_nat (port cf)"
  shows "case e of
      Some msg \<Rightarrow> msg \<noteq> [] \<and> fset (open_fds (kern (destroy [] s))) = fset (open_fds k)
    | None \<Rightarrow>
        (\<exists>addr. inet_pton (plat k) (bind_addr cf) = Some addr \<and>
           bound_to (kern s) (listen_fd s) = Some (addr, htons (plat k) (if p = 0 then ephemeral k else p))) \<and>
        listening (kern s) (listen_fd s) = Some (backlog cf) \<and> nonblocking (kern s) (listen_fd s) \<and>
        (calls (kern s) 0 = 0 \<longrightarrow> fst (bound_port s) = (if p = 0 then ephemeral k else p))"
proof (cases e)
  case (Some msg)
  then show ?thesis using assms(2) start_reason failed_start_descr [OF assms(1)] by auto
next
  case None
  then have s: "start (new_server cf d k) = (None, s)" using assms(2) by simp
  note l = start_listens [OF assms(1) s assms(3)]
  have "0 \<le> listen_fd s" "nonblocking (kern s) (listen_fd s)"
    using start_descr [OF assms(1) s] by (simp_all add: descr_ok_def roles_ok_def)
  then show ?thesis using None l bound_port_exact [of s] by auto
qed

theorem start_outcome_witness:
  "listening (kern demo_started) (listen_fd demo_started) = Some 511 \<and> nonblocking (kern demo_started) (listen_fd demo_started)"
  using start_outcome [OF demo_kernel_ok demo_start refl] by (simp add: default_config_def)

text \<open>
  C8: shutdown is prompt. The event loop returns exactly if a stop signal arrives or the poller
  fails: at the end of the first turn in which one does, or of the very first turn if a signal came
  while the server was starting. It returns stopped, and none of the signals it handles or ignores kills the process; without
  such an event it runs forever.
\<close>

theorem shutdown_is_prompt:
  "let p = turns X ((launched early s)\<lparr>srv := begin_run s\<rparr>) (map T [0..<Suc (last_turn (stop_signal early) T)])
   in if stop_signal early \<or> (\<exists>i. turn_ends (T i))
      then server_run X T (launched early s) = Some p \<and> \<not> running (sloop (srv p)) \<and> \<not> killed p
      else server_run X T (launched early s) = None"
proof -
  let ?p = "(launched early s)\<lparr>srv := begin_run s\<rparr>"
  define ts where "ts = map T [0..<Suc (last_turn (stop_signal early) T)]"
  have k: "\<not> killed (turns X ?p ts)"
    using turns_facts(1) [of ?p X ts] launched_facts(1) by (simp add: guarded_def)
  have e: "server_run X T (launched early s) = (if stop_signal early \<or> (\<exists>i. turn_ends (T i)) then Some (turns X ?p ts) else None)"
    unfolding ts_def by (rule server_run_exact)
  then have "\<not> running (sloop (srv (turns X ?p ts)))" if "stop_signal early \<or> (\<exists>i. turn_ends (T i))"
    using that k event_loop_run_stopped by (metis server_run_def)
  with k e show ?thesis unfolding Let_def ts_def [symmetric] by simp
qed

text \<open>
  C9: the process gives everything back. However the process ends, for bad arguments, for a start that
  failed or stopped by a signal or a failed poller, it is not killed by \<^verbatim>\<open>SIGINT\<close>, \<^verbatim>\<open>SIGTERM\<close> or \<^verbatim>\<open>SIGPIPE\<close>,
  the signals that \<^verbatim>\<open>main\<close> provides for, and the descriptors open at
  the end are those that were open at the beginning. The destructor may find the connections in
  any order. The log has only grown, and its last line tells a stop or the reason of a failed start.
\<close>

theorem main_gives_back:
  assumes "kernel_ok k" "db_ok d" "interest k = Map.empty" "g_min_level (klog k) = Info"
    "\<forall>m. finite (dom m) \<longrightarrow> set (order m) = dom m" "main_run X T early order argv0 args d k = Some (r, k')"
  shows "r \<noteq> Killed \<and> fset (open_fds k') = fset (open_fds k) \<and>
    (\<forall>level msg. last_words_of r = Some (level, msg) \<longrightarrow>
       (\<exists>ls st. stderr (klog k') = stderr (klog k) @ ls @ [(st, level, msg)]))"
  using main_run_descr [OF assms(1) _ assms(6)] assms(5) main_run_log [OF assms(1-3) _ assms(6)] assms(4) by auto

theorem main_gives_back_witness:
  "\<exists>k'. main_run demo_fixtures (\<lambda>i. demo_turn) [] (\<lambda>m. sorted_list_of_set (dom m)) ''kvsd'' [] demo_db demo_kernel = Some (Stopped, k') \<and>
     fset (open_fds k') = {0, 1} \<and> (\<exists>ls st. stderr (klog k') = ls @ [(st, Info, ''kvsd stopped'')])"
proof -
  have "turn_ends demo_turn" by (simp add: turn_ends_def demo_turn_def stop_signal_def)
  then obtain p where p: "server_run demo_fixtures (\<lambda>i. demo_turn) (launched [] demo_started) = Some p"
    unfolding server_run_exact by auto
  have nk: "\<not> killed p"
    using server_run_descr(2) [OF start_descr [OF demo_kernel_ok demo_start] p] .
  have "parse_args ''kvsd'' [] default_config False = Inr (default_config, False)" by simp
  moreover have "start (new_server default_config demo_db (set_verbosity False demo_kernel)) = (None, demo_started)"
    using demo_start by (simp add: set_verbosity_def)
  ultimately obtain k' where
    r: "main_run demo_fixtures (\<lambda>i. demo_turn) [] (\<lambda>m. sorted_list_of_set (dom m)) ''kvsd'' [] demo_db demo_kernel = Some (Stopped, k')"
    using main_run_start p nk by simp
  have o: "\<forall>m :: int \<rightharpoonup> conn. finite (dom m) \<longrightarrow> set (sorted_list_of_set (dom m)) = dom m" by simp
  have l: "g_min_level (klog demo_kernel) = Info" by (simp add: demo_kernel_def demo_log_def new_logger_def)
  from main_gives_back [OF demo_kernel_ok demo_db_ok demo_nothing_wanted(3) l o r] show ?thesis
    using r by (auto simp: demo_kernel_def demo_log_def new_logger_def last_words_of_def stopped_msg_def)
qed

end
